(* ===== verification/Prelude.thy ===== *)
theory Prelude
  imports Main "HOL-Library.Word" "HOL-Library.Sublist"
begin

text \<open>
  Shared vocabulary of the development: the machine types of the source, panics as values,
  the slice operations of the Rust standard library that several components use, and the
  generic facts on lists and words that the component proofs share.  A \<open>usize\<close> is 64 bits
  wide, as on the x86-64 hosts the repository targets.
\<close>

unbundle bit_operations_syntax

type_synonym u8 = "8 word"
type_synonym u32 = "32 word"
type_synonym u64 = "64 word"
type_synonym usize = "64 word"

named_theorems slice_simps \<open>evaluation of slice operations whose bounds are in range\<close>

section \<open>Panics and results\<close>

datatype panic =
    SliceIndex                \<comment> \<open>a slice or array index out of range\<close>
  | CopyLength                \<comment> \<open>\<open>copy_from_slice\<close> on slices of different length\<close>
  | AssertFailed              \<comment> \<open>\<open>assert!\<close>\<close>
  | Unwrapped                 \<comment> \<open>\<open>unwrap\<close> or \<open>expect\<close> on an error\<close>

definition and_then :: "'e + 'a \<Rightarrow> ('a \<Rightarrow> 'e + 'b) \<Rightarrow> 'e + 'b" where
  "and_then r f = (case r of Inl e \<Rightarrow> Inl e | Inr x \<Rightarrow> f x)"

lemma and_then_simps [simp]:
  "and_then (Inl e) f = Inl e" "and_then (Inr x) f = f x"
  by (simp_all add: and_then_def)

text \<open>Collecting a list of results, up to the first failure.\<close>

fun collect_all :: "(panic + 'a) list \<Rightarrow> panic + 'a list" where
  "collect_all [] = Inr []"
| "collect_all (x # xs) = and_then x (\<lambda>a. and_then (collect_all xs) (\<lambda>as. Inr (a # as)))"

lemma collect_all_Inr: "collect_all (map (\<lambda>i. Inr (f i)) xs) = Inr (map f xs)"
  by (induction xs) simp_all

lemma and_then_Inr_iff:
  "and_then r f = Inr y \<longleftrightarrow> (\<exists>x. r = Inr x \<and> f x = Inr y)"
  by (cases r) auto

section \<open>Slices\<close>

text \<open>\<open>&xs[lo..hi]\<close>, and \<open>xs[lo..hi].copy_from_slice(src)\<close>, with the panics of the library.\<close>

definition slice_range :: "nat \<Rightarrow> nat \<Rightarrow> 'a list \<Rightarrow> panic + 'a list" where
  "slice_range lo hi xs =
     (if lo \<le> hi \<and> hi \<le> length xs then Inr (drop lo (take hi xs)) else Inl SliceIndex)"

definition copy_from_slice :: "'a list \<Rightarrow> nat \<Rightarrow> nat \<Rightarrow> 'a list \<Rightarrow> panic + 'a list" where
  "copy_from_slice xs lo hi src =
     (if \<not> (lo \<le> hi \<and> hi \<le> length xs) then Inl SliceIndex
      else if length src \<noteq> hi - lo then Inl CopyLength
      else Inr (take lo xs @ src @ drop hi xs))"

lemma slice_range_ok [slice_simps]:
  "lo \<le> hi \<Longrightarrow> hi \<le> length xs \<Longrightarrow> slice_range lo hi xs = Inr (drop lo (take hi xs))"
  by (simp add: slice_range_def)

lemma copy_from_slice_ok [slice_simps]:
  "lo \<le> hi \<Longrightarrow> hi \<le> length xs \<Longrightarrow> length src = hi - lo \<Longrightarrow>
   copy_from_slice xs lo hi src = Inr (take lo xs @ src @ drop hi xs)"
  by (simp add: copy_from_slice_def)

text \<open>\<open>iter().position(p)\<close> and \<open>iter().rposition(p)\<close>.\<close>

fun position :: "('a \<Rightarrow> bool) \<Rightarrow> 'a list \<Rightarrow> nat option" where
  "position p [] = None"
| "position p (x # xs) = (if p x then Some 0 else map_option Suc (position p xs))"

fun rposition :: "('a \<Rightarrow> bool) \<Rightarrow> 'a list \<Rightarrow> nat option" where
  "rposition p [] = None"
| "rposition p (x # xs) =
     (case rposition p xs of Some i \<Rightarrow> Some (Suc i) | None \<Rightarrow> if p x then Some 0 else None)"

lemma position_None_iff: "position p xs = None \<longleftrightarrow> (\<forall>x\<in>set xs. \<not> p x)"
  by (induction xs) auto

lemma position_append:
  "\<forall>x\<in>set xs. \<not> p x \<Longrightarrow> position p (xs @ ys) = map_option ((+) (length xs)) (position p ys)"
  by (induction xs) (simp_all add: option.map_comp o_def option.map_ident cong: option.map_cong)

lemma position_Some_less: "position p xs = Some i \<Longrightarrow> i < length xs"
  by (induction xs arbitrary: i) (auto split: if_splits)

lemma position_Some_take: "position p xs = Some i \<Longrightarrow> \<forall>x\<in>set (take i xs). \<not> p x"
  by (induction xs arbitrary: i) (auto split: if_splits)

lemma rposition_None_iff: "rposition p xs = None \<longleftrightarrow> (\<forall>x\<in>set xs. \<not> p x)"
  by (induction xs) (auto split: option.splits)

lemma rposition_Some_less: "rposition p xs = Some i \<Longrightarrow> i < length xs"
  by (induction xs arbitrary: i) (auto split: option.splits if_splits)

lemma rposition_append_none:
  "\<forall>y\<in>set ys. \<not> p y \<Longrightarrow> rposition p (xs @ ys) = rposition p xs"
  by (induction xs) (auto simp: rposition_None_iff)

lemma rposition_snoc: "p x \<Longrightarrow> rposition p (xs @ [x]) = Some (length xs)"
  by (induction xs) auto

section \<open>Fixed-width fields\<close>

text \<open>A byte field of width \<open>n\<close>, filled from the left and zero padded.\<close>

definition pad_to :: "nat \<Rightarrow> u8 list \<Rightarrow> u8 list" where
  "pad_to n xs = take n xs @ replicate (n - length xs) 0"

lemma length_pad_to [simp]: "length (pad_to n xs) = n"
  by (simp add: pad_to_def)

lemma copy_into_zeros [slice_simps]:
  "copy_from_slice (replicate n (0 :: u8)) 0 (min (length xs) n) (take (min (length xs) n) xs) =
     Inr (pad_to n xs)"
  by (auto simp: copy_from_slice_def pad_to_def min_def)

section \<open>Chunks\<close>

text \<open>\<open>xs.chunks(n)\<close>: consecutive pieces of \<open>n\<close> elements, the last one possibly shorter.  A
  chunk size of zero panics in the source; callers check it before they come here.\<close>

function chunks :: "nat \<Rightarrow> 'a list \<Rightarrow> 'a list list" where
  "chunks n xs = (if n = 0 \<or> xs = [] then [] else take n xs # chunks n (drop n xs))"
  by pat_completeness auto
termination
  by (relation "measure (\<lambda>(n, xs). length xs)") auto

declare chunks.simps [simp del]

lemma chunks_Nil [simp]: "chunks n [] = []"
  by (simp add: chunks.simps)

lemma chunks_step: "0 < n \<Longrightarrow> xs \<noteq> [] \<Longrightarrow> chunks n xs = take n xs # chunks n (drop n xs)"
  by (subst chunks.simps) simp

lemma concat_chunks: "0 < n \<Longrightarrow> concat (chunks n xs) = xs"
proof (induction n xs rule: chunks.induct)
  case (1 n xs)
  then show ?case by (cases "xs = []") (simp_all add: chunks_step)
qed

lemma chunks_sizes: "0 < n \<Longrightarrow> c \<in> set (chunks n xs) \<Longrightarrow> 0 < length c \<and> length c \<le> n"
proof (induction n xs rule: chunks.induct)
  case (1 n xs)
  then show ?case by (cases "xs = []") (auto simp: chunks_step)
qed

lemma length_concat_map_const:
  "(\<And>x. x \<in> set xs \<Longrightarrow> length (f x) = w) \<Longrightarrow> length (concat (map f xs)) = w * length xs"
  by (induction xs) auto

section \<open>Words\<close>

text \<open>Masking with \<open>2 ^ k - 1\<close> is the remainder modulo \<open>2 ^ k\<close>.\<close>

lemma unat_and_mask:
  fixes w :: "'a::len word"
  assumes "k < LENGTH('a)"
  shows "unat (w AND (2 ^ k - 1)) = unat w mod 2 ^ k"
proof -
  have "w AND (2 ^ k - 1) = take_bit k w"
    by (simp add: take_bit_eq_mask mask_eq_exp_minus_1)
  then have "unat (w AND (2 ^ k - 1)) = take_bit k (unat w)"
    by (simp only: unsigned_take_bit_eq)
  then show ?thesis
    by (simp only: take_bit_eq_mod)
qed

lemma mod_exp_exp:
  "k \<le> l \<Longrightarrow> (n :: nat) mod 2 ^ l mod 2 ^ k = n mod 2 ^ k"
  by (simp add: mod_mod_cancel le_imp_power_dvd)

lemma unat_of_nat_mod:
  assumes "k \<le> LENGTH('a::len)"
  shows "unat (of_nat n :: 'a word) mod 2 ^ k = n mod 2 ^ k"
  using assms by (simp add: unat_of_nat mod_exp_exp)

lemma of_nat_diff_word:
  "m \<le> n \<Longrightarrow> n - m < 2 ^ LENGTH('a::len) \<Longrightarrow> unat (of_nat n - of_nat m :: 'a word) = n - m"
  by (simp add: of_nat_diff [symmetric] unat_of_nat del: of_nat_diff)

lemma of_nat_eq_iff_close:
  assumes "m \<le> n" and "n - m < 2 ^ LENGTH('a::len)"
  shows "(of_nat m :: 'a word) = of_nat n \<longleftrightarrow> m = n"
  using of_nat_diff_word [OF assms] assms(1) by auto

lemma mod_window_inj_le:
  assumes "(a + i) mod n = (a + j) mod n" and "i \<le> j" and "j < (n :: nat)"
  shows "i = j"
proof -
  have "n dvd (a + j) - (a + i)"
    using assms(1,2) mod_eq_dvd_iff_nat [of "a + i" "a + j" n] by simp
  then have "n dvd j - i" by simp
  with assms(2,3) show ?thesis
    by (auto dest: dvd_imp_le)
qed

lemma mod_window_inj:
  assumes "(a + i) mod n = (a + j) mod n" and "i < n" and "j < (n :: nat)"
  shows "i = j"
  using mod_window_inj_le [of a i n j] mod_window_inj_le [of a j n i] assms
  by (metis nat_le_linear)

section \<open>Little-endian integers\<close>

text \<open>\<open>u64::to_le_bytes\<close> and \<open>u64::from_le_bytes\<close>.\<close>

definition to_le_bytes :: "u64 \<Rightarrow> u8 list" where
  "to_le_bytes w = map (\<lambda>i. ucast (drop_bit (8 * i) w)) [0..<8]"

fun from_le_bytes :: "u8 list \<Rightarrow> u64" where
  "from_le_bytes [] = 0"
| "from_le_bytes (b # bs) = ucast b OR push_bit 8 (from_le_bytes bs)"

lemma length_to_le_bytes [simp]: "length (to_le_bytes w) = 8"
  by (simp add: to_le_bytes_def)

lemma bit_from_le_bytes:
  "bit (from_le_bytes bs) n \<longleftrightarrow> n < 64 \<and> n < 8 * length bs \<and> bit (bs ! (n div 8)) (n mod 8)"
proof (induction bs arbitrary: n)
  case Nil
  then show ?case by simp
next
  case (Cons b bs)
  show ?case
  proof (cases "n < 8")
    case True
    then show ?thesis by (simp add: bit_simps)
  next
    case False
    then have "(b # bs) ! (n div 8) = bs ! ((n - 8) div 8)" and "n mod 8 = (n - 8) mod 8"
      by (simp_all add: le_div_geq le_mod_geq)
    moreover have "\<not> bit b n"
      using False by (auto dest: bit_imp_le_length)
    ultimately show ?thesis
      using False Cons.IH [of "n - 8"] by (auto simp: bit_simps)
  qed
qed

lemma from_to_le_bytes [simp]: "from_le_bytes (to_le_bytes w) = w"
proof (rule bit_word_eqI)
  fix n :: nat
  assume "n < LENGTH(64)"
  then have "n < 64" by simp
  moreover from this have "n div 8 < 8" by simp
  ultimately show "bit (from_le_bytes (to_le_bytes w)) n \<longleftrightarrow> bit w n"
    by (simp add: bit_from_le_bytes to_le_bytes_def bit_simps)
qed

lemma to_from_le_bytes:
  assumes "length bs = 8"
  shows "to_le_bytes (from_le_bytes bs) = bs"
proof (rule nth_equalityI)
  show "length (to_le_bytes (from_le_bytes bs)) = length bs"
    using assms by simp
next
  fix i
  assume "i < length (to_le_bytes (from_le_bytes bs))"
  then have i: "i < 8" by simp
  show "to_le_bytes (from_le_bytes bs) ! i = bs ! i"
  proof (rule bit_word_eqI)
    fix n :: nat
    assume "n < LENGTH(8)"
    then have n: "n < 8" by simp
    then have "(8 * i + n) div 8 = i" and "(8 * i + n) mod 8 = n" by simp_all
    moreover have "8 * i + n < 64" using i n by simp
    ultimately show "bit (to_le_bytes (from_le_bytes bs) ! i) n \<longleftrightarrow> bit (bs ! i) n"
      using i n assms by (simp add: to_le_bytes_def bit_simps bit_from_le_bytes)
  qed
qed

end
