(* ===== verification/Utf8.thy ===== *)
theory Utf8
  imports Prelude
begin

text \<open>
  The part of the Rust string type that the program relies on.  A \<open>&str\<close> is a list of
  bytes that is well-formed UTF-8; \<open>core::str::from_utf8\<close> accepts exactly the byte
  sequences of Table 3-7 of the Unicode standard, and cutting a string at a byte index keeps
  it well formed exactly when the index is a character boundary.
\<close>

type_synonym str = "u8 list"

text \<open>The bytes of a string literal of ASCII characters.\<close>

definition bytes_of :: "string \<Rightarrow> str" where
  "bytes_of s = map of_char s"

definition is_cont :: "u8 \<Rightarrow> bool" where
  "is_cont b \<longleftrightarrow> 0x80 \<le> b \<and> b \<le> 0xBF"

text \<open>Length of the sequence a lead byte announces; 0 for a byte that cannot start one.\<close>

definition utf8_char_width :: "u8 \<Rightarrow> nat" where
  "utf8_char_width a =
     (if a < 0x80 then 1 else if a < 0xC2 then 0 else if a \<le> 0xDF then 2
      else if a \<le> 0xEF then 3 else if a \<le> 0xF4 then 4 else 0)"

definition second_ok :: "u8 \<Rightarrow> u8 \<Rightarrow> bool" where
  "second_ok a b \<longleftrightarrow> is_cont b \<and> (a = 0xE0 \<longrightarrow> 0xA0 \<le> b) \<and> (a = 0xED \<longrightarrow> b \<le> 0x9F) \<and>
     (a = 0xF0 \<longrightarrow> 0x90 \<le> b) \<and> (a = 0xF4 \<longrightarrow> b \<le> 0x8F)"

definition utf8_char :: "u8 list \<Rightarrow> bool" where
  "utf8_char cs = (case cs of [] \<Rightarrow> False
     | a # r \<Rightarrow> utf8_char_width a = length cs \<and>
         (case r of [] \<Rightarrow> True | b # r' \<Rightarrow> second_ok a b \<and> list_all is_cont r'))"

function utf8_valid :: "u8 list \<Rightarrow> bool" where
  "utf8_valid xs = (case xs of [] \<Rightarrow> True
     | a # _ \<Rightarrow>
         if utf8_char_width a = 0 then False
         else utf8_char (take (utf8_char_width a) xs) \<and> utf8_valid (drop (utf8_char_width a) xs))"
  by pat_completeness auto
termination
  by (relation "measure length") auto

declare utf8_valid.simps [simp del]

lemma utf8_valid_Cons:
  "utf8_valid (a # r) \<longleftrightarrow> 0 < utf8_char_width a \<and>
     utf8_char (take (utf8_char_width a) (a # r)) \<and> utf8_valid (drop (utf8_char_width a) (a # r))"
  by (subst utf8_valid.simps) simp

lemma utf8_valid_Nil [simp]: "utf8_valid []"
  by (subst utf8_valid.simps) simp

lemma utf8_char_simps:
  "\<not> utf8_char []"
  "utf8_char (a # r) \<longleftrightarrow> utf8_char_width a = Suc (length r) \<and>
     (case r of [] \<Rightarrow> True | b # r' \<Rightarrow> second_ok a b \<and> list_all is_cont r')"
  by (simp_all add: utf8_char_def)

lemma utf8_char_tl_cont: "utf8_char (a # r) \<Longrightarrow> list_all is_cont r"
  by (auto simp: utf8_char_simps second_ok_def split: list.splits)

lemma lead_not_cont: "0 < utf8_char_width a \<Longrightarrow> \<not> is_cont a"
  by (auto simp: utf8_char_width_def is_cont_def word_less_nat_alt word_le_nat_alt split: if_splits)

lemma utf8_char_append: "utf8_char cs \<Longrightarrow> utf8_valid (cs @ xs) = utf8_valid xs"
  by (cases cs) (auto simp: utf8_char_simps utf8_valid_Cons)

text \<open>Every ASCII byte string is well formed.\<close>

lemma utf8_valid_ascii_Cons: "a < 0x80 \<Longrightarrow> utf8_valid (a # xs) = utf8_valid xs"
  using utf8_char_append [of "[a]" xs] by (simp add: utf8_char_simps utf8_char_width_def)

lemma utf8_valid_ascii: "list_all (\<lambda>a. a < 0x80) xs \<Longrightarrow> utf8_valid xs"
  by (induction xs) (auto simp: utf8_valid_ascii_Cons)

lemma utf8_valid_append: "utf8_valid xs \<Longrightarrow> utf8_valid (xs @ ys) = utf8_valid ys"
proof (induction xs rule: utf8_valid.induct)
  case (1 xs)
  show ?case
  proof (cases xs)
    case Nil
    then show ?thesis by simp
  next
    case (Cons a r)
    let ?w = "utf8_char_width a"
    from 1(2) Cons have w: "0 < ?w" "utf8_char (take ?w xs)" "utf8_valid (drop ?w xs)"
      by (simp_all add: utf8_valid_Cons)
    have "utf8_valid (xs @ ys) = utf8_valid (take ?w xs @ drop ?w xs @ ys)"
      by (metis append.assoc append_take_drop_id)
    also have "\<dots> = utf8_valid (drop ?w xs @ ys)"
      using w(2) by (rule utf8_char_append)
    also have "\<dots> = utf8_valid ys"
      using "1.IH" Cons w by blast
    finally show ?thesis .
  qed
qed

text \<open>\<open>str::is_char_boundary\<close>.\<close>

definition is_char_boundary :: "nat \<Rightarrow> str \<Rightarrow> bool" where
  "is_char_boundary n s \<longleftrightarrow>
     n = 0 \<or> n = length s \<or> (n < length s \<and> \<not> is_cont (s ! n))"

lemma utf8_valid_ConsE:
  assumes "utf8_valid (a # r)"
  obtains cs rest where "a # r = cs @ rest" "utf8_char cs" "utf8_valid rest" "0 < length cs"
proof -
  from assms have "utf8_char (take (utf8_char_width a) (a # r))"
    and "utf8_valid (drop (utf8_char_width a) (a # r))" and "0 < utf8_char_width a"
    by (simp_all add: utf8_valid_Cons)
  then show ?thesis
    using that [of "take (utf8_char_width a) (a # r)" "drop (utf8_char_width a) (a # r)"]
    by (simp add: utf8_char_simps)
qed

lemma proper_prefix_of_char:
  assumes "utf8_char cs" and "0 < n" and "n < length cs"
  shows "\<not> utf8_valid (take n cs)" and "is_cont (cs ! n)"
proof -
  obtain a r where cs: "cs = a # r" using assms(1) by (cases cs) (auto simp: utf8_char_simps)
  have w: "utf8_char_width a = length cs"
    using assms(1) cs by (simp add: utf8_char_simps)
  obtain m where n: "n = Suc m" using assms(2) by (cases n) auto
  show "\<not> utf8_valid (take n cs)"
    using w assms(3) by (auto simp: cs n utf8_valid_Cons utf8_char_simps)
  show "is_cont (cs ! n)"
    using utf8_char_tl_cont [of a r] assms cs n by (auto simp: list_all_length)
qed

lemma utf8_valid_take_iff:
  "utf8_valid s \<Longrightarrow> n \<le> length s \<Longrightarrow> utf8_valid (take n s) \<longleftrightarrow> is_char_boundary n s"
proof (induction s arbitrary: n rule: length_induct)
  case (1 s)
  show ?case
  proof (cases "n = 0 \<or> n = length s")
    case True
    then show ?thesis using 1(2) by (auto simp: is_char_boundary_def)
  next
    case False
    then obtain a r where s: "s = a # r" using 1(3) by (cases s) auto
    with 1(2) obtain cs rest where
      cs: "s = cs @ rest" "utf8_char cs" "utf8_valid rest" "0 < length cs"
      by (auto elim: utf8_valid_ConsE)
    show ?thesis
    proof (cases "n < length cs")
      case True
      then show ?thesis
        using proper_prefix_of_char [OF cs(2) _ True] False cs(1) 1(3)
        by (auto simp: is_char_boundary_def nth_append)
    next
      case nless: False
      have "utf8_valid (take n s) = utf8_valid (cs @ take (n - length cs) rest)"
        using nless cs(1) by simp
      also have "\<dots> = utf8_valid (take (n - length cs) rest)"
        using cs(2) by (rule utf8_char_append)
      also have "\<dots> = is_char_boundary (n - length cs) rest"
        using 1 cs nless by auto
      also have "\<dots> = is_char_boundary n s"
      proof (cases "n = length cs")
        case True
        then obtain b rs where "rest = b # rs" using False cs(1) by (cases rest) auto
        moreover have "\<not> is_cont b"
        proof -
          have "0 < utf8_char_width b"
            using cs(3) \<open>rest = b # rs\<close> by (simp add: utf8_valid_Cons)
          then show ?thesis by (rule lead_not_cont)
        qed
        ultimately show ?thesis
          using True cs(1) by (simp add: is_char_boundary_def nth_append)
      next
        case neq: False
        then show ?thesis
          using nless cs(1) False by (auto simp: is_char_boundary_def nth_append)
      qed
      finally show ?thesis .
    qed
  qed
qed

end
