(* ===== verification/Message.thy ===== *)
theory Message
  imports Utf8
begin

text \<open>
  \<open>crates/message-core/src/lib.rs\<close>: the 64-byte message, its construction from a topic and a
  payload, its accessors and its byte encoding.  A Rust array \<open>[u8; n]\<close> is a byte list of
  length \<open>n\<close>; \<open>wf_message\<close> states these lengths, which the type system of the source
  guarantees of every \<open>Message\<close>.  Range and length checks of slices are kept as panics, and
  the lemmas show that none is reached.
\<close>

section \<open>The data type and its operations\<close>

record message =
  timestamp_ns :: u64
  topic :: "u8 list"
  payload :: "u8 list"

definition wf_message :: "message \<Rightarrow> bool" where
  "wf_message m \<longleftrightarrow> length (topic m) = 32 \<and> length (payload m) = 24"

definition message_new :: "str \<Rightarrow> u8 list \<Rightarrow> panic + message" where
  "message_new tp pl =
     (let tlen = min (length tp) 32 in
      and_then (slice_range 0 tlen tp) (\<lambda>tsrc.
      and_then (copy_from_slice (replicate 32 0) 0 tlen tsrc) (\<lambda>t.
      let plen = min (length pl) 24 in
      and_then (slice_range 0 plen pl) (\<lambda>psrc.
      and_then (copy_from_slice (replicate 24 0) 0 plen psrc) (\<lambda>p.
      Inr \<lparr>timestamp_ns = 0, topic = t, payload = p\<rparr>)))))"

definition topic_str :: "message \<Rightarrow> panic + str" where
  "topic_str m =
     (let stop = (case position (\<lambda>b. b = 0) (topic m) of Some i \<Rightarrow> i | None \<Rightarrow> 32) in
      and_then (slice_range 0 stop (topic m)) (\<lambda>bs.
      Inr (if utf8_valid bs then bs else [])))"

definition payload_bytes :: "message \<Rightarrow> panic + u8 list" where
  "payload_bytes m =
     (let stop = (case rposition (\<lambda>b. b \<noteq> 0) (payload m) of Some i \<Rightarrow> i + 1 | None \<Rightarrow> 0) in
      slice_range 0 stop (payload m))"

definition to_bytes :: "message \<Rightarrow> panic + u8 list" where
  "to_bytes m =
     and_then (copy_from_slice (replicate 64 0) 0 8 (to_le_bytes (timestamp_ns m))) (\<lambda>out.
     and_then (copy_from_slice out 8 40 (topic m)) (\<lambda>out.
     copy_from_slice out 40 64 (payload m)))"

definition from_bytes :: "u8 list \<Rightarrow> panic + message" where
  "from_bytes bytes =
     and_then (slice_range 0 8 bytes) (\<lambda>ts.
     and_then (slice_range 8 40 bytes) (\<lambda>tsrc.
     and_then (copy_from_slice (replicate 32 0) 0 32 tsrc) (\<lambda>t.
     and_then (slice_range 40 64 bytes) (\<lambda>psrc.
     and_then (copy_from_slice (replicate 24 0) 0 24 psrc) (\<lambda>p.
     Inr \<lparr>timestamp_ns = from_le_bytes ts, topic = t, payload = p\<rparr>)))))"

section \<open>The 64-byte record\<close>

text \<open>The layout the encoding promises: timestamp, topic and payload one after the other.\<close>

definition encode :: "message \<Rightarrow> u8 list" where
  "encode m = to_le_bytes (timestamp_ns m) @ topic m @ payload m"

definition decode :: "u8 list \<Rightarrow> message" where
  "decode bs =
     \<lparr>timestamp_ns = from_le_bytes (take 8 bs), topic = take 32 (drop 8 bs),
      payload = take 24 (drop 40 bs)\<rparr>"

lemma length_encode [simp]: "wf_message m \<Longrightarrow> length (encode m) = 64"
  by (simp add: encode_def wf_message_def)

lemma wf_message_new_fields [simp]:
  "wf_message \<lparr>timestamp_ns = ts, topic = pad_to 32 tp, payload = pad_to 24 pl\<rparr>"
  by (simp add: wf_message_def)

lemma message_new_eq:
  "message_new tp pl = Inr \<lparr>timestamp_ns = 0, topic = pad_to 32 tp, payload = pad_to 24 pl\<rparr>"
  by (simp add: message_new_def Let_def slice_simps copy_from_slice_def pad_to_def min_def)

lemma to_bytes_eq: "wf_message m \<Longrightarrow> to_bytes m = Inr (encode m)"
  by (simp add: to_bytes_def copy_from_slice_def encode_def wf_message_def)

lemma from_bytes_eq: "length bs = 64 \<Longrightarrow> from_bytes bs = Inr (decode bs)"
  by (simp add: from_bytes_def slice_range_def copy_from_slice_def decode_def drop_take)

lemma wf_decode [simp]: "length bs = 64 \<Longrightarrow> wf_message (decode bs)"
  by (simp add: decode_def wf_message_def)

lemma decode_encode: "wf_message m \<Longrightarrow> decode (encode m) = m"
  by (simp add: decode_def encode_def wf_message_def)

lemma encode_decode:
  assumes "length bs = 64"
  shows "encode (decode bs) = bs"
proof -
  have "encode (decode bs) = take 8 bs @ take 32 (drop 8 bs) @ take 24 (drop 40 bs)"
    using assms by (simp add: encode_def decode_def to_from_le_bytes)
  also have "take 24 (drop 40 bs) = drop 32 (drop 8 bs)"
    using assms by simp
  finally show ?thesis
    by (simp only: append_take_drop_id)
qed

section \<open>Topic and payload accessors\<close>

definition topic_prefix :: "message \<Rightarrow> u8 list" where
  "topic_prefix m = takeWhile (\<lambda>b. b \<noteq> 0) (topic m)"

lemma take_position:
  "take (case position p xs of Some i \<Rightarrow> i | None \<Rightarrow> length xs) xs = takeWhile (\<lambda>x. \<not> p x) xs"
  by (induction xs) (auto split: option.splits)

lemma position_le: "(case position p xs of Some i \<Rightarrow> i | None \<Rightarrow> length xs) \<le> length xs"
  by (auto split: option.splits dest: position_Some_less)

definition topic_of :: "message \<Rightarrow> str" where
  "topic_of m = (if utf8_valid (topic_prefix m) then topic_prefix m else [])"

lemma topic_str_eq:
  assumes "wf_message m"
  shows "topic_str m = Inr (topic_of m)"
proof -
  have len: "(32 :: nat) = length (topic m)"
    using assms by (simp add: wf_message_def)
  show ?thesis
    unfolding topic_str_def Let_def len
    using position_le [where p = "\<lambda>b. b = 0" and xs = "topic m"] take_position [where p = "\<lambda>b. b = 0" and xs = "topic m"]
    by (simp add: slice_range_ok topic_of_def topic_prefix_def)
qed

lemma takeWhile_pad:
  "0 \<notin> set xs \<Longrightarrow> takeWhile (\<lambda>b. b \<noteq> 0) (pad_to n xs) = take n xs"
  by (cases "n - length xs") (auto simp: pad_to_def takeWhile_append dest: in_set_takeD)

text \<open>Payload: the bytes up to the last nonzero one.\<close>

definition strip_zeros :: "u8 list \<Rightarrow> u8 list" where
  "strip_zeros xs = rev (dropWhile (\<lambda>b. b = 0) (rev xs))"

lemma strip_zeros_snoc:
  "strip_zeros (xs @ [x]) = (if x = 0 then strip_zeros xs else xs @ [x])"
  by (simp add: strip_zeros_def)

lemma take_rposition:
  "take (case rposition (\<lambda>b. b \<noteq> 0) xs of Some i \<Rightarrow> i + 1 | None \<Rightarrow> 0) xs = strip_zeros xs"
proof (induction xs rule: rev_induct)
  case Nil
  then show ?case by (simp add: strip_zeros_def)
next
  case (snoc x xs)
  show ?case
  proof (cases "x = 0")
    case True
    have "(case rposition (\<lambda>b. b \<noteq> 0) xs of Some i \<Rightarrow> i + 1 | None \<Rightarrow> 0) \<le> length xs"
      by (auto split: option.splits dest: rposition_Some_less)
    with True snoc show ?thesis
      by (simp add: rposition_append_none strip_zeros_snoc)
  next
    case False
    then show ?thesis by (simp add: rposition_snoc strip_zeros_snoc)
  qed
qed

lemma payload_bytes_eq: "payload_bytes m = Inr (strip_zeros (payload m))"
proof -
  have "(case rposition (\<lambda>b. b \<noteq> 0) (payload m) of Some i \<Rightarrow> i + 1 | None \<Rightarrow> 0)
        \<le> length (payload m)"
    by (auto split: option.splits dest: rposition_Some_less)
  then show ?thesis
    by (simp add: payload_bytes_def Let_def slice_range_ok take_rposition)
qed

lemma strip_zeros_append_zeros: "strip_zeros (xs @ replicate n 0) = strip_zeros xs"
  by (induction n) (simp_all add: replicate_append_same [symmetric] strip_zeros_snoc
      append_assoc [symmetric] del: append_assoc)

lemma strip_zeros_last: "strip_zeros xs = [] \<or> last (strip_zeros xs) \<noteq> 0"
  by (induction xs rule: rev_induct) (auto simp: strip_zeros_snoc, simp add: strip_zeros_def)

lemma strip_zeros_id: "xs = [] \<or> last xs \<noteq> 0 \<Longrightarrow> strip_zeros xs = xs"
  by (cases xs rule: rev_cases) (auto simp: strip_zeros_snoc strip_zeros_def)

section \<open>Properties\<close>

lemma message_new_topic_prefix:
  assumes "0 \<notin> set tp"
  shows "topic_prefix \<lparr>timestamp_ns = ts, topic = pad_to 32 tp, payload = pl\<rparr> = take 32 tp"
  using takeWhile_pad [OF assms] by (simp add: topic_prefix_def)

text \<open>
  C9: Every message serialises to exactly 64 bytes without a panic, and reading these bytes
  back gives the same message: timestamp, topic field and payload field.  Conversely every
  64-byte record decodes without a panic to a well-formed message that serialises to the same
  64 bytes, so the record format has no second encoding of a message.
\<close>

theorem message_roundtrip:
  assumes "wf_message m" and "length rec = 64"
  shows "(\<exists>bs. to_bytes m = Inr bs \<and> length bs = 64 \<and> from_bytes bs = Inr m) \<and>
    (\<exists>m'. from_bytes rec = Inr m' \<and> wf_message m' \<and> to_bytes m' = Inr rec)"
  using assms by (simp add: to_bytes_eq from_bytes_eq decode_encode encode_decode)

theorem message_roundtrip_witness:
  "(\<exists>bs. to_bytes \<lparr>timestamp_ns = 258, topic = pad_to 32 [111, 107], payload = pad_to 24 [1, 2, 3]\<rparr> = Inr bs \<and>
     length bs = 64 \<and> take 10 bs = [2, 1, 0, 0, 0, 0, 0, 0, 111, 107]) \<and>
   (\<exists>m. from_bytes (replicate 64 7) = Inr m \<and> wf_message m \<and> to_bytes m = Inr (replicate 64 7))"
proof -
  let ?m = "\<lparr>timestamp_ns = 258, topic = pad_to 32 [111, 107], payload = pad_to 24 [1, 2, 3]\<rparr>"
  obtain bs where bs: "to_bytes ?m = Inr bs" "length bs = 64"
    and rec: "\<exists>m. from_bytes (replicate 64 7) = Inr m \<and> wf_message m \<and> to_bytes m = Inr (replicate 64 7)"
    using message_roundtrip [of ?m "replicate 64 7"] by auto
  moreover have "take 10 (encode ?m) = [2, 1, 0, 0, 0, 0, 0, 0, 111, 107]"
    by (code_simp)
  ultimately show ?thesis by (simp add: to_bytes_eq)
qed

text \<open>
  C37: A message built from a topic string without NUL characters reports that topic when it is
  at most 32 bytes long.  A longer topic is cut at 32 bytes: the message reports the first 32
  bytes when the cut falls between two characters, and the empty topic when it splits one.
\<close>

theorem message_new_topic:
  assumes "utf8_valid tp" and "0 \<notin> set tp"
  shows "\<exists>m. message_new tp pl = Inr m \<and> wf_message m \<and>
    topic_str m = Inr (if length tp \<le> 32 then tp
                       else if is_char_boundary 32 tp then take 32 tp else [])"
  using assms utf8_valid_take_iff [OF assms(1), of 32]
  by (auto simp: message_new_eq topic_str_eq topic_of_def message_new_topic_prefix)

theorem message_new_topic_witness:
  "\<exists>m. message_new (replicate 31 97 @ [0xC3, 0xA9]) [] = Inr m \<and> topic_str m = Inr []"
proof -
  let ?t = "replicate 31 97 @ [0xC3, 0xA9]"
  have "utf8_valid ?t"
  proof (subst utf8_valid_append)
    show "utf8_valid (replicate 31 (97 :: u8))"
      by (rule utf8_valid_ascii) (simp add: list_all_iff)
    show "utf8_valid ([0xC3, 0xA9] :: u8 list)"
      by (simp add: utf8_valid_Cons utf8_char_simps utf8_char_width_def second_ok_def is_cont_def)
  qed
  moreover have "\<not> is_char_boundary 32 ?t"
    by (simp add: is_char_boundary_def is_cont_def nth_append)
  ultimately show ?thesis
    using message_new_topic [of ?t "[]"] by auto
qed

text \<open>
  The payload of a message built by \<open>Message::new\<close> reads back as the first 24 bytes given,
  less trailing zero bytes; it is the payload given exactly when that fits and does not end
  in a zero byte.
\<close>

lemma message_new_payload:
  "\<exists>m. message_new tp pl = Inr m \<and> payload_bytes m = Inr (strip_zeros (take 24 pl)) \<and>
     (payload_bytes m = Inr pl \<longleftrightarrow> length pl \<le> 24 \<and> \<not> (pl \<noteq> [] \<and> last pl = 0))"
proof -
  have "payload_bytes \<lparr>timestamp_ns = 0, topic = pad_to 32 tp, payload = pad_to 24 pl\<rparr> =
      Inr (strip_zeros (take 24 pl))"
    by (simp add: payload_bytes_eq pad_to_def strip_zeros_append_zeros)
  moreover have "strip_zeros (take 24 pl) = pl \<longleftrightarrow> length pl \<le> 24 \<and> (pl = [] \<or> last pl \<noteq> 0)"
  proof
    assume eq: "strip_zeros (take 24 pl) = pl"
    have "length (strip_zeros (take 24 pl)) \<le> length (take 24 pl)"
      unfolding strip_zeros_def by (metis length_dropWhile_le length_rev)
    with eq have "length pl \<le> 24" by simp
    moreover have "pl = [] \<or> last pl \<noteq> 0"
      using strip_zeros_last [of "take 24 pl"] eq by simp
    ultimately show "length pl \<le> 24 \<and> (pl = [] \<or> last pl \<noteq> 0)" by simp
  qed (auto simp: strip_zeros_id)
  ultimately show ?thesis by (auto simp: message_new_eq)
qed

end
