(* ===== verification/Fifo.thy ===== *)
theory Fifo
  imports Prelude
begin

text \<open>
  The contract that the ring buffer of \<open>crates/bus/src/spsc.rs\<close> and a connected crossbeam
  channel share: a first-in first-out queue of bounded capacity with a non-blocking send that
  hands the value back when the queue is full and a non-blocking receive.  The blocking and
  the draining loops of the source are written against these two operations, and the lemmas
  about them are proved once, inside the locale.
\<close>

section \<open>Loops over a queue\<close>

text \<open>
  The loop of a blocking send.  A full queue hands the value back; the caller then waits, and
  \<open>env i\<close> is what the other side does to the shared queue during the \<open>i\<close>-th wait.
  \<open>None\<close> stands for a call that never returns.
\<close>

partial_function (option) send_loop ::
    "('a \<Rightarrow> 'q \<Rightarrow> 'f + (('a + unit) \<times> 'q)) \<Rightarrow> (nat \<Rightarrow> 'q \<Rightarrow> 'q) \<Rightarrow> nat \<Rightarrow> 'a \<Rightarrow> 'q
      \<Rightarrow> ('f + 'q) option" where
  "send_loop snd_op env i v q =
     (case snd_op v q of
        Inl f \<Rightarrow> Some (Inl f)
      | Inr r \<Rightarrow> (case fst r of
            Inr _ \<Rightarrow> Some (Inr (snd r))
          | Inl v' \<Rightarrow> send_loop snd_op env (Suc i) v' (env i (snd r))))"

partial_function (option) recv_loop ::
    "('q \<Rightarrow> 'f + ('a option \<times> 'q)) \<Rightarrow> (nat \<Rightarrow> 'q \<Rightarrow> 'q) \<Rightarrow> nat \<Rightarrow> 'q
      \<Rightarrow> ('f + ('a \<times> 'q)) option" where
  "recv_loop recv env i q =
     (case recv q of
        Inl f \<Rightarrow> Some (Inl f)
      | Inr r \<Rightarrow> (case fst r of
            Some v \<Rightarrow> Some (Inr (v, snd r))
          | None \<Rightarrow> recv_loop recv env (Suc i) (env i (snd r))))"

text \<open>The queue at the start of the \<open>n\<close>-th attempt, when every attempt before it failed.\<close>

fun after_waits :: "(nat \<Rightarrow> 'q \<Rightarrow> 'q) \<Rightarrow> nat \<Rightarrow> nat \<Rightarrow> 'q \<Rightarrow> 'q" where
  "after_waits env i 0 q = q"
| "after_waits env i (Suc n) q = after_waits env (Suc i) n (env i q)"

text \<open>
  A sequence of calls and what each returns, on an implementation and on the abstract queue:
  a list of at most \<open>n\<close> values.
\<close>

datatype 'a queue_call = CallSend 'a | CallRecv

datatype 'a reply = Accepted | HandedBack 'a | Got 'a | Nothing

definition send_reply :: "('a + unit) \<Rightarrow> 'a reply" where
  "send_reply res = (case res of Inl v \<Rightarrow> HandedBack v | Inr _ \<Rightarrow> Accepted)"

definition recv_reply :: "'a option \<Rightarrow> 'a reply" where
  "recv_reply res = (case res of None \<Rightarrow> Nothing | Some v \<Rightarrow> Got v)"

fun run_calls ::
    "('a \<Rightarrow> 'q \<Rightarrow> 'f + (('a + unit) \<times> 'q)) \<Rightarrow> ('q \<Rightarrow> 'f + ('a option \<times> 'q))
      \<Rightarrow> 'a queue_call list \<Rightarrow> 'q \<Rightarrow> 'f + ('a reply list \<times> 'q)" where
  "run_calls snd_op rcv_op [] q = Inr ([], q)"
| "run_calls snd_op rcv_op (CallSend v # cs) q =
     and_then (snd_op v q) (\<lambda>(res, q1).
       and_then (run_calls snd_op rcv_op cs q1) (\<lambda>(rs, q2). Inr (send_reply res # rs, q2)))"
| "run_calls snd_op rcv_op (CallRecv # cs) q =
     and_then (rcv_op q) (\<lambda>(res, q1).
       and_then (run_calls snd_op rcv_op cs q1) (\<lambda>(rs, q2). Inr (recv_reply res # rs, q2)))"

fun abstract_calls :: "nat \<Rightarrow> 'a queue_call list \<Rightarrow> 'a list \<Rightarrow> 'a reply list \<times> 'a list" where
  "abstract_calls n [] xs = ([], xs)"
| "abstract_calls n (CallSend v # cs) xs =
     (if length xs < n
      then apfst (Cons Accepted) (abstract_calls n cs (xs @ [v]))
      else apfst (Cons (HandedBack v)) (abstract_calls n cs xs))"
| "abstract_calls n (CallRecv # cs) [] = apfst (Cons Nothing) (abstract_calls n cs [])"
| "abstract_calls n (CallRecv # cs) (x # xs) = apfst (Cons (Got x)) (abstract_calls n cs xs)"

text \<open>Every attempt, without end, finds the queue in a state that satisfies \<open>P\<close>.\<close>

definition at_every_attempt :: "('q \<Rightarrow> bool) \<Rightarrow> (nat \<Rightarrow> 'q \<Rightarrow> 'q) \<Rightarrow> nat \<Rightarrow> 'q \<Rightarrow> bool" where
  "at_every_attempt P env i q \<longleftrightarrow> (\<forall>m. P (after_waits env i m q))"

lemma at_every_attempt_now: "at_every_attempt P env i q \<Longrightarrow> P q"
  unfolding at_every_attempt_def by (metis after_waits.simps(1))

lemma at_every_attempt_next:
  "at_every_attempt P env i q \<Longrightarrow> at_every_attempt P env (Suc i) (env i q)"
  unfolding at_every_attempt_def by (metis after_waits.simps(2))

section \<open>The contract\<close>

locale bounded_fifo =
  fixes snd_op :: "'a \<Rightarrow> 'q \<Rightarrow> 'f + (('a + unit) \<times> 'q)"
    and rcv_op :: "'q \<Rightarrow> 'f + ('a option \<times> 'q)"
    and items :: "'q \<Rightarrow> 'a list"
    and bound :: "'q \<Rightarrow> nat"
    and ok :: "'q \<Rightarrow> bool"
  assumes items_bounded: "ok q \<Longrightarrow> length (items q) \<le> bound q"
    and send_full: "ok q \<Longrightarrow> length (items q) = bound q \<Longrightarrow> snd_op v q = Inr (Inl v, q)"
    and send_room: "ok q \<Longrightarrow> length (items q) < bound q \<Longrightarrow>
      \<exists>q'. snd_op v q = Inr (Inr (), q') \<and> ok q' \<and> items q' = items q @ [v] \<and> bound q' = bound q"
    and recv_empty: "ok q \<Longrightarrow> items q = [] \<Longrightarrow> rcv_op q = Inr (None, q)"
    and recv_some: "ok q \<Longrightarrow> items q = v # vs \<Longrightarrow>
      \<exists>q'. rcv_op q = Inr (Some v, q') \<and> ok q' \<and> items q' = vs \<and> bound q' = bound q"
begin

lemma send_total:
  assumes "ok q"
  shows "\<exists>res q'. snd_op v q = Inr (res, q') \<and> ok q' \<and> bound q' = bound q \<and>
    (case res of Inl v' \<Rightarrow> v' = v \<and> q' = q \<and> length (items q) = bound q
               | Inr _ \<Rightarrow> items q' = items q @ [v])"
proof (cases "length (items q) = bound q")
  case True
  with assms show ?thesis by (simp add: send_full)
next
  case False
  with assms items_bounded have "length (items q) < bound q" by (simp add: nat_less_le)
  with assms show ?thesis using send_room [of q v] by auto
qed

text \<open>What a call has done, read off what it returned.\<close>

lemma sent:
  assumes "ok q" and "snd_op v q = Inr (Inr u, q')"
  shows "ok q' \<and> items q' = items q @ [v] \<and> bound q' = bound q \<and> length (items q) < bound q"
proof -
  have "length (items q) < bound q"
    using assms send_full [OF assms(1), of v] items_bounded [OF assms(1)] by (auto simp: nat_less_le)
  with send_total [OF assms(1), of v] assms(2) show ?thesis by auto
qed

lemma handed_back:
  "ok q \<Longrightarrow> snd_op v q = Inr (Inl v', q') \<Longrightarrow> q' = q \<and> v' = v \<and> length (items q) = bound q"
  using send_total [of q v] by auto

lemma got:
  "ok q \<Longrightarrow> rcv_op q = Inr (Some v, q') \<Longrightarrow> ok q' \<and> items q = v # items q' \<and> bound q' = bound q"
  using recv_empty [of q] recv_some [of q] by (cases "items q") force+

lemma nothing: "ok q \<Longrightarrow> rcv_op q = Inr (None, q') \<Longrightarrow> q' = q \<and> items q = []"
  using recv_empty [of q] recv_some [of q] by (cases "items q") force+

text \<open>Every sequence of calls gives the replies of the abstract queue.\<close>

lemma run_calls_abstract:
  "ok q \<Longrightarrow> \<exists>q'. run_calls snd_op rcv_op cs q = Inr (fst (abstract_calls (bound q) cs (items q)), q') \<and>
     ok q' \<and> bound q' = bound q \<and> items q' = snd (abstract_calls (bound q) cs (items q))"
proof (induction "bound q" cs "items q" arbitrary: q rule: abstract_calls.induct)
  case 1
  then show ?case by simp
next
  case (2 v cs)
  show ?case
  proof (cases "length (items q) < bound q")
    case True
    with 2 obtain q1 where q1: "snd_op v q = Inr (Inr (), q1)" "ok q1" "items q1 = items q @ [v]"
      "bound q1 = bound q"
      using send_room by blast
    with 2(1) [OF True, of q1] True show ?thesis by (auto simp: send_reply_def)
  next
    case False
    with 2(3) items_bounded have "snd_op v q = Inr (Inl v, q)"
      by (simp add: send_full nat_less_le)
    with 2(2) [OF False refl refl 2(3)] False show ?thesis by (auto simp: send_reply_def)
  qed
next
  case (3 cs)
  then have "rcv_op q = Inr (None, q)" by (simp add: recv_empty)
  with 3(1) [OF refl 3(2) 3(3)] show ?case by (auto simp: recv_reply_def 3(2) [symmetric])
next
  case (4 cs x xs)
  then obtain q1 where q1: "rcv_op q = Inr (Some x, q1)" "ok q1" "items q1 = xs" "bound q1 = bound q"
    using recv_some [of q x xs] by auto
  with 4(1) [of q1] show ?case by (auto simp: recv_reply_def 4(2) [symmetric])
qed

lemma send_loop_returns:
  assumes "ok (after_waits env i n q)" and "length (items (after_waits env i n q)) < bound (after_waits env i n q)"
    and "\<And>m. m < n \<Longrightarrow> ok (after_waits env i m q) \<and>
          length (items (after_waits env i m q)) = bound (after_waits env i m q)"
  shows "\<exists>q'. send_loop snd_op env i v q = Some (Inr q') \<and> ok q' \<and>
          items q' = items (after_waits env i n q) @ [v] \<and> bound q' = bound (after_waits env i n q)"
  using assms
proof (induction n arbitrary: i q)
  case 0
  then obtain q' where "snd_op v q = Inr (Inr (), q')" "ok q'" "items q' = items q @ [v]"
    "bound q' = bound q"
    using send_room [of q v] by auto
  then show ?case by (subst send_loop.simps) simp
next
  case (Suc n)
  have full: "ok q" "length (items q) = bound q"
    using Suc.prems(3) [of 0] by simp_all
  have "send_loop snd_op env i v q = send_loop snd_op env (Suc i) v (env i q)"
    by (subst send_loop.simps) (simp add: send_full [OF full])
  then show ?case
    using Suc.IH [of "Suc i" "env i q"] Suc.prems(1,2) Suc.prems(3) [of "Suc _"] by simp
qed

lemma recv_loop_returns:
  assumes "ok (after_waits env i n q)" and "items (after_waits env i n q) = v # vs"
    and "\<And>m. m < n \<Longrightarrow> ok (after_waits env i m q) \<and> items (after_waits env i m q) = []"
  shows "\<exists>q'. recv_loop rcv_op env i q = Some (Inr (v, q')) \<and> ok q' \<and> items q' = vs"
  using assms
proof (induction n arbitrary: i q)
  case 0
  then obtain q' where "rcv_op q = Inr (Some v, q')" "ok q'" "items q' = vs"
    using recv_some [of q v vs] by auto
  then show ?case by (subst recv_loop.simps) simp
next
  case (Suc n)
  have empty: "ok q" "items q = []"
    using Suc.prems(3) [of 0] by simp_all
  have "recv_loop rcv_op env i q = recv_loop rcv_op env (Suc i) (env i q)"
    by (subst recv_loop.simps) (simp add: recv_empty [OF empty])
  then show ?case
    using Suc.IH [of "Suc i" "env i q"] Suc.prems(1,2) Suc.prems(3) [of "Suc _"] by simp
qed

text \<open>A send that never finds room does not return.\<close>

lemma send_loop_Some_not_full:
  assumes ret: "send_loop op env i v q = Some y"
  shows "op = snd_op \<longrightarrow> \<not> at_every_attempt (\<lambda>q. ok q \<and> length (items q) = bound q) env i q"
proof (rule send_loop.raw_induct [where P = "\<lambda>op env i v q y. op = snd_op \<longrightarrow> \<not> at_every_attempt (\<lambda>q. ok q \<and> length (items q) = bound q) env i q",
      OF _ ret])
  fix f :: "('a \<Rightarrow> 'q \<Rightarrow> 'f + (('a + unit) \<times> 'q)) \<Rightarrow> (nat \<Rightarrow> 'q \<Rightarrow> 'q) \<Rightarrow> nat \<Rightarrow> 'a \<Rightarrow> 'q \<Rightarrow> ('f + 'q) option"
    and op env i v q y
  assume IH: "\<And>op env i v q y. f op env i v q = Some y \<Longrightarrow> op = snd_op \<longrightarrow> \<not> at_every_attempt (\<lambda>q. ok q \<and> length (items q) = bound q) env i q"
    and eq: "(case op v q of
        Inl f \<Rightarrow> Some (Inl f)
      | Inr r \<Rightarrow> (case fst r of
            Inr _ \<Rightarrow> Some (Inr (snd r))
          | Inl v' \<Rightarrow> f op env (Suc i) v' (env i (snd r)))) = Some y"
  show "op = snd_op \<longrightarrow> \<not> at_every_attempt (\<lambda>q. ok q \<and> length (items q) = bound q) env i q"
  proof (intro impI notI)
    assume "op = snd_op" and full: "at_every_attempt (\<lambda>q. ok q \<and> length (items q) = bound q) env i q"
    with eq have "f snd_op env (Suc i) v (env i q) = Some y"
      by (simp add: send_full at_every_attempt_now [OF full, simplified])
    then have "\<not> at_every_attempt (\<lambda>q. ok q \<and> length (items q) = bound q) env (Suc i) (env i q)" using IH by blast
    with at_every_attempt_next [OF full] show False by blast
  qed
qed

lemma send_loop_blocks: "at_every_attempt (\<lambda>q. ok q \<and> length (items q) = bound q) env i q \<Longrightarrow> send_loop snd_op env i v q = None"
  using send_loop_Some_not_full by fastforce

text \<open>
  With an environment that keeps the contract and the capacity, a blocking send returns
  exactly when some attempt finds room; it then appends its value at the first such attempt.
\<close>

lemma after_waits_ok:
  assumes "\<And>i q. ok q \<Longrightarrow> ok (env i q) \<and> bound (env i q) = bound q" and "ok q"
  shows "ok (after_waits env i n q) \<and> bound (after_waits env i n q) = bound q"
  using assms(2) by (induction n arbitrary: i q) (use assms(1) in auto)

lemma send_loop_first_room:
  assumes env: "\<And>i q. ok q \<Longrightarrow> ok (env i q) \<and> bound (env i q) = bound q" and q: "ok q"
    and room: "length (items (after_waits env i n q)) < bound q"
  shows "\<exists>m q'. m \<le> n \<and> send_loop snd_op env i v q = Some (Inr q') \<and> ok q' \<and> bound q' = bound q \<and>
    items q' = items (after_waits env i m q) @ [v] \<and>
    (\<forall>l<m. length (items (after_waits env i l q)) = bound q)"
proof -
  let ?P = "\<lambda>m. length (items (after_waits env i m q)) < bound q"
  define m where "m = (LEAST m. ?P m)"
  have m: "?P m" "m \<le> n" using room unfolding m_def by (auto intro: LeastI Least_le)
  have ok: "ok (after_waits env i l q)" "bound (after_waits env i l q) = bound q" for l
    using after_waits_ok [OF env q] by auto
  have full: "length (items (after_waits env i l q)) = bound q" if "l < m" for l
    using not_less_Least [of l ?P] that items_bounded [OF ok(1), of l] ok(2) [of l]
    unfolding m_def by (metis nat_less_le)
  then show ?thesis
    using send_loop_returns [of env i m q v] ok m by auto
qed

lemma send_loop_returns_iff:
  assumes env: "\<And>i q. ok q \<Longrightarrow> ok (env i q) \<and> bound (env i q) = bound q" and q: "ok q"
  shows "send_loop snd_op env i v q \<noteq> None \<longleftrightarrow> (\<exists>n. length (items (after_waits env i n q)) < bound q)"
proof
  assume ret: "send_loop snd_op env i v q \<noteq> None"
  show "\<exists>n. length (items (after_waits env i n q)) < bound q"
  proof (rule ccontr)
    assume "\<not> ?thesis"
    then have "length (items (after_waits env i n q)) = bound q" for n
      using items_bounded after_waits_ok [of env q i n] env q by (metis nat_less_le)
    then have "at_every_attempt (\<lambda>q. ok q \<and> length (items q) = bound q) env i q"
      using after_waits_ok [of env q i] env q by (simp add: at_every_attempt_def)
    then show False using ret by (simp add: send_loop_blocks)
  qed
next
  assume "\<exists>n. length (items (after_waits env i n q)) < bound q"
  then show "send_loop snd_op env i v q \<noteq> None"
    using send_loop_first_room [OF env q] by fastforce
qed

end

end
