(* ===== verification/Ring.thy ===== *)
theory Ring
  imports Fifo
begin

text \<open>
  \<open>crates/bus/src/spsc.rs\<close>: the single-producer single-consumer ring buffer, run by one
  thread at a time.  A slot of type \<open>UnsafeCell<MaybeUninit<T>>\<close> is \<open>None\<close> while it holds
  no initialised value and \<open>Some v\<close> after a write; reading it out moves the value and leaves
  it uninitialised, so a second read, a second drop or a read of a slot never written is the
  fault \<open>UninitRead\<close>.  The two-thread behaviour, with the memory orderings of the source,
  is in theory \<open>Spsc_Threads\<close>.
\<close>

section \<open>State\<close>

datatype ring_fault = SlotIndex | UninitRead | CapacityAssert

record 'a ring =
  head :: usize
  tail :: usize
  slots :: "'a option list"
  rmask :: usize

definition is_power_of_two :: "usize \<Rightarrow> bool" where
  "is_power_of_two w \<longleftrightarrow> list_ex (\<lambda>k. w = push_bit k 1) [0..<64]"

definition spsc :: "usize \<Rightarrow> ring_fault + 'a ring" where
  "spsc capacity =
     (if is_power_of_two capacity \<and> 0 < capacity
      then Inr \<lparr>head = 0, tail = 0, slots = replicate (unat capacity) None, rmask = capacity - 1\<rparr>
      else Inl CapacityAssert)"

section \<open>Operations\<close>

definition slot_write :: "nat \<Rightarrow> 'a \<Rightarrow> 'a ring \<Rightarrow> ring_fault + 'a ring" where
  "slot_write i v r =
     (if i < length (slots r) then Inr (r\<lparr>slots := (slots r)[i := Some v]\<rparr>) else Inl SlotIndex)"

definition slot_take :: "nat \<Rightarrow> 'a ring \<Rightarrow> ring_fault + ('a \<times> 'a ring)" where
  "slot_take i r =
     (if i < length (slots r)
      then (case slots r ! i of
              None \<Rightarrow> Inl UninitRead
            | Some v \<Rightarrow> Inr (v, r\<lparr>slots := (slots r)[i := None]\<rparr>))
      else Inl SlotIndex)"

text \<open>\<open>Producer::try_send\<close>: \<open>Err(value)\<close> is \<open>Inl value\<close>, \<open>Ok(())\<close> is \<open>Inr ()\<close>.\<close>

definition try_send :: "'a \<Rightarrow> 'a ring \<Rightarrow> ring_fault + (('a + unit) \<times> 'a ring)" where
  "try_send v r =
     (let h = head r; t = tail r in
      if h - t > rmask r then Inr (Inl v, r)
      else and_then (slot_write (unat (h AND rmask r)) v r) (\<lambda>r'.
           Inr (Inr (), r'\<lparr>head := h + 1\<rparr>)))"

text \<open>\<open>Consumer::try_recv\<close>.\<close>

definition try_recv :: "'a ring \<Rightarrow> ring_fault + ('a option \<times> 'a ring)" where
  "try_recv r =
     (let t = tail r; h = head r in
      if t = h then Inr (None, r)
      else and_then (slot_take (unat (t AND rmask r)) r) (\<lambda>(v, r').
           Inr (Some v, r'\<lparr>tail := t + 1\<rparr>)))"

definition producer_capacity :: "'a ring \<Rightarrow> usize" where
  "producer_capacity r = rmask r + 1"

definition consumer_capacity :: "'a ring \<Rightarrow> usize" where
  "consumer_capacity r = rmask r + 1"

text \<open>\<open>Inner::drop\<close>: every unread slot from \<open>tail\<close> up to \<open>head\<close> is dropped in place.  The
  result lists the dropped values in the order of the loop.\<close>

function drop_loop :: "usize \<Rightarrow> usize \<Rightarrow> 'a ring \<Rightarrow> ring_fault + ('a list \<times> 'a ring)" where
  "drop_loop h t r =
     (if t = h then Inr ([], r)
      else (case slot_take (unat (t AND rmask r)) r of
              Inl f \<Rightarrow> Inl f
            | Inr (v, r') \<Rightarrow>
                (case drop_loop h (t + 1) r' of
                   Inl f \<Rightarrow> Inl f
                 | Inr (vs, r'') \<Rightarrow> Inr (v # vs, r''))))"
  by pat_completeness auto
termination
proof (relation "measure (\<lambda>(h, t, r). unat (h - t))", goal_cases)
  case 1
  then show ?case by simp
next
  case (2 h t r)
  then have "h - t \<noteq> 0" by simp
  then have "unat (h - t - 1) < unat (h - t)"
    by (simp add: unat_minus_one unat_gt_0)
  then show ?case by (simp add: algebra_simps)
qed

declare drop_loop.simps [simp del]

definition ring_drop :: "'a ring \<Rightarrow> ring_fault + ('a list \<times> 'a ring)" where
  "ring_drop r = drop_loop (head r) (tail r) r"

section \<open>The queue a ring stands for\<close>

definition ring_len :: "'a ring \<Rightarrow> nat" where
  "ring_len r = unat (head r - tail r)"

definition ring_cap :: "'a ring \<Rightarrow> nat" where
  "ring_cap r = length (slots r)"

text \<open>The slot of the \<open>i\<close>-th unread element, counted from the tail.\<close>

definition slot_index :: "'a ring \<Rightarrow> nat \<Rightarrow> nat" where
  "slot_index r i = unat ((tail r + of_nat i) AND rmask r)"

definition contents :: "'a ring \<Rightarrow> 'a list" where
  "contents r = map (\<lambda>i. the (slots r ! slot_index r i)) [0..<ring_len r]"

definition wf_ring :: "'a ring \<Rightarrow> bool" where
  "wf_ring r \<longleftrightarrow>
     list_ex (\<lambda>k. rmask r = 2 ^ k - 1 \<and> length (slots r) = 2 ^ k) [0..<64] \<and>
     ring_len r \<le> ring_cap r \<and>
     list_all (\<lambda>i. slots r ! slot_index r i \<noteq> None) [0..<ring_len r] \<and>
     list_all (\<lambda>i. slots r ! slot_index r i = None) [ring_len r..<ring_cap r]"

lemma length_contents [simp]: "length (contents r) = ring_len r"
  by (simp add: contents_def)

lemma is_power_of_two_iff: "is_power_of_two w \<longleftrightarrow> (\<exists>k<64. w = 2 ^ k)"
  by (auto simp: is_power_of_two_def list_ex_iff Bex_def)

lemma wf_ring_iff:
  "wf_ring r \<longleftrightarrow>
     (\<exists>k<64. rmask r = 2 ^ k - 1 \<and> ring_cap r = 2 ^ k) \<and> ring_len r \<le> ring_cap r \<and>
     (\<forall>i<ring_cap r. slots r ! slot_index r i \<noteq> None \<longleftrightarrow> i < ring_len r)"
proof -
  have "list_all (\<lambda>i. slots r ! slot_index r i \<noteq> None) [0..<ring_len r] \<and>
        list_all (\<lambda>i. slots r ! slot_index r i = None) [ring_len r..<ring_cap r] \<longleftrightarrow>
        (\<forall>i<ring_cap r. slots r ! slot_index r i \<noteq> None \<longleftrightarrow> i < ring_len r)"
    if "ring_len r \<le> ring_cap r"
    using that unfolding list_all_iff set_upt
    by (metis atLeastLessThan_iff less_le_trans linorder_not_less zero_le)
  then show ?thesis
    unfolding wf_ring_def list_ex_iff by (auto simp: ring_cap_def)
qed

lemma exp_less_64: "k < 64 \<Longrightarrow> (2 :: nat) ^ k < 2 ^ 64"
  by (rule power_strict_increasing) simp_all

lemma unat_exp: "k < 64 \<Longrightarrow> unat (2 ^ k :: usize) = 2 ^ k"
  using unat_of_nat [of "2 ^ k", where 'a = 64] exp_less_64 [of k] by simp

lemma unat_exp_minus_1: "k < 64 \<Longrightarrow> unat (2 ^ k - 1 :: usize) = 2 ^ k - 1"
  by (simp add: unat_minus_one unat_exp)

lemma wf_ring_capE:
  assumes "wf_ring r"
  obtains k where "k < 64" "rmask r = 2 ^ k - 1" "ring_cap r = 2 ^ k"
  using assms by (auto simp: wf_ring_iff)

lemma wf_ring_cap:
  assumes "wf_ring r"
  shows "0 < ring_cap r" "ring_cap r < 2 ^ 64" "unat (rmask r) = ring_cap r - 1"
  using assms by (auto elim!: wf_ring_capE simp: unat_exp_minus_1 exp_less_64 [simplified])

lemma unat_and_rmask:
  assumes "wf_ring r"
  shows "unat (of_nat n AND rmask r) = n mod ring_cap r"
  using assms
proof (rule wf_ring_capE)
  fix k
  assume k: "k < 64" "rmask r = 2 ^ k - 1" "ring_cap r = 2 ^ k"
  then have "unat ((of_nat n :: usize) AND rmask r) = unat (of_nat n :: usize) mod 2 ^ k"
    using unat_and_mask [of k "of_nat n :: usize"] by simp
  then show ?thesis
    using k unat_of_nat_mod [where 'a = 64 and k = k and n = n] by simp
qed

lemma slot_index_mod:
  assumes "wf_ring r"
  shows "slot_index r i = (unat (tail r) + i) mod ring_cap r"
  using unat_and_rmask [OF assms, of "unat (tail r) + i"] by (simp add: slot_index_def)

lemma slot_index_less: "wf_ring r \<Longrightarrow> slot_index r i < length (slots r)"
  using wf_ring_cap(1) [of r] by (simp add: slot_index_mod ring_cap_def)

lemma slot_index_inj:
  "wf_ring r \<Longrightarrow> i < ring_cap r \<Longrightarrow> j < ring_cap r \<Longrightarrow>
   slot_index r i = slot_index r j \<longleftrightarrow> i = j"
  by (auto simp: slot_index_mod dest: mod_window_inj)

lemma slot_index_surj:
  assumes "wf_ring r" and "j < ring_cap r"
  obtains i where "i < ring_cap r" "slot_index r i = j"
proof -
  have "inj_on (slot_index r) {..<ring_cap r}"
    using slot_index_inj [OF assms(1)] by (auto intro!: inj_onI)
  moreover have "slot_index r ` {..<ring_cap r} \<subseteq> {..<ring_cap r}"
    using slot_index_less [OF assms(1)] by (auto simp: ring_cap_def)
  ultimately have "slot_index r ` {..<ring_cap r} = {..<ring_cap r}"
    by (simp add: endo_inj_surj)
  moreover have "j \<in> {..<ring_cap r}" using assms(2) by simp
  ultimately have "j \<in> slot_index r ` {..<ring_cap r}" by (simp only:)
  then show ?thesis using that by auto
qed

lemma slot_index_cap: "wf_ring r \<Longrightarrow> slot_index r (ring_cap r) = slot_index r 0"
  by (simp add: slot_index_mod)

lemma slot_some_iff:
  "wf_ring r \<Longrightarrow> i < ring_cap r \<Longrightarrow> slots r ! slot_index r i \<noteq> None \<longleftrightarrow> i < ring_len r"
  by (simp add: wf_ring_iff)

lemma head_slot: "unat (head r AND rmask r) = slot_index r (ring_len r)"
  by (simp add: slot_index_def ring_len_def)

lemma tail_slot: "unat (tail r AND rmask r) = slot_index r 0"
  by (simp add: slot_index_def)

lemma full_iff: "wf_ring r \<Longrightarrow> head r - tail r > rmask r \<longleftrightarrow> ring_len r = ring_cap r"
  using wf_ring_cap [of r]
  by (auto simp: word_less_nat_alt ring_len_def [symmetric] wf_ring_iff)

lemma empty_iff: "tail r = head r \<longleftrightarrow> ring_len r = 0"
  by (auto simp: ring_len_def unat_eq_zero)

lemma contents_nth: "i < ring_len r \<Longrightarrow> contents r ! i = the (slots r ! slot_index r i)"
  by (simp add: contents_def)

text \<open>A well-formed ring is determined by its cursors, its capacity and its contents.\<close>

lemma ring_eqI:
  assumes wf: "wf_ring r" "wf_ring r'" and cur: "head r = head r'" "tail r = tail r'"
    and cap: "ring_cap r = ring_cap r'" and cont: "contents r = contents r'"
  shows "r = (r' :: 'a ring)"
proof -
  have m: "rmask r = rmask r'"
    using wf_ring_cap(3) [OF wf(1)] wf_ring_cap(3) [OF wf(2)] cap by (simp add: word_unat_eq_iff)
  then have idx: "slot_index r i = slot_index r' i" and len: "ring_len r = ring_len r'" for i
    using cur by (simp_all add: slot_index_def ring_len_def)
  have "slots r = slots r'"
  proof (rule nth_equalityI)
    show "length (slots r) = length (slots r')" using cap by (simp add: ring_cap_def)
  next
    fix j assume "j < length (slots r)"
    then have "j < ring_cap r" by (simp add: ring_cap_def)
    then obtain i where i: "i < ring_cap r" "slot_index r i = j"
      using slot_index_surj [OF wf(1)] by blast
    have "contents r ! i = contents r' ! i" by (simp add: cont)
    then show "slots r ! j = slots r' ! j"
      using i slot_some_iff [OF wf(1), of i] slot_some_iff [OF wf(2), of i] cap idx len
        contents_nth [of i r] contents_nth [of i r']
      by (cases "i < ring_len r") auto
  qed
  then show ?thesis using cur m by simp
qed

section \<open>Construction\<close>

lemma spsc_wf:
  assumes "spsc c = Inr r"
  shows "wf_ring r" "contents r = []" "ring_cap r = unat c"
proof -
  obtain k where k: "k < 64" "c = 2 ^ k"
    and r: "r = \<lparr>head = 0, tail = 0, slots = replicate (unat c) None, rmask = c - 1\<rparr>"
    using assms by (auto simp: spsc_def is_power_of_two_iff split: if_splits)
  show "ring_cap r = unat c" by (simp add: r ring_cap_def)
  have len: "ring_len r = 0" by (simp add: r ring_len_def)
  then show "contents r = []" by (simp add: contents_def)
  have "slot_index r i < unat c" for i
    using k by (simp add: r slot_index_def unat_and_mask unat_exp)
  then show "wf_ring r"
    unfolding wf_ring_iff using k len by (auto simp: r ring_cap_def unat_exp)
qed

lemma spsc_Inr_iff: "(\<exists>r. spsc c = Inr r) \<longleftrightarrow> is_power_of_two c"
  by (auto simp: spsc_def is_power_of_two_iff word_gt_0)

section \<open>Sending and receiving\<close>

lemma try_send_full:
  "wf_ring r \<Longrightarrow> ring_len r = ring_cap r \<Longrightarrow> try_send v r = Inr (Inl v, r)"
  by (simp add: try_send_def full_iff)

lemma try_send_room:
  assumes wf: "wf_ring r" and room: "ring_len r < ring_cap r"
  obtains r' where "try_send v r = Inr (Inr (), r')" "wf_ring r'"
    "contents r' = contents r @ [v]" "ring_cap r' = ring_cap r"
proof -
  let ?n = "ring_len r"
  let ?r' = "r\<lparr>slots := (slots r)[slot_index r ?n := Some v], head := head r + 1\<rparr>"
  have eq: "try_send v r = Inr (Inr (), ?r')"
    using room slot_index_less [OF wf]
    by (simp add: try_send_def slot_write_def full_iff [OF wf] head_slot)
  have cap: "ring_cap ?r' = ring_cap r" and idx: "slot_index ?r' i = slot_index r i" for i
    by (simp_all add: ring_cap_def slot_index_def)
  have "unat (head r - tail r + 1) = ?n + 1"
    using room wf_ring_cap(2) [OF wf] by (simp add: ring_len_def unat_word_ariths)
  then have len: "ring_len ?r' = ?n + 1"
    by (simp add: ring_len_def algebra_simps)
  have slot: "(slots r)[slot_index r ?n := Some v] ! slot_index r i =
      (if i = ?n then Some v else slots r ! slot_index r i)"
    if "i < ring_cap r" for i
    using that room slot_index_less [OF wf] slot_index_inj [OF wf, of i ?n]
    by (auto simp: nth_list_update)
  have "contents ?r' = contents r @ [v]"
    using room by (simp add: contents_def len idx slot)
  moreover have "wf_ring ?r'"
    unfolding wf_ring_iff cap idx len
    using wf room by (auto simp: slot wf_ring_iff [of r])
  ultimately show ?thesis using that [of ?r'] eq cap by simp
qed

lemma try_recv_empty: "contents r = [] \<Longrightarrow> try_recv r = Inr (None, r)"
  using length_contents [of r] by (simp add: try_recv_def empty_iff)

lemma try_recv_some:
  assumes wf: "wf_ring r" and ne: "contents r = v # vs"
  obtains r' where "try_recv r = Inr (Some v, r')" "wf_ring r'" "contents r' = vs"
    "ring_cap r' = ring_cap r"
proof -
  let ?n = "ring_len r"
  let ?r' = "r\<lparr>slots := (slots r)[slot_index r 0 := None], tail := tail r + 1\<rparr>"
  have n: "?n = Suc (length vs)" using ne length_contents [of r] by simp
  then have "slots r ! slot_index r 0 = Some v"
    using slot_some_iff [OF wf, of 0] wf_ring_cap(1) [OF wf] arg_cong [OF ne, of "\<lambda>xs. xs ! 0"]
    by (auto simp: contents_def simp del: upt_Suc)
  then have eq: "try_recv r = Inr (Some v, ?r')"
    using n slot_index_less [OF wf]
    by (simp add: try_recv_def slot_take_def empty_iff tail_slot)
  have cap: "ring_cap ?r' = ring_cap r" and idx: "slot_index ?r' i = slot_index r (Suc i)" for i
    by (simp_all add: ring_cap_def slot_index_def add.assoc)
  have "unat (head r - tail r - 1) = ?n - 1"
    using n unat_minus_one [of "head r - tail r"] by (cases "head r = tail r") (simp_all add: ring_len_def)
  then have len: "ring_len ?r' = ?n - 1"
    by (simp add: ring_len_def algebra_simps)
  have le: "?n \<le> ring_cap r" using wf by (simp add: wf_ring_iff)
  have slot: "(slots r)[slot_index r 0 := None] ! slot_index r (Suc i) =
      (if Suc i = ring_cap r then None else slots r ! slot_index r (Suc i))"
    if "i < ring_cap r" for i
    using that slot_index_less [OF wf] slot_index_inj [OF wf, of 0 "Suc i"] slot_index_cap [OF wf]
    by (cases "Suc i = ring_cap r") (auto simp: nth_list_update)
  have "contents ?r' = map (\<lambda>i. the (slots r ! slot_index r (Suc i))) [0..<?n - 1]"
    using n le by (simp add: contents_def len idx slot)
  also have "\<dots> = tl (contents r)"
    using n by (simp add: contents_def upt_conv_Cons map_Suc_upt [symmetric] del: upt_Suc)
  finally have cont: "contents ?r' = vs" using ne by simp
  have "wf_ring ?r'"
    unfolding wf_ring_iff cap idx len
    using wf le n by (auto simp: slot wf_ring_iff [of r])
  then show ?thesis using that [of ?r'] eq cont cap by simp
qed

section \<open>Dropping the queue\<close>

lemma slot_take_tail:
  assumes "wf_ring r" and "contents r = v # vs"
  obtains r' where "slot_take (unat (tail r AND rmask r)) r = Inr (v, r')"
    "try_recv r = Inr (Some v, r'\<lparr>tail := tail r + 1\<rparr>)" "head r' = head r"
proof -
  have ne: "tail r \<noteq> head r"
    using assms(2) length_contents [of r] by (auto simp: empty_iff)
  obtain r'' where "try_recv r = Inr (Some v, r'')"
    using try_recv_some [OF assms] by blast
  with ne obtain r' where "slot_take (unat (tail r AND rmask r)) r = Inr (v, r')"
    by (auto simp: try_recv_def Let_def and_then_Inr_iff)
  moreover from this have "head r' = head r"
    by (auto simp: slot_take_def split: if_splits option.splits)
  ultimately show ?thesis
    using that ne by (simp add: try_recv_def)
qed

text \<open>
  The loop keeps the tail in a local variable while the ring itself keeps its old tail, so it
  is compared with the ring whose tail is the loop variable.
\<close>

lemma drop_loop_tail_irrelevant:
  "drop_loop h t (r\<lparr>tail := t'\<rparr>) =
     (case drop_loop h t r of Inl f \<Rightarrow> Inl f | Inr (vs, r') \<Rightarrow> Inr (vs, r'\<lparr>tail := t'\<rparr>))"
proof (induction h t r rule: drop_loop.induct)
  case (1 h t r)
  show ?case
  proof (cases "t = h")
    case True
    then show ?thesis by (simp add: drop_loop.simps)
  next
    case ne: False
    show ?thesis
    proof (cases "slot_take (unat (t AND rmask r)) r")
      case (Inl f)
      then have "slot_take (unat (t AND rmask r)) (r\<lparr>tail := t'\<rparr>) = Inl f"
        by (auto simp: slot_take_def split: if_splits option.splits)
      with ne Inl show ?thesis by (simp add: drop_loop.simps [of h t])
    next
      case (Inr p)
      obtain v r1 where p: "p = (v, r1)" by (cases p)
      with Inr have "slot_take (unat (t AND rmask r)) (r\<lparr>tail := t'\<rparr>) = Inr (v, r1\<lparr>tail := t'\<rparr>)"
        by (auto simp: slot_take_def split: if_splits option.splits)
      moreover have "drop_loop h (t + 1) (r1\<lparr>tail := t'\<rparr>) =
          (case drop_loop h (t + 1) r1 of Inl f \<Rightarrow> Inl f | Inr (vs, r') \<Rightarrow> Inr (vs, r'\<lparr>tail := t'\<rparr>))"
        using 1 [OF ne] Inr p by simp
      ultimately show ?thesis
        using ne Inr p by (simp add: drop_loop.simps [of h t] split: sum.split prod.split)
    qed
  qed
qed

lemma drop_loop_contents:
  "wf_ring r \<Longrightarrow> contents r = vs \<Longrightarrow>
   \<exists>r'. drop_loop (head r) (tail r) r = Inr (vs, r') \<and> slots r' = map (\<lambda>_. None) (slots r)"
proof (induction vs arbitrary: r)
  case Nil
  then have len: "ring_len r = 0" using length_contents [of r] by simp
  have "slots r ! j = None" if "j < length (slots r)" for j
  proof -
    have "j < ring_cap r" using that by (simp add: ring_cap_def)
    then obtain i where "i < ring_cap r" "slot_index r i = j"
      using slot_index_surj [OF Nil.prems(1)] by blast
    then show ?thesis
      using slot_some_iff [OF Nil.prems(1)] len by fastforce
  qed
  then have "slots r = map (\<lambda>_. None) (slots r)"
    by (auto intro: nth_equalityI)
  with len show ?case by (simp add: drop_loop.simps empty_iff [symmetric])
next
  case (Cons v vs)
  obtain r1 where r1: "slot_take (unat (tail r AND rmask r)) r = Inr (v, r1)"
      "try_recv r = Inr (Some v, r1\<lparr>tail := tail r + 1\<rparr>)" "head r1 = head r"
    using slot_take_tail [OF Cons.prems] .
  let ?r2 = "r1\<lparr>tail := tail r + 1\<rparr>"
  have "wf_ring ?r2" "contents ?r2 = vs"
    using try_recv_some [OF Cons.prems] r1(2) by auto
  with Cons.IH obtain r' where
    r': "drop_loop (head r) (tail r + 1) ?r2 = Inr (vs, r')" "slots r' = map (\<lambda>_. None) (slots r1)"
    using r1(3) by fastforce
  then obtain r'' where
    "drop_loop (head r) (tail r + 1) r1 = Inr (vs, r'')" "slots r'' = map (\<lambda>_. None) (slots r1)"
    by (auto simp: drop_loop_tail_irrelevant split: sum.splits prod.splits)
  moreover have "tail r \<noteq> head r"
    using Cons.prems(2) length_contents [of r] by (auto simp: empty_iff)
  moreover have "map (\<lambda>_. None :: 'a option) (slots r1) = map (\<lambda>_. None) (slots r)"
    using r1(1) by (auto simp: slot_take_def map_replicate_const split: if_splits option.splits)
  ultimately show ?case
    using r1(1) by (simp add: drop_loop.simps [of "head r" "tail r" r])
qed

section \<open>The ring is a bounded queue\<close>

interpretation rq: bounded_fifo try_send try_recv contents ring_cap wf_ring
proof
  fix r :: "'a ring" and v :: 'a and vs
  assume wf: "wf_ring r"
  show "length (contents r) \<le> ring_cap r" using wf by (simp add: wf_ring_iff)
  show "length (contents r) = ring_cap r \<Longrightarrow> try_send v r = Inr (Inl v, r)"
    using wf by (simp add: try_send_full)
  show "length (contents r) < ring_cap r \<Longrightarrow> \<exists>r'. try_send v r = Inr (Inr (), r') \<and> wf_ring r' \<and>
      contents r' = contents r @ [v] \<and> ring_cap r' = ring_cap r"
    using try_send_room [OF wf] by (metis length_contents)
  show "contents r = [] \<Longrightarrow> try_recv r = Inr (None, r)" by (rule try_recv_empty)
  show "contents r = v # vs \<Longrightarrow> \<exists>r'. try_recv r = Inr (Some v, r') \<and> wf_ring r' \<and>
      contents r' = vs \<and> ring_cap r' = ring_cap r"
    using try_recv_some [OF wf] by metis
qed

section \<open>Blocking operations\<close>

datatype wait_strategy = BusySpin | Yield

text \<open>
  \<open>Producer::send\<close> and \<open>Consumer::recv\<close> retry after every failed attempt; \<open>env s i\<close> is what
  the other thread does to the ring while the caller is in its \<open>i\<close>-th \<open>spin_loop()\<close> or
  \<open>yield_now()\<close>, which have no effect on the ring themselves.
\<close>

definition send :: "(wait_strategy \<Rightarrow> nat \<Rightarrow> 'a ring \<Rightarrow> 'a ring) \<Rightarrow> 'a \<Rightarrow> wait_strategy \<Rightarrow> 'a ring
    \<Rightarrow> (ring_fault + 'a ring) option" where
  "send env v strategy r =
     send_loop try_send (case strategy of BusySpin \<Rightarrow> env BusySpin | Yield \<Rightarrow> env Yield) 0 v r"

definition recv :: "(wait_strategy \<Rightarrow> nat \<Rightarrow> 'a ring \<Rightarrow> 'a ring) \<Rightarrow> wait_strategy \<Rightarrow> 'a ring
    \<Rightarrow> (ring_fault + ('a \<times> 'a ring)) option" where
  "recv env strategy r =
     recv_loop try_recv (case strategy of BusySpin \<Rightarrow> env BusySpin | Yield \<Rightarrow> env Yield) 0 r"

lemma strategy_case: "(case s of BusySpin \<Rightarrow> env BusySpin | Yield \<Rightarrow> env Yield) = env s"
  by (cases s) simp_all

section \<open>Properties\<close>

lemma spsc_not_wf: "spsc c = Inl f \<Longrightarrow> \<not> is_power_of_two c"
  by (auto simp: spsc_def is_power_of_two_iff word_gt_0 split: if_splits)

lemma spsc_capacities: "spsc c = Inr r \<Longrightarrow> producer_capacity r = c \<and> consumer_capacity r = c"
  by (auto simp: spsc_def producer_capacity_def consumer_capacity_def split: if_splits)

text \<open>
  The constructor succeeds exactly for a power of two; the ring is then empty and well
  formed and both handles report the capacity asked for.  Any other capacity, zero included,
  is the assertion failure.
\<close>

lemma spsc_constructor:
  "case (spsc c :: ring_fault + 'a ring) of
     Inl f \<Rightarrow> f = CapacityAssert \<and> (\<nexists>k. k < 64 \<and> c = 2 ^ k)
   | Inr r \<Rightarrow> wf_ring r \<and> contents r = [] \<and> ring_cap r = unat c \<and>
       producer_capacity r = c \<and> consumer_capacity r = c"
proof (cases "spsc c :: ring_fault + 'a ring")
  case (Inl f)
  with spsc_not_wf [OF Inl] show ?thesis
    by (auto simp: is_power_of_two_iff spsc_def split: if_splits)
next
  case (Inr r)
  then show ?thesis using spsc_wf [OF Inr] spsc_capacities [OF Inr] by simp
qed

definition wrapping_ring :: "nat ring" where
  "wrapping_ring = \<lparr>head = -1, tail = -2, slots = [None, None, Some 5, None], rmask = 3\<rparr>"

lemma wf_wrapping_ring: "wf_ring wrapping_ring" "contents wrapping_ring = [5]" "ring_cap wrapping_ring = 4"
  unfolding wrapping_ring_def by code_simp+

text \<open>
  C8: Refinement.  On a well-formed ring, wherever its cursors stand and whether or not they wrap
  past \<open>usize::MAX\<close> on the way, every sequence of \<open>try_send\<close> and \<open>try_recv\<close> calls, however
  long, runs without touching a slot out of range or uninitialised and returns exactly what the
  abstract first-in first-out queue of at most capacity values returns.  A new ring is such a
  ring, with nothing in it.
\<close>

theorem ring_refines_queue:
  assumes "wf_ring r"
  shows "(\<exists>r'. run_calls try_send try_recv cs r =
      Inr (fst (abstract_calls (ring_cap r) cs (contents r)), r') \<and>
    wf_ring r' \<and> ring_cap r' = ring_cap r \<and> contents r' = snd (abstract_calls (ring_cap r) cs (contents r))) \<and>
    (\<forall>c r0. spsc c = Inr r0 \<longrightarrow> wf_ring r0 \<and> ring_cap r0 = unat c \<and> contents (r0 :: 'a ring) = [])"
  using rq.run_calls_abstract [OF assms, of cs] spsc_wf by auto

theorem ring_refines_queue_witness:
  "\<exists>r'. run_calls try_send try_recv
      [CallSend 7, CallSend 8, CallSend 9, CallSend 10, CallRecv, CallSend 11, CallRecv, CallRecv]
      wrapping_ring =
      Inr ([Accepted, Accepted, Accepted, HandedBack 10, Got 5, Accepted, Got 7, Got 8], r') \<and>
    contents r' = [9, 11]"
proof -
  let ?cs = "[CallSend 7, CallSend 8, CallSend 9, CallSend 10, CallRecv, CallSend 11, CallRecv, CallRecv]
    :: nat queue_call list"
  have "abstract_calls 4 ?cs [5] =
      ([Accepted, Accepted, Accepted, HandedBack 10, Got 5, Accepted, Got 7, Got 8], [9, 11])"
    by code_simp
  then show ?thesis
    using ring_refines_queue [OF wf_wrapping_ring(1), of ?cs] by (auto simp: wf_wrapping_ring)
qed

text \<open>
  C36: A blocking \<open>send\<close>, under either wait strategy, returns if and only if one of its attempts
  finds room, provided that what happens during the waits keeps the ring well formed; it then
  has appended its value, once, at the first such attempt, after what the ring held then.
\<close>

theorem send_returns:
  assumes "\<And>i r. wf_ring r \<Longrightarrow> wf_ring (env s i r) \<and> ring_cap (env s i r) = ring_cap r"
    and "wf_ring r"
  shows "case send env v s r of
      None \<Rightarrow> \<forall>n. length (contents (after_waits (env s) 0 n r)) = ring_cap r
    | Some (Inl f) \<Rightarrow> False
    | Some (Inr r') \<Rightarrow> wf_ring r' \<and>
        (\<exists>n. contents r' = contents (after_waits (env s) 0 n r) @ [v] \<and>
             (\<forall>m<n. length (contents (after_waits (env s) 0 m r)) = ring_cap r))"
proof (cases "\<exists>n. length (contents (after_waits (env s) 0 n r)) < ring_cap r")
  case True
  then obtain n where "length (contents (after_waits (env s) 0 n r)) < ring_cap r" ..
  with assms have "\<exists>m r'. m \<le> n \<and> send_loop try_send (env s) 0 v r = Some (Inr r') \<and> wf_ring r' \<and>
      ring_cap r' = ring_cap r \<and> contents r' = contents (after_waits (env s) 0 m r) @ [v] \<and>
      (\<forall>l<m. length (contents (after_waits (env s) 0 l r)) = ring_cap r)"
    by (intro rq.send_loop_first_room) auto
  then show ?thesis
    by (auto simp: send_def strategy_case)
next
  case False
  moreover have "length (contents (after_waits (env s) 0 n r)) \<le> ring_cap r" for n
    using rq.after_waits_ok [of "env s" r 0 n] rq.items_bounded assms by metis
  moreover have "send env v s r = None"
    using rq.send_loop_returns_iff [of "env s" r 0 v] assms False by (simp add: send_def strategy_case)
  ultimately show ?thesis by (auto simp: nat_less_le)
qed

text \<open>
  A blocking \<open>recv\<close> returns the oldest value as soon as an attempt finds the ring
  non-empty, and leaves the rest.
\<close>

lemma recv_returns:
  assumes "\<And>i r. wf_ring r \<Longrightarrow> wf_ring (env s i r) \<and> ring_cap (env s i r) = ring_cap r"
    and "wf_ring r"
    and "contents (after_waits (env s) 0 n r) \<noteq> []"
    and "\<And>m. m < n \<Longrightarrow> contents (after_waits (env s) 0 m r) = []"
  shows "\<exists>v r'. recv env s r = Some (Inr (v, r')) \<and> wf_ring r' \<and>
    contents (after_waits (env s) 0 n r) = v # contents r'"
proof -
  obtain v vs where vs: "contents (after_waits (env s) 0 n r) = v # vs"
    using assms(3) by (cases "contents (after_waits (env s) 0 n r)") auto
  show ?thesis
    using rq.recv_loop_returns [of "env s" 0 n r v vs] rq.after_waits_ok [of "env s" r 0] assms vs
    by (auto simp: recv_def strategy_case)
qed

text \<open>What the other thread does while a caller waits: one receive, or one send of \<open>9\<close>.\<close>

definition receive_once :: "wait_strategy \<Rightarrow> nat \<Rightarrow> nat ring \<Rightarrow> nat ring" where
  "receive_once s i r = (case try_recv r of Inl _ \<Rightarrow> r | Inr (_, r') \<Rightarrow> r')"

definition send_nine :: "wait_strategy \<Rightarrow> nat \<Rightarrow> nat ring \<Rightarrow> nat ring" where
  "send_nine s i r = (case try_send 9 r of Inl _ \<Rightarrow> r | Inr (_, r') \<Rightarrow> r')"

lemma receive_once_ok: "wf_ring r \<Longrightarrow> wf_ring (receive_once s i r) \<and> ring_cap (receive_once s i r) = ring_cap r"
  using rq.recv_empty [of r] rq.recv_some [of r "hd (contents r)" "tl (contents r)"]
  by (cases "contents r") (auto simp: receive_once_def)

lemma send_nine_ok: "wf_ring r \<Longrightarrow> wf_ring (send_nine s i r) \<and> ring_cap (send_nine s i r) = ring_cap r"
  using rq.send_full [of r 9] rq.send_room [of r 9] rq.items_bounded [of r]
  by (cases "length (contents r) = ring_cap r") (auto simp: send_nine_def nat_less_le)

definition full_ring :: "nat ring" where
  "full_ring = \<lparr>head = 2, tail = 0, slots = [Some 3, Some 4], rmask = 1\<rparr>"

lemma wf_full_ring: "wf_ring full_ring" "contents full_ring = [3, 4]" "ring_cap full_ring = 2"
    "contents (receive_once BusySpin 0 full_ring) = [4]"
  unfolding full_ring_def by code_simp+

theorem send_returns_witness:
  "\<exists>r' n. send receive_once 5 BusySpin full_ring = Some (Inr r') \<and>
     contents r' = contents (after_waits (receive_once BusySpin) 0 n full_ring) @ [5]"
proof -
  have "length (contents (after_waits (receive_once BusySpin) 0 1 full_ring)) \<noteq> ring_cap full_ring"
    unfolding One_nat_def after_waits.simps wf_full_ring by simp
  then have "\<not> (\<forall>n. length (contents (after_waits (receive_once BusySpin) 0 n full_ring)) = ring_cap full_ring)"
    by blast
  with send_returns [of receive_once BusySpin, OF receive_once_ok wf_full_ring(1), of 5] show ?thesis
    by (auto split: option.splits sum.splits)
qed

definition empty_ring :: "nat ring" where
  "empty_ring = \<lparr>head = 0, tail = 0, slots = [None, None], rmask = 1\<rparr>"

lemma wf_empty_ring: "wf_ring empty_ring" "contents empty_ring = []"
    "contents (send_nine Yield 0 empty_ring) = [9]"
  unfolding empty_ring_def by code_simp+

lemma recv_returns_example:
  "\<exists>r'. recv send_nine Yield empty_ring = Some (Inr (9, r')) \<and> contents r' = []"
  using recv_returns [of send_nine Yield, OF send_nine_ok wf_empty_ring(1), of 1]
  by (auto simp: wf_empty_ring)

text \<open>
  Dropping a well-formed ring terminates, drops exactly the unread values, each once and in
  queue order, and leaves no initialised slot: nothing leaks and nothing is dropped twice.
\<close>

lemma ring_drop_spec:
  assumes "wf_ring r"
  shows "\<exists>r'. ring_drop r = Inr (contents r, r') \<and> slots r' = replicate (length (slots r)) None"
  using drop_loop_contents [OF assms refl] by (auto simp: ring_drop_def map_replicate_const)

lemma ring_drop_spec_example:
  "\<exists>r'. ring_drop full_ring = Inr ([3, 4], r') \<and> slots r' = [None, None]"
  using ring_drop_spec [OF wf_full_ring(1)] wf_full_ring(2) by (auto simp: full_ring_def numeral_2_eq_2)

end
