(* ===== verification/Channel.thy ===== *)
theory Channel
  imports Ring
begin

text \<open>
  The crossbeam channel, as the bus uses it.  The crate is not part of the repository: its
  operations are parameters of the model, and the locales state the documented behaviour the
  program relies on.  \<open>channel_tx\<close> is the sending half that \<open>Bus::offer\<close> calls, \<open>channel\<close> adds
  construction, the receiving half and the two ways of disconnecting.  A connected channel is
  a bounded queue in the sense of theory \<open>Fifo\<close> (\<open>sublocale\<close>), and the ring buffer of this
  repository, with the liveness of its two handles added, satisfies the same contract.
\<close>

datatype 'a try_send_error = Full 'a | Disconnected 'a

datatype try_recv_error = RecvEmpty | RecvDisconnected

section \<open>Sending\<close>

locale channel_tx =
  fixes ch_send :: "'a \<Rightarrow> 'c \<Rightarrow> ('a try_send_error + unit) \<times> 'c"
    and queued :: "'c \<Rightarrow> 'a list"
    and ch_cap :: "'c \<Rightarrow> nat"
    and rx_alive :: "'c \<Rightarrow> bool"
    and ch_ok :: "'c \<Rightarrow> bool"
  assumes queued_bounded: "ch_ok c \<Longrightarrow> length (queued c) \<le> ch_cap c"
    and ch_send_room: "ch_ok c \<Longrightarrow> rx_alive c \<Longrightarrow> length (queued c) < ch_cap c \<Longrightarrow>
      \<exists>c'. ch_send x c = (Inr (), c') \<and> ch_ok c' \<and> queued c' = queued c @ [x] \<and>
        ch_cap c' = ch_cap c \<and> rx_alive c'"
    and ch_send_full: "ch_ok c \<Longrightarrow> rx_alive c \<Longrightarrow> length (queued c) = ch_cap c \<Longrightarrow>
      ch_send x c = (Inl (Full x), c)"
    and ch_send_disconnected: "ch_ok c \<Longrightarrow> \<not> rx_alive c \<Longrightarrow> ch_send x c = (Inl (Disconnected x), c)"
begin

lemma room_or_full: "ch_ok c \<Longrightarrow> length (queued c) < ch_cap c \<or> length (queued c) = ch_cap c"
  using queued_bounded by fastforce

lemma ch_send_ok: "ch_ok c \<Longrightarrow> ch_ok (snd (ch_send x c))"
  using room_or_full [of c] ch_send_room [of c x] ch_send_full [of c x] ch_send_disconnected [of c x]
  by (cases "rx_alive c") auto

lemma ch_send_cap: "ch_ok c \<Longrightarrow> ch_cap (snd (ch_send x c)) = ch_cap c"
  using room_or_full [of c] ch_send_room [of c x] ch_send_full [of c x] ch_send_disconnected [of c x]
  by (cases "rx_alive c") auto

lemma ch_send_rx: "ch_ok c \<Longrightarrow> rx_alive (snd (ch_send x c)) = rx_alive c"
  using room_or_full [of c] ch_send_room [of c x] ch_send_full [of c x] ch_send_disconnected [of c x]
  by (cases "rx_alive c") auto

lemma ch_send_queued:
  "ch_ok c \<Longrightarrow> queued (snd (ch_send x c)) =
     (if rx_alive c \<and> length (queued c) < ch_cap c then queued c @ [x] else queued c)"
  using room_or_full [of c] ch_send_room [of c x] ch_send_full [of c x] ch_send_disconnected [of c x]
  by (cases "rx_alive c") auto

lemma ch_send_sent_iff:
  "ch_ok c \<Longrightarrow> fst (ch_send x c) = Inr () \<longleftrightarrow> rx_alive c \<and> length (queued c) < ch_cap c"
  using room_or_full [of c] ch_send_room [of c x] ch_send_full [of c x] ch_send_disconnected [of c x]
  by (cases "rx_alive c") auto

lemma ch_send_full_iff:
  "ch_ok c \<Longrightarrow> (\<exists>y. fst (ch_send x c) = Inl (Full y)) \<longleftrightarrow> rx_alive c \<and> length (queued c) = ch_cap c"
  using room_or_full [of c] ch_send_room [of c x] ch_send_full [of c x] ch_send_disconnected [of c x]
  by (cases "rx_alive c") auto

end

section \<open>The whole channel\<close>

locale channel = channel_tx ch_send queued ch_cap rx_alive ch_ok
  for ch_send :: "'a \<Rightarrow> 'c \<Rightarrow> ('a try_send_error + unit) \<times> 'c"
    and queued :: "'c \<Rightarrow> 'a list"
    and ch_cap :: "'c \<Rightarrow> nat"
    and rx_alive :: "'c \<Rightarrow> bool"
    and ch_ok :: "'c \<Rightarrow> bool" +
  fixes ch_bounded :: "usize \<Rightarrow> 'c"
    and ch_recv :: "'c \<Rightarrow> (try_recv_error + 'a) \<times> 'c"
    and tx_alive :: "'c \<Rightarrow> bool"
    and drop_tx :: "'c \<Rightarrow> 'c"
    and drop_rx :: "'c \<Rightarrow> 'c"
    and cap_ok :: "usize \<Rightarrow> bool"
  assumes ch_bounded: "cap_ok n \<Longrightarrow> ch_ok (ch_bounded n) \<and> queued (ch_bounded n) = [] \<and>
      ch_cap (ch_bounded n) = unat n \<and> rx_alive (ch_bounded n) \<and> tx_alive (ch_bounded n)"
    and ch_send_tx: "ch_ok c \<Longrightarrow> tx_alive (snd (ch_send x c)) = tx_alive c"
    and ch_recv_some: "ch_ok c \<Longrightarrow> queued c = x # xs \<Longrightarrow>
      \<exists>c'. ch_recv c = (Inr x, c') \<and> ch_ok c' \<and> queued c' = xs \<and> ch_cap c' = ch_cap c \<and>
        rx_alive c' = rx_alive c \<and> tx_alive c' = tx_alive c"
    and ch_recv_empty: "ch_ok c \<Longrightarrow> queued c = [] \<Longrightarrow>
      ch_recv c = (Inl (if tx_alive c then RecvEmpty else RecvDisconnected), c)"
    and ch_drop_tx: "ch_ok c \<Longrightarrow> ch_ok (drop_tx c) \<and> queued (drop_tx c) = queued c \<and>
      ch_cap (drop_tx c) = ch_cap c \<and> rx_alive (drop_tx c) = rx_alive c \<and> \<not> tx_alive (drop_tx c)"
    and ch_drop_rx: "ch_ok c \<Longrightarrow> ch_ok (drop_rx c) \<and>
      ch_cap (drop_rx c) = ch_cap c \<and> \<not> rx_alive (drop_rx c) \<and> tx_alive (drop_rx c) = tx_alive c"
begin

lemma ch_recv_ok: "ch_ok c \<Longrightarrow> ch_ok (snd (ch_recv c))"
  using ch_recv_some [of c] ch_recv_empty [of c] by (cases "queued c") auto

lemma ch_recv_cap: "ch_ok c \<Longrightarrow> ch_cap (snd (ch_recv c)) = ch_cap c"
  using ch_recv_some [of c] ch_recv_empty [of c] by (cases "queued c") auto

lemma ch_recv_queued: "ch_ok c \<Longrightarrow> queued (snd (ch_recv c)) = tl (queued c)"
  using ch_recv_some [of c] ch_recv_empty [of c] by (cases "queued c") auto

end

text \<open>A connected channel read as a bounded queue: the error carries the value back.\<close>

fun as_queue_send :: "('a try_send_error + unit) \<times> 'c \<Rightarrow> panic + (('a + unit) \<times> 'c)" where
  "as_queue_send (Inr u, c) = Inr (Inr u, c)"
| "as_queue_send (Inl (Full x), c) = Inr (Inl x, c)"
| "as_queue_send (Inl (Disconnected x), c) = Inr (Inl x, c)"

fun as_queue_recv :: "(try_recv_error + 'a) \<times> 'c \<Rightarrow> panic + ('a option \<times> 'c)" where
  "as_queue_recv (Inr x, c) = Inr (Some x, c)"
| "as_queue_recv (Inl e, c) = Inr (None, c)"

sublocale channel \<subseteq> cq: bounded_fifo
  "\<lambda>x c. as_queue_send (ch_send x c)" "\<lambda>c. as_queue_recv (ch_recv c)" queued ch_cap
  "\<lambda>c. ch_ok c \<and> rx_alive c"
proof (unfold_locales, goal_cases)
  case (1 c)
  then show ?case by (simp add: queued_bounded)
next
  case (2 c x)
  then show ?case by (simp add: ch_send_full)
next
  case (3 c x)
  then show ?case using ch_send_room [of c x] by auto
next
  case (4 c)
  then show ?case by (simp add: ch_recv_empty)
next
  case (5 c x xs)
  then show ?case using ch_recv_some [of c x xs] by auto
qed

section \<open>The ring buffer as a channel\<close>

record 'a ring_channel =
  rc_ring :: "'a ring"
  rc_tx :: bool
  rc_rx :: bool

definition rc_bounded :: "usize \<Rightarrow> 'a ring_channel" where
  "rc_bounded n = \<lparr>rc_ring = (case spsc n of Inr r \<Rightarrow> r | Inl _ \<Rightarrow> \<lparr>head = 0, tail = 0, slots = [], rmask = 0\<rparr>),
     rc_tx = True, rc_rx = True\<rparr>"

definition rc_send :: "'a \<Rightarrow> 'a ring_channel \<Rightarrow> ('a try_send_error + unit) \<times> 'a ring_channel" where
  "rc_send x c =
     (if \<not> rc_rx c then (Inl (Disconnected x), c)
      else (case try_send x (rc_ring c) of
              Inr (Inr u, r) \<Rightarrow> (Inr u, c\<lparr>rc_ring := r\<rparr>)
            | Inr (Inl y, r) \<Rightarrow> (Inl (Full y), c\<lparr>rc_ring := r\<rparr>)
            | Inl _ \<Rightarrow> (Inl (Full x), c)))"

definition rc_recv :: "'a ring_channel \<Rightarrow> (try_recv_error + 'a) \<times> 'a ring_channel" where
  "rc_recv c =
     (case try_recv (rc_ring c) of
        Inr (Some x, r) \<Rightarrow> (Inr x, c\<lparr>rc_ring := r\<rparr>)
      | _ \<Rightarrow> (Inl (if rc_tx c then RecvEmpty else RecvDisconnected), c))"

definition rc_queued :: "'a ring_channel \<Rightarrow> 'a list" where
  "rc_queued c = contents (rc_ring c)"

definition rc_cap :: "'a ring_channel \<Rightarrow> nat" where
  "rc_cap c = ring_cap (rc_ring c)"

definition rc_ok :: "'a ring_channel \<Rightarrow> bool" where
  "rc_ok c = wf_ring (rc_ring c)"

definition rc_drop_tx :: "'a ring_channel \<Rightarrow> 'a ring_channel" where
  "rc_drop_tx c = c\<lparr>rc_tx := False\<rparr>"

definition rc_drop_rx :: "'a ring_channel \<Rightarrow> 'a ring_channel" where
  "rc_drop_rx c = c\<lparr>rc_rx := False\<rparr>"

lemmas rc_defs = rc_bounded_def rc_send_def rc_recv_def rc_queued_def rc_cap_def rc_ok_def
  rc_drop_tx_def rc_drop_rx_def

interpretation rc: channel rc_send rc_queued rc_cap rc_rx rc_ok rc_bounded rc_recv rc_tx
  rc_drop_tx rc_drop_rx is_power_of_two
proof (unfold_locales, goal_cases)
  case (1 c)
  then show ?case using rq.items_bounded by (simp add: rc_defs)
next
  case (2 c x)
  then obtain r' where "try_send x (rc_ring c) = Inr (Inr (), r')" "wf_ring r'"
      "contents r' = contents (rc_ring c) @ [x]" "ring_cap r' = ring_cap (rc_ring c)"
    using rq.send_room [of "rc_ring c" x] by (auto simp: rc_defs)
  with 2 show ?case by (simp add: rc_defs)
next
  case (3 c x)
  then show ?case using rq.send_full [of "rc_ring c" x] by (simp add: rc_defs)
next
  case (4 c x)
  then show ?case by (simp add: rc_defs)
next
  case (5 n)
  then obtain r :: "'a ring" where "spsc n = Inr r" using spsc_Inr_iff [of n] by blast
  then show ?case using spsc_wf [of n r] by (simp add: rc_defs)
next
  case (6 c x)
  then show ?case by (auto simp: rc_defs split: sum.splits prod.splits)
next
  case (7 c x xs)
  then obtain r' where "try_recv (rc_ring c) = Inr (Some x, r')" "wf_ring r'" "contents r' = xs"
      "ring_cap r' = ring_cap (rc_ring c)"
    using rq.recv_some [of "rc_ring c" x xs] by (auto simp: rc_defs)
  with 7 show ?case by (simp add: rc_defs)
next
  case (8 c)
  then show ?case using rq.recv_empty [of "rc_ring c"] by (simp add: rc_defs)
qed (simp_all add: rc_defs)

end
