(* ===== verification/Bus.thy ===== *)
theory Bus
  imports Message Channel
begin

text \<open>
  \<open>crates/bus/src/lib.rs\<close>: topic filters, subscriptions and the publish/subscribe bus.  Every
  operation of the bus holds the mutex around its access to the subscriptions, so each is one
  step on the state.  Channels live in a store, because the receiving half of a channel is
  handed to the subscriber and outlives the subscription; a \<open>Sender\<close> or \<open>Receiver\<close> is an
  index into it.  Parameters of the operations: the channel operations (theory \<open>Channel\<close>),
  the reading of the system clock, and the order in which the hash map is iterated.
\<close>

section \<open>Filters\<close>

datatype bus_filter = Exact str | Prefix str

definition filter_parse :: "str \<Rightarrow> bus_filter" where
  "filter_parse pattern =
     (if pattern \<noteq> [] \<and> last pattern = 0x2A then Prefix (butlast pattern) else Exact pattern)"

fun filter_matches :: "bus_filter \<Rightarrow> str \<Rightarrow> bool" where
  "filter_matches (Exact t) tp \<longleftrightarrow> t = tp"
| "filter_matches (Prefix p) tp \<longleftrightarrow> prefix p tp"

section \<open>State\<close>

record offer_result =
  sent :: usize
  dropped :: usize

record sub =
  sub_filter :: bus_filter
  tx :: nat

record 'c bus =
  next_id :: u64
  subs :: "u64 \<rightharpoonup> sub"
  capacity :: usize
  drop_count :: u64
  chans :: "'c list"

definition bus_new :: "usize \<Rightarrow> 'c bus" where
  "bus_new cap =
     \<lparr>next_id = 0, subs = Map.empty, capacity = cap, drop_count = 0, chans = []\<rparr>"

section \<open>Subscriptions\<close>

text \<open>Dropping a \<open>Sub\<close> drops its \<open>Sender\<close>, the only one of its channel.\<close>

definition drop_sub :: "('c \<Rightarrow> 'c) \<Rightarrow> sub option \<Rightarrow> 'c list \<Rightarrow> 'c list" where
  "drop_sub drop_tx old cs =
     (case old of None \<Rightarrow> cs | Some s \<Rightarrow> cs[tx s := drop_tx (cs ! tx s)])"

definition subscribe ::
    "(usize \<Rightarrow> 'c) \<Rightarrow> ('c \<Rightarrow> 'c) \<Rightarrow> str \<Rightarrow> 'c bus \<Rightarrow> (u64 \<times> nat) \<times> 'c bus" where
  "subscribe bounded drop_tx pattern b =
     (let h = length (chans b);
          sid = next_id b in
      ((sid, h),
       b\<lparr>next_id := sid + 1,
         chans := drop_sub drop_tx (subs b sid) (chans b @ [bounded (capacity b)]),
         subs := (subs b)(sid \<mapsto> \<lparr>sub_filter = filter_parse pattern, tx = h\<rparr>)\<rparr>))"

definition unsubscribe :: "('c \<Rightarrow> 'c) \<Rightarrow> u64 \<Rightarrow> 'c bus \<Rightarrow> 'c bus" where
  "unsubscribe drop_tx sid b =
     b\<lparr>subs := (subs b)(sid := None), chans := drop_sub drop_tx (subs b sid) (chans b)\<rparr>"

definition read_drop_count :: "'c bus \<Rightarrow> u64" where
  "read_drop_count b = drop_count b"

section \<open>Publishing\<close>

text \<open>
  The clock is the number of nanoseconds since the Unix epoch, \<open>None\<close> when it is set before;
  the cast to \<open>u64\<close> keeps the low 64 bits.
\<close>

definition stamp :: "nat option \<Rightarrow> message \<Rightarrow> message" where
  "stamp clock msg = msg\<lparr>timestamp_ns := of_nat (case clock of Some n \<Rightarrow> n | None \<Rightarrow> 0)\<rparr>"

fun offer_loop ::
    "(message \<Rightarrow> 'c \<Rightarrow> (message try_send_error + unit) \<times> 'c) \<Rightarrow> str \<Rightarrow> message \<Rightarrow> sub list
      \<Rightarrow> offer_result \<times> 'c bus \<Rightarrow> offer_result \<times> 'c bus" where
  "offer_loop chan_send tp msg [] (r, b) = (r, b)"
| "offer_loop chan_send tp msg (s # ss) (r, b) =
     (if filter_matches (sub_filter s) tp
      then let (res, c) = chan_send msg (chans b ! tx s);
               b' = b\<lparr>chans := (chans b)[tx s := c]\<rparr> in
           (case res of
              Inr _ \<Rightarrow> offer_loop chan_send tp msg ss (r\<lparr>sent := sent r + 1\<rparr>, b')
            | Inl (Full _) \<Rightarrow>
                offer_loop chan_send tp msg ss
                  (r\<lparr>dropped := dropped r + 1\<rparr>, b'\<lparr>drop_count := drop_count b' + 1\<rparr>)
            | Inl (Disconnected _) \<Rightarrow> offer_loop chan_send tp msg ss (r, b'))
      else offer_loop chan_send tp msg ss (r, b))"

definition offer ::
    "(message \<Rightarrow> 'c \<Rightarrow> (message try_send_error + unit) \<times> 'c) \<Rightarrow> u64 list \<Rightarrow> nat option
      \<Rightarrow> message \<Rightarrow> 'c bus \<Rightarrow> panic + (offer_result \<times> 'c bus)" where
  "offer chan_send order clock msg b =
     (let msg = stamp clock msg in
      and_then (topic_str msg) (\<lambda>tp.
      Inr (offer_loop chan_send tp msg (map (\<lambda>sid. the (subs b sid)) order)
             (\<lparr>sent = 0, dropped = 0\<rparr>, b))))"

definition publish ::
    "(message \<Rightarrow> 'c \<Rightarrow> (message try_send_error + unit) \<times> 'c) \<Rightarrow> u64 list \<Rightarrow> nat option
      \<Rightarrow> message \<Rightarrow> 'c bus \<Rightarrow> panic + (usize \<times> 'c bus)" where
  "publish chan_send order clock msg b =
     and_then (offer chan_send order clock msg b) (\<lambda>(r, b'). Inr (sent r, b'))"

text \<open>An order in which the iteration over the subscriptions can go.\<close>

definition iterates :: "u64 list \<Rightarrow> 'c bus \<Rightarrow> bool" where
  "iterates order b \<longleftrightarrow> distinct order \<and> set order = dom (subs b)"

section \<open>Well-formed buses\<close>

definition wf_bus :: "('c \<Rightarrow> bool) \<Rightarrow> 'c bus \<Rightarrow> bool" where
  "wf_bus ok b \<longleftrightarrow>
     (\<forall>sid s. subs b sid = Some s \<longrightarrow> tx s < length (chans b)) \<and>
     (\<forall>sid s sid' s'. subs b sid = Some s \<and> subs b sid' = Some s' \<and> tx s = tx s' \<longrightarrow> sid = sid') \<and>
     list_all ok (chans b)"

lemma wf_bus_new: "wf_bus ok (bus_new c)"
  by (simp add: wf_bus_def bus_new_def)

lemma wf_bus_tx: "wf_bus ok b \<Longrightarrow> subs b sid = Some s \<Longrightarrow> tx s < length (chans b)"
  by (auto simp: wf_bus_def)

lemma wf_bus_inj: "wf_bus ok b \<Longrightarrow> subs b sid = Some s \<Longrightarrow> subs b sid' = Some s' \<Longrightarrow>
    tx s = tx s' \<Longrightarrow> sid = sid'"
  unfolding wf_bus_def by blast

lemma wf_bus_chan: "wf_bus ok b \<Longrightarrow> h < length (chans b) \<Longrightarrow> ok (chans b ! h)"
  by (simp add: wf_bus_def list_all_length)

lemma length_drop_sub [simp]: "length (drop_sub d old cs) = length cs"
  by (simp add: drop_sub_def split: option.split)

lemma drop_sub_nth:
  "h < length cs \<Longrightarrow> drop_sub d old cs ! h =
     (if \<exists>s. old = Some s \<and> tx s = h then d (cs ! h) else cs ! h)"
  by (auto simp: drop_sub_def nth_list_update split: option.split)

lemma drop_sub_all:
  "list_all ok cs \<Longrightarrow> (\<And>c. ok c \<Longrightarrow> ok (d c)) \<Longrightarrow> list_all ok (drop_sub d old cs)"
  by (auto simp: list_all_length drop_sub_nth)

lemma subscribe_wf:
  assumes "wf_bus ok b" and "ok (bounded (capacity b))" and "\<And>c. ok c \<Longrightarrow> ok (d c)"
  shows "wf_bus ok (snd (subscribe bounded d pattern b))"
proof -
  have "list_all ok (drop_sub d (subs b (next_id b)) (chans b @ [bounded (capacity b)]))"
    using assms by (intro drop_sub_all) (auto simp: wf_bus_def)
  moreover have "tx s \<noteq> length (chans b)" if "subs b sid = Some s" for sid s
    using wf_bus_tx [OF assms(1) that] by simp
  ultimately show ?thesis
    using assms(1) unfolding wf_bus_def subscribe_def Let_def
    by (auto simp: less_Suc_eq split: if_splits) (metis less_irrefl_nat)
qed

lemma unsubscribe_wf:
  assumes "wf_bus ok b" and "\<And>c. ok c \<Longrightarrow> ok (d c)"
  shows "wf_bus ok (unsubscribe d sid b)"
  using assms drop_sub_all [of ok "chans b" d "subs b sid"]
  unfolding wf_bus_def unsubscribe_def by (auto split: if_splits)

section \<open>The loop of offer, in closed form\<close>

text \<open>
  The subscriptions the loop reaches are those whose filter matches.  Each of their channels
  is sent to once; the counters count outcomes.
\<close>

abbreviation matching :: "str \<Rightarrow> sub list \<Rightarrow> sub list" where
  "matching tp \<equiv> filter (\<lambda>s. filter_matches (sub_filter s) tp)"

definition accepted :: "('a try_send_error + unit) \<Rightarrow> bool" where
  "accepted res \<longleftrightarrow> res = Inr ()"

definition refused :: "('a try_send_error + unit) \<Rightarrow> bool" where
  "refused res \<longleftrightarrow> (\<exists>x. res = Inl (Full x))"

lemma outcome_simps [simp]:
  "accepted (Inr u)" "\<not> accepted (Inl e)" "\<not> refused (Inr u)"
  "refused (Inl (Full x))" "\<not> refused (Inl (Disconnected x))"
  by (simp_all add: accepted_def refused_def)

lemma offer_loop_spec:
  assumes "offer_loop snd_op tp msg ss (r, b) = (r', b')" and "distinct (map tx ss)"
    and "\<forall>s\<in>set ss. tx s < length (chans b)"
  shows "subs b' = subs b \<and> next_id b' = next_id b \<and> capacity b' = capacity b \<and>
    length (chans b') = length (chans b) \<and>
    (\<forall>h<length (chans b). chans b' ! h =
       (if h \<in> tx ` set (matching tp ss) then snd (snd_op msg (chans b ! h)) else chans b ! h)) \<and>
    sent r' = sent r +
      of_nat (length (filter (\<lambda>s. accepted (fst (snd_op msg (chans b ! tx s)))) (matching tp ss))) \<and>
    dropped r' = dropped r +
      of_nat (length (filter (\<lambda>s. refused (fst (snd_op msg (chans b ! tx s)))) (matching tp ss))) \<and>
    drop_count b' = drop_count b +
      of_nat (length (filter (\<lambda>s. refused (fst (snd_op msg (chans b ! tx s)))) (matching tp ss)))"
  using assms
proof (induction ss arbitrary: r b)
  case Nil
  then show ?case by auto
next
  case (Cons s ss)
  show ?case
  proof (cases "filter_matches (sub_filter s) tp")
    case False
    then have "offer_loop snd_op tp msg ss (r, b) = (r', b')" using Cons.prems(1) by simp
    from Cons.IH [OF this] Cons.prems False show ?thesis by simp
  next
    case True
    obtain res c where rc: "snd_op msg (chans b ! tx s) = (res, c)" by fastforce
    define b1 where "b1 = b\<lparr>chans := (chans b)[tx s := c],
        drop_count := drop_count b + (if refused res then 1 else 0)\<rparr>"
    define r1 where "r1 = \<lparr>sent = sent r + (if accepted res then 1 else 0),
        dropped = dropped r + (if refused res then 1 else 0)\<rparr>"
    have "offer_loop snd_op tp msg (s # ss) (r, b) = offer_loop snd_op tp msg ss (r1, b1)"
      using True rc by (cases r; cases res; cases "projl res") (auto simp: b1_def r1_def)
    then have loop: "offer_loop snd_op tp msg ss (r1, b1) = (r', b')" using Cons.prems(1) by simp
    have other: "chans b1 ! tx s' = chans b ! tx s'" if "s' \<in> set ss" for s'
      using that Cons.prems(2) by (simp add: b1_def) (metis image_eqI nth_list_update_neq)
    have same: "filter (\<lambda>s. P (fst (snd_op msg (chans b1 ! tx s)))) (matching tp ss) =
        filter (\<lambda>s. P (fst (snd_op msg (chans b ! tx s)))) (matching tp ss)"
      for P :: "(message try_send_error + unit) \<Rightarrow> bool"
      by (rule filter_cong) (auto simp: other)
    have chan: "chans b1 ! h = (if h = tx s then c else chans b ! h)" if "h < length (chans b)" for h
      using that by (simp add: b1_def)
    have fields: "subs b1 = subs b" "next_id b1 = next_id b" "capacity b1 = capacity b"
        "length (chans b1) = length (chans b)"
        "drop_count b1 = drop_count b + (if refused res then 1 else 0)"
      by (simp_all add: b1_def)
    have nin: "tx s \<notin> tx ` set (matching tp ss)" using Cons.prems(2) by auto
    have "\<forall>s\<in>set ss. tx s < length (chans b1)" using Cons.prems(3) fields(4) by simp
    from Cons.IH [OF loop _ this] Cons.prems(2)
    have IH: "subs b' = subs b1 \<and> next_id b' = next_id b1 \<and> capacity b' = capacity b1 \<and>
      length (chans b') = length (chans b1) \<and>
      (\<forall>h<length (chans b1). chans b' ! h =
         (if h \<in> tx ` set (matching tp ss) then snd (snd_op msg (chans b1 ! h)) else chans b1 ! h)) \<and>
      sent r' = sent r1 +
        of_nat (length (filter (\<lambda>s. accepted (fst (snd_op msg (chans b ! tx s)))) (matching tp ss))) \<and>
      dropped r' = dropped r1 +
        of_nat (length (filter (\<lambda>s. refused (fst (snd_op msg (chans b ! tx s)))) (matching tp ss))) \<and>
      drop_count b' = drop_count b1 +
        of_nat (length (filter (\<lambda>s. refused (fst (snd_op msg (chans b ! tx s)))) (matching tp ss)))"
      unfolding same [of accepted] same [of refused] by simp
    then show ?thesis
      using True rc nin chan fields by (auto simp: r1_def)
  qed
qed

section \<open>What offer does\<close>

lemma wf_stamp [simp]: "wf_message (stamp clock m) = wf_message m"
  by (simp add: stamp_def wf_message_def)

lemma topic_of_stamp [simp]: "topic_of (stamp clock m) = topic_of m"
  by (simp add: stamp_def topic_of_def topic_prefix_def)

definition subscribers :: "'c bus \<Rightarrow> str \<Rightarrow> u64 set" where
  "subscribers b tp = {sid. \<exists>s. subs b sid = Some s \<and> filter_matches (sub_filter s) tp}"

definition chan_of :: "'c bus \<Rightarrow> u64 \<Rightarrow> 'c" where
  "chan_of b sid = chans b ! tx (the (subs b sid))"

lemma length_filter_order:
  assumes "iterates order b"
  shows "length (filter (\<lambda>s. P (chans b ! tx s)) (matching tp (map (\<lambda>sid. the (subs b sid)) order)))
    = card {sid \<in> subscribers b tp. P (chan_of b sid)}"
proof -
  have "length (filter (\<lambda>s. P (chans b ! tx s)) (matching tp (map (\<lambda>sid. the (subs b sid)) order)))
      = length (filter (\<lambda>sid. P (chan_of b sid) \<and> filter_matches (sub_filter (the (subs b sid))) tp) order)"
    by (simp add: filter_map o_def chan_of_def conj_commute)
  also have "\<dots> = card (set (filter (\<lambda>sid. P (chan_of b sid) \<and> filter_matches (sub_filter (the (subs b sid))) tp) order))"
    by (rule distinct_card [symmetric]) (use assms in \<open>simp add: iterates_def\<close>)
  also have "set (filter (\<lambda>sid. P (chan_of b sid) \<and> filter_matches (sub_filter (the (subs b sid))) tp) order)
      = {sid \<in> subscribers b tp. P (chan_of b sid)}"
    using assms by (auto simp: iterates_def subscribers_def dom_def)
  finally show ?thesis .
qed

lemma iterates_subs:
  assumes "wf_bus ok b" and "iterates order b"
  shows "distinct (map tx (map (\<lambda>sid. the (subs b sid)) order))"
    and "\<forall>s\<in>set (map (\<lambda>sid. the (subs b sid)) order). tx s < length (chans b)"
    and "set (map (\<lambda>sid. the (subs b sid)) order) = ran (subs b)"
proof -
  have "inj_on (\<lambda>sid. tx (the (subs b sid))) (set order)"
    using assms wf_bus_inj [OF assms(1)] by (auto simp: inj_on_def iterates_def dom_def)
  then show "distinct (map tx (map (\<lambda>sid. the (subs b sid)) order))"
    using assms(2) by (simp add: distinct_map iterates_def o_def)
  show "\<forall>s\<in>set (map (\<lambda>sid. the (subs b sid)) order). tx s < length (chans b)"
    using assms wf_bus_tx [OF assms(1)] by (auto simp: iterates_def dom_def)
  show "set (map (\<lambda>sid. the (subs b sid)) order) = ran (subs b)"
    using assms(2) by (force simp: iterates_def dom_def ran_def)
qed

lemma offer_spec:
  assumes wf: "wf_bus ok b" and order: "iterates order b" and msg: "wf_message msg"
  shows "offer snd_op order clock msg b = Inr
    (\<lparr>sent = of_nat (card {sid \<in> subscribers b (topic_of msg).
               accepted (fst (snd_op (stamp clock msg) (chan_of b sid)))}),
      dropped = of_nat (card {sid \<in> subscribers b (topic_of msg).
               refused (fst (snd_op (stamp clock msg) (chan_of b sid)))})\<rparr>,
     b\<lparr>drop_count := drop_count b + of_nat (card {sid \<in> subscribers b (topic_of msg).
               refused (fst (snd_op (stamp clock msg) (chan_of b sid)))}),
       chans := map (\<lambda>h. if \<exists>s\<in>ran (subs b). tx s = h \<and> filter_matches (sub_filter s) (topic_of msg)
                         then snd (snd_op (stamp clock msg) (chans b ! h)) else chans b ! h)
                    [0..<length (chans b)]\<rparr>)"
proof -
  let ?m = "stamp clock msg" and ?tp = "topic_of msg"
  let ?ss = "map (\<lambda>sid. the (subs b sid)) order"
  note subs_ = iterates_subs [OF wf order]
  obtain r' b' where loop: "offer_loop snd_op ?tp ?m ?ss (\<lparr>sent = 0, dropped = 0\<rparr>, b) = (r', b')"
    by fastforce
  have count: "length (filter (\<lambda>s. P (fst (snd_op ?m (chans b ! tx s)))) (matching ?tp ?ss)) =
      card {sid \<in> subscribers b ?tp. P (fst (snd_op ?m (chan_of b sid)))}"
    for P :: "(message try_send_error + unit) \<Rightarrow> bool"
    using length_filter_order [OF order, of "\<lambda>c. P (fst (snd_op ?m c))" ?tp] .
  have hit: "h \<in> tx ` set (matching ?tp ?ss) \<longleftrightarrow>
      (\<exists>s\<in>ran (subs b). tx s = h \<and> filter_matches (sub_filter s) ?tp)" for h
    using subs_(3) by (auto simp: image_iff simp flip: subs_(3))
  note spec = offer_loop_spec [OF loop subs_(1,2), unfolded count hit]
  have "chans b' = map (\<lambda>h. if \<exists>s\<in>ran (subs b). tx s = h \<and> filter_matches (sub_filter s) ?tp
                         then snd (snd_op ?m (chans b ! h)) else chans b ! h) [0..<length (chans b)]"
    using spec by (intro nth_equalityI) auto
  with spec loop msg show ?thesis
    by (simp add: offer_def Let_def topic_str_eq)
qed

lemma offer_order:
  assumes "wf_bus ok b" and "iterates order b" and "iterates order' b" and "wf_message msg"
  shows "offer snd_op order clock msg b = offer snd_op order' clock msg b"
  using offer_spec [OF assms(1,2,4)] offer_spec [OF assms(1,3,4)] by simp

lemma offer_chan:
  assumes wf: "wf_bus ok b" and "iterates order b" and "wf_message msg"
    and eq: "offer snd_op order clock msg b = Inr (r, b')" and sub: "subs b sid = Some s"
  shows "chans b' ! tx s = (if filter_matches (sub_filter s) (topic_of msg)
     then snd (snd_op (stamp clock msg) (chans b ! tx s)) else chans b ! tx s)"
proof -
  have "(\<exists>s'\<in>ran (subs b). tx s' = tx s \<and> filter_matches (sub_filter s') (topic_of msg)) \<longleftrightarrow>
      filter_matches (sub_filter s) (topic_of msg)"
  proof
    assume "\<exists>s'\<in>ran (subs b). tx s' = tx s \<and> filter_matches (sub_filter s') (topic_of msg)"
    then obtain sid' s' where s': "subs b sid' = Some s'" "tx s' = tx s"
        "filter_matches (sub_filter s') (topic_of msg)"
      by (auto simp: ran_def)
    with wf_bus_inj [OF wf s'(1) sub] sub show "filter_matches (sub_filter s) (topic_of msg)" by simp
  qed (use sub in \<open>auto intro: ranI\<close>)
  then show ?thesis
    using eq offer_spec [OF assms(1-3), of snd_op clock] wf_bus_tx [OF wf sub] by auto
qed

lemma offer_wf:
  assumes wf: "wf_bus ok b" and "iterates order b" and "wf_message msg"
    and eq: "offer snd_op order clock msg b = Inr (r, b')"
    and keeps: "\<And>c. ok c \<Longrightarrow> ok (snd (snd_op (stamp clock msg) c))"
  shows "wf_bus ok b'"
  using eq wf offer_spec [OF assms(1-3), of snd_op clock] keeps
  unfolding wf_bus_def list_all_length by (auto simp: split: if_splits)

section \<open>Histories\<close>

text \<open>
  A bus in use: publishers and subscribers call its operations, subscribers receive from or
  drop their receivers, in any order.  \<open>results\<close> lists what \<open>offer\<close> has returned, \<open>put h\<close> the
  messages the channel \<open>h\<close> has accepted, \<open>out h\<close> those its receiver has returned, and \<open>gone\<close> the
  channels whose receiver has been dropped.
\<close>

record 'c bus_hist =
  the_bus :: "'c bus"
  results :: "offer_result list"
  put :: "nat \<Rightarrow> message list"
  out :: "nat \<Rightarrow> message list"
  gone :: "nat set"

definition put_by_offer ::
    "(message \<Rightarrow> 'c \<Rightarrow> (message try_send_error + unit) \<times> 'c) \<Rightarrow> message \<Rightarrow> 'c bus \<Rightarrow> nat \<Rightarrow> message list" where
  "put_by_offer snd_op m b h =
     (if \<exists>s\<in>ran (subs b). tx s = h \<and> filter_matches (sub_filter s) (topic_of m) \<and>
           accepted (fst (snd_op m (chans b ! h)))
      then [m] else [])"

inductive bus_reach ::
    "(message \<Rightarrow> 'c \<Rightarrow> (message try_send_error + unit) \<times> 'c) \<Rightarrow> (usize \<Rightarrow> 'c)
      \<Rightarrow> ('c \<Rightarrow> (try_recv_error + message) \<times> 'c) \<Rightarrow> ('c \<Rightarrow> 'c) \<Rightarrow> ('c \<Rightarrow> 'c) \<Rightarrow> usize
      \<Rightarrow> 'c bus_hist \<Rightarrow> bool"
    for snd_op bounded rcv_op dtx drx cap where
  reach_new: "bus_reach snd_op bounded rcv_op dtx drx cap
     \<lparr>the_bus = bus_new cap, results = [], put = (\<lambda>_. []), out = (\<lambda>_. []), gone = {}\<rparr>"
| reach_subscribe: "bus_reach snd_op bounded rcv_op dtx drx cap H \<Longrightarrow>
     bus_reach snd_op bounded rcv_op dtx drx cap
       (H\<lparr>the_bus := snd (subscribe bounded dtx pattern (the_bus H))\<rparr>)"
| reach_unsubscribe: "bus_reach snd_op bounded rcv_op dtx drx cap H \<Longrightarrow>
     bus_reach snd_op bounded rcv_op dtx drx cap (H\<lparr>the_bus := unsubscribe dtx sid (the_bus H)\<rparr>)"
| reach_offer: "bus_reach snd_op bounded rcv_op dtx drx cap H \<Longrightarrow>
     iterates order (the_bus H) \<Longrightarrow> wf_message msg \<Longrightarrow>
     offer snd_op order clock msg (the_bus H) = Inr (r, b') \<Longrightarrow>
     bus_reach snd_op bounded rcv_op dtx drx cap
       (H\<lparr>the_bus := b', results := results H @ [r],
          put := (\<lambda>h. put H h @ put_by_offer snd_op (stamp clock msg) (the_bus H) h)\<rparr>)"
| reach_recv: "bus_reach snd_op bounded rcv_op dtx drx cap H \<Longrightarrow>
     h < length (chans (the_bus H)) \<Longrightarrow> h \<notin> gone H \<Longrightarrow> rcv_op (chans (the_bus H) ! h) = (res, c) \<Longrightarrow>
     bus_reach snd_op bounded rcv_op dtx drx cap
       (H\<lparr>the_bus := (the_bus H)\<lparr>chans := (chans (the_bus H))[h := c]\<rparr>,
          out := (out H)(h := out H h @ (case res of Inr m \<Rightarrow> [m] | Inl _ \<Rightarrow> []))\<rparr>)"
| reach_drop_receiver: "bus_reach snd_op bounded rcv_op dtx drx cap H \<Longrightarrow>
     h < length (chans (the_bus H)) \<Longrightarrow> h \<notin> gone H \<Longrightarrow>
     bus_reach snd_op bounded rcv_op dtx drx cap
       (H\<lparr>the_bus := (the_bus H)\<lparr>chans := (chans (the_bus H))[h := drx (chans (the_bus H) ! h)]\<rparr>,
          gone := insert h (gone H)\<rparr>)"

text \<open>
  Subscription ids and channels are handed out by the same counter, so an id names its
  channel for as long as the counter has not wrapped around, and even then no two
  subscriptions share a channel.
\<close>

definition ids_aligned :: "'c bus \<Rightarrow> bool" where
  "ids_aligned b \<longleftrightarrow> next_id b = of_nat (length (chans b)) \<and>
     (\<forall>sid s. subs b sid = Some s \<longrightarrow> sid = of_nat (tx s) \<and> tx s < length (chans b))"

lemma ids_aligned_wf: "ids_aligned b \<Longrightarrow> list_all ok (chans b) \<Longrightarrow> wf_bus ok b"
  unfolding ids_aligned_def wf_bus_def by metis

lemma ids_aligned_new: "ids_aligned (bus_new cap)"
  by (simp add: ids_aligned_def bus_new_def)

lemma ids_aligned_subscribe: "ids_aligned b \<Longrightarrow> ids_aligned (snd (subscribe bounded d pattern b))"
  by (auto simp: ids_aligned_def subscribe_def Let_def less_Suc_eq add.commute)

lemma ids_aligned_unsubscribe: "ids_aligned b \<Longrightarrow> ids_aligned (unsubscribe d sid b)"
  by (auto simp: ids_aligned_def unsubscribe_def)

lemma ids_fresh:
  assumes "ids_aligned b" and "length (chans b) < 2 ^ 64"
  shows "subs b (next_id b) = None"
proof (rule ccontr)
  assume "subs b (next_id b) \<noteq> None"
  then obtain s where s: "subs b (next_id b) = Some s" by blast
  with assms(1) have "of_nat (tx s) = (of_nat (length (chans b)) :: u64)" "tx s < length (chans b)"
    by (auto simp: ids_aligned_def)
  then show False
    using of_nat_eq_iff_close [of "tx s" "length (chans b)", where 'a = 64] assms(2)
    by (simp add: less_imp_diff_less)
qed

section \<open>The bus over a channel\<close>

locale bus_over_channel =
  channel ch_send queued ch_cap rx_alive ch_ok ch_bounded ch_recv tx_alive drop_tx drop_rx cap_ok
  for ch_send :: "message \<Rightarrow> 'c \<Rightarrow> (message try_send_error + unit) \<times> 'c"
    and queued ch_cap rx_alive ch_ok ch_bounded ch_recv tx_alive drop_tx drop_rx cap_ok
begin

lemma accepted_iff:
  "ch_ok c \<Longrightarrow> accepted (fst (ch_send m c)) \<longleftrightarrow> rx_alive c \<and> length (queued c) < ch_cap c"
  using ch_send_sent_iff [of c m] by (simp add: accepted_def)

lemma refused_iff:
  "ch_ok c \<Longrightarrow> refused (fst (ch_send m c)) \<longleftrightarrow> rx_alive c \<and> length (queued c) = ch_cap c"
  using ch_send_full_iff [of c m] by (simp add: refused_def)

lemma chan_of_ok:
  "wf_bus ch_ok b \<Longrightarrow> sid \<in> subscribers b tp \<Longrightarrow> ch_ok (chan_of b sid)"
  by (auto simp: subscribers_def chan_of_def intro: wf_bus_chan [OF _ wf_bus_tx])

lemma offer_counts:
  assumes wf: "wf_bus ch_ok b" and "iterates order b" and "wf_message msg"
    and eq: "offer ch_send order clock msg b = Inr (r, b')"
  shows "sent r = of_nat (card {sid \<in> subscribers b (topic_of msg).
           rx_alive (chan_of b sid) \<and> length (queued (chan_of b sid)) < ch_cap (chan_of b sid)})"
    and "dropped r = of_nat (card {sid \<in> subscribers b (topic_of msg).
           rx_alive (chan_of b sid) \<and> length (queued (chan_of b sid)) = ch_cap (chan_of b sid)})"
    and "drop_count b' = drop_count b + dropped r"
proof -
  have "{sid \<in> subscribers b (topic_of msg). accepted (fst (ch_send (stamp clock msg) (chan_of b sid)))} =
      {sid \<in> subscribers b (topic_of msg).
         rx_alive (chan_of b sid) \<and> length (queued (chan_of b sid)) < ch_cap (chan_of b sid)}"
    using chan_of_ok [OF wf] accepted_iff by blast
  moreover have "{sid \<in> subscribers b (topic_of msg). refused (fst (ch_send (stamp clock msg) (chan_of b sid)))} =
      {sid \<in> subscribers b (topic_of msg).
         rx_alive (chan_of b sid) \<and> length (queued (chan_of b sid)) = ch_cap (chan_of b sid)}"
    using chan_of_ok [OF wf] refused_iff by blast
  ultimately show "sent r = of_nat (card {sid \<in> subscribers b (topic_of msg).
           rx_alive (chan_of b sid) \<and> length (queued (chan_of b sid)) < ch_cap (chan_of b sid)})"
    and "dropped r = of_nat (card {sid \<in> subscribers b (topic_of msg).
           rx_alive (chan_of b sid) \<and> length (queued (chan_of b sid)) = ch_cap (chan_of b sid)})"
    and "drop_count b' = drop_count b + dropped r"
    using eq offer_spec [OF assms(1-3), of ch_send clock] by auto
qed

lemma offer_queue:
  assumes wf: "wf_bus ch_ok b" and "iterates order b" and "wf_message msg"
    and eq: "offer ch_send order clock msg b = Inr (r, b')" and sub: "subs b sid = Some s"
  shows "queued (chans b' ! tx s) =
    (if filter_matches (sub_filter s) (topic_of msg) \<and> rx_alive (chans b ! tx s) \<and>
        length (queued (chans b ! tx s)) < ch_cap (chans b ! tx s)
     then queued (chans b ! tx s) @ [stamp clock msg] else queued (chans b ! tx s))"
  using offer_chan [OF assms] ch_send_queued wf_bus_chan [OF wf wf_bus_tx [OF wf sub]] by simp

end

section \<open>Invariants of a history\<close>

lemma tx_in_ran: "(\<exists>s\<in>ran m. tx s = h) \<longleftrightarrow> (\<exists>sid s. m sid = Some s \<and> tx s = h)"
  by (auto simp: ran_def)

text \<open>What holds of channel \<open>h\<close>.\<close>

definition chan_inv ::
    "('c \<Rightarrow> message list) \<Rightarrow> ('c \<Rightarrow> nat) \<Rightarrow> ('c \<Rightarrow> bool) \<Rightarrow> ('c \<Rightarrow> bool) \<Rightarrow> ('c \<Rightarrow> bool) \<Rightarrow> nat
      \<Rightarrow> 'c bus_hist \<Rightarrow> nat \<Rightarrow> bool" where
  "chan_inv queued ch_cap rx_alive tx_alive ch_ok cap H h \<longleftrightarrow>
     (let c = chans (the_bus H) ! h in
      ch_ok c \<and> ch_cap c = cap \<and> (rx_alive c \<longleftrightarrow> h \<notin> gone H) \<and>
      (tx_alive c \<longleftrightarrow> (\<exists>s\<in>ran (subs (the_bus H)). tx s = h)) \<and>
      (h \<notin> gone H \<longrightarrow> put H h = out H h @ queued c) \<and> prefix (out H h) (put H h))"

definition hist_inv ::
    "('c \<Rightarrow> message list) \<Rightarrow> ('c \<Rightarrow> nat) \<Rightarrow> ('c \<Rightarrow> bool) \<Rightarrow> ('c \<Rightarrow> bool) \<Rightarrow> ('c \<Rightarrow> bool) \<Rightarrow> usize
      \<Rightarrow> 'c bus_hist \<Rightarrow> bool" where
  "hist_inv queued ch_cap rx_alive tx_alive ch_ok cap H \<longleftrightarrow>
     ids_aligned (the_bus H) \<and> capacity (the_bus H) = cap \<and>
     drop_count (the_bus H) = sum_list (map dropped (results H)) \<and>
     (\<forall>h<length (chans (the_bus H)). chan_inv queued ch_cap rx_alive tx_alive ch_ok (unat cap) H h) \<and>
     (\<forall>h\<ge>length (chans (the_bus H)). put H h = [] \<and> out H h = [] \<and> h \<notin> gone H)"

context bus_over_channel begin

abbreviation inv_h :: "usize \<Rightarrow> 'c bus_hist \<Rightarrow> bool" where
  "inv_h \<equiv> hist_inv queued ch_cap rx_alive tx_alive ch_ok"

lemma inv_h_wf: "inv_h cap H \<Longrightarrow> wf_bus ch_ok (the_bus H)"
  by (rule ids_aligned_wf) (auto simp: hist_inv_def chan_inv_def Let_def list_all_length)

lemma inv_h_subscribe:
  assumes inv: "inv_h cap H" and cap: "cap_ok cap"
  shows "inv_h cap (H\<lparr>the_bus := snd (subscribe ch_bounded drop_tx pattern (the_bus H))\<rparr>)"
proof -
  let ?b = "the_bus H" and ?n = "length (chans (the_bus H))"
  let ?b' = "snd (subscribe ch_bounded drop_tx pattern ?b)"
  have al: "ids_aligned ?b" and c: "capacity ?b = cap"
    using inv by (simp_all add: hist_inv_def)
  have b': "chans ?b' = drop_sub drop_tx (subs ?b (next_id ?b)) (chans ?b @ [ch_bounded cap])"
    "subs ?b' = (subs ?b)(next_id ?b \<mapsto> \<lparr>sub_filter = filter_parse pattern, tx = ?n\<rparr>)"
    "capacity ?b' = cap" "drop_count ?b' = drop_count ?b"
    using c by (simp_all add: subscribe_def Let_def)
  have new: "ch_ok (ch_bounded cap)" "queued (ch_bounded cap) = []" "ch_cap (ch_bounded cap) = unat cap"
    "rx_alive (ch_bounded cap)" "tx_alive (ch_bounded cap)"
    using ch_bounded [OF cap] by auto
  have old_tx: "tx s \<noteq> ?n" if "subs ?b sid = Some s" for sid s
    using al that unfolding ids_aligned_def by (metis less_irrefl_nat)
  have "chan_inv queued ch_cap rx_alive tx_alive ch_ok (unat cap) (H\<lparr>the_bus := ?b'\<rparr>) h" if h: "h < Suc ?n" for h
  proof (cases "h = ?n")
    case True
    have "chans ?b' ! h = ch_bounded cap"
      using True old_tx by (auto simp: b'(1) drop_sub_nth nth_append)
    moreover have "put H h = [] \<and> out H h = [] \<and> h \<notin> gone H"
      using inv True by (simp add: hist_inv_def)
    moreover have "\<exists>s\<in>ran (subs ?b'). tx s = ?n"
      by (rule bexI [of _ "\<lparr>sub_filter = filter_parse pattern, tx = ?n\<rparr>"])
        (auto simp: b'(2) ran_def)
    ultimately show ?thesis
      using new True by (auto simp: chan_inv_def Let_def)
  next
    case False
    with h have lt: "h < ?n" by simp
    then have old: "chan_inv queued ch_cap rx_alive tx_alive ch_ok (unat cap) H h"
      using inv by (simp add: hist_inv_def)
    show ?thesis
    proof (cases "\<exists>s. subs ?b (next_id ?b) = Some s \<and> tx s = h")
      case True
      then have "chans ?b' ! h = drop_tx (chans ?b ! h)"
        using lt by (auto simp: b'(1) drop_sub_nth nth_append)
      moreover have "\<not> (\<exists>s\<in>ran (subs ?b'). tx s = h)"
        using True lt wf_bus_inj [OF inv_h_wf [OF inv]] by (auto simp: b'(2) ran_def split: if_splits)
      ultimately show ?thesis
        using old ch_drop_tx by (auto simp: chan_inv_def Let_def)
    next
      case no: False
      then have "chans ?b' ! h = chans ?b ! h"
        using lt by (auto simp: b'(1) drop_sub_nth nth_append)
      moreover have "(\<exists>s\<in>ran (subs ?b'). tx s = h) \<longleftrightarrow> (\<exists>s\<in>ran (subs ?b). tx s = h)"
      proof -
        have "\<exists>s\<in>ran (subs ?b'). tx s = h" if "subs ?b i = Some s" "tx s = h" for i s
        proof -
          have "i \<noteq> next_id ?b" using that no by blast
          with that have "subs ?b' i = Some s" by (simp add: b'(2))
          with that(2) show ?thesis by (auto intro: ranI)
        qed
        moreover have "\<exists>s\<in>ran (subs ?b). tx s = h" if "subs ?b' i = Some s" "tx s = h" for i s
          using that lt by (auto simp: b'(2) intro: ranI split: if_splits)
        ultimately show ?thesis unfolding tx_in_ran by blast
      qed
      ultimately show ?thesis using old by (simp add: chan_inv_def Let_def)
    qed
  qed
  moreover have "length (chans ?b') = Suc ?n" by (simp add: b'(1))
  moreover have "ids_aligned ?b'" using al by (rule ids_aligned_subscribe)
  ultimately show ?thesis
    using inv b'(3,4) by (auto simp: hist_inv_def)
qed

lemma inv_h_unsubscribe:
  assumes inv: "inv_h cap H"
  shows "inv_h cap (H\<lparr>the_bus := unsubscribe drop_tx sid (the_bus H)\<rparr>)"
proof -
  let ?b = "the_bus H" and ?b' = "unsubscribe drop_tx sid (the_bus H)"
  have b': "chans ?b' = drop_sub drop_tx (subs ?b sid) (chans ?b)" "subs ?b' = (subs ?b)(sid := None)"
    "capacity ?b' = capacity ?b" "drop_count ?b' = drop_count ?b"
    by (simp_all add: unsubscribe_def)
  have "chan_inv queued ch_cap rx_alive tx_alive ch_ok (unat cap) (H\<lparr>the_bus := ?b'\<rparr>) h"
    if h: "h < length (chans ?b)" for h
  proof (cases "\<exists>s. subs ?b sid = Some s \<and> tx s = h")
    case True
    then have "chans ?b' ! h = drop_tx (chans ?b ! h)"
      using h by (auto simp: b'(1) drop_sub_nth)
    moreover have "\<not> (\<exists>s\<in>ran (subs ?b'). tx s = h)"
      using True wf_bus_inj [OF inv_h_wf [OF inv]] by (auto simp: b'(2) ran_def split: if_splits)
    ultimately show ?thesis
      using inv h ch_drop_tx by (auto simp: hist_inv_def chan_inv_def Let_def)
  next
    case False
    then have "chans ?b' ! h = chans ?b ! h"
      using h by (auto simp: b'(1) drop_sub_nth)
    moreover have "(\<exists>s\<in>ran (subs ?b'). tx s = h) \<longleftrightarrow> (\<exists>s\<in>ran (subs ?b). tx s = h)"
      using False by (simp add: b'(2) tx_in_ran) metis
    ultimately show ?thesis using inv h by (simp add: hist_inv_def chan_inv_def Let_def)
  qed
  moreover have "ids_aligned ?b'"
    using inv by (simp add: hist_inv_def ids_aligned_unsubscribe)
  ultimately show ?thesis using inv b' by (simp add: hist_inv_def)
qed

lemma inv_h_offer:
  assumes inv: "inv_h cap H" and order: "iterates order (the_bus H)" and msg: "wf_message msg"
    and eq: "offer ch_send order clock msg (the_bus H) = Inr (r, b')"
  shows "inv_h cap (H\<lparr>the_bus := b', results := results H @ [r],
    put := (\<lambda>h. put H h @ put_by_offer ch_send (stamp clock msg) (the_bus H) h)\<rparr>)"
proof -
  let ?b = "the_bus H" and ?m = "stamp clock msg"
  let ?hit = "\<lambda>h. \<exists>s\<in>ran (subs ?b). tx s = h \<and> filter_matches (sub_filter s) (topic_of msg)"
  have wf: "wf_bus ch_ok ?b" using inv_h_wf [OF inv] .
  have b': "subs b' = subs ?b" "next_id b' = next_id ?b" "capacity b' = capacity ?b"
    "length (chans b') = length (chans ?b)"
    "\<And>h. h < length (chans ?b) \<Longrightarrow>
       chans b' ! h = (if ?hit h then snd (ch_send ?m (chans ?b ! h)) else chans ?b ! h)"
    using eq offer_spec [OF wf order msg, of ch_send clock] by auto
  have "chan_inv queued ch_cap rx_alive tx_alive ch_ok (unat cap)
      (H\<lparr>the_bus := b', results := results H @ [r],
         put := (\<lambda>h. put H h @ put_by_offer ch_send ?m ?b h)\<rparr>) h" if h: "h < length (chans ?b)" for h
  proof -
    let ?c = "chans ?b ! h"
    have old: "chan_inv queued ch_cap rx_alive tx_alive ch_ok (unat cap) H h"
      using inv h by (simp add: hist_inv_def)
    then have ok: "ch_ok ?c" by (simp add: chan_inv_def Let_def)
    have put: "put_by_offer ch_send ?m ?b h =
        (if ?hit h \<and> rx_alive ?c \<and> length (queued ?c) < ch_cap ?c then [?m] else [])"
      using accepted_iff [OF ok] by (auto simp: put_by_offer_def)
    show ?thesis
      using old ch_send_ok [OF ok, of ?m] ch_send_cap [OF ok, of ?m] ch_send_rx [OF ok, of ?m]
        ch_send_queued [OF ok, of ?m] ch_send_tx [OF ok, of ?m]
      by (cases "?hit h") (auto simp: chan_inv_def Let_def b' put h)
  qed
  moreover have "ids_aligned b'"
    using inv b' by (simp add: hist_inv_def ids_aligned_def)
  moreover have "put_by_offer ch_send ?m ?b h = []" if "h \<ge> length (chans ?b)" for h
    using that wf_bus_tx [OF wf] by (fastforce simp: put_by_offer_def ran_def)
  moreover have "drop_count b' = drop_count ?b + dropped r"
    by (rule offer_counts(3) [OF wf order msg eq])
  ultimately show ?thesis using inv b'(3,4) by (simp add: hist_inv_def)
qed

lemma inv_h_recv:
  assumes inv: "inv_h cap H" and h: "h < length (chans (the_bus H))" and live: "h \<notin> gone H"
    and eq: "ch_recv (chans (the_bus H) ! h) = (res, c)"
  shows "inv_h cap (H\<lparr>the_bus := (the_bus H)\<lparr>chans := (chans (the_bus H))[h := c]\<rparr>,
    out := (out H)(h := out H h @ (case res of Inr m \<Rightarrow> [m] | Inl _ \<Rightarrow> []))\<rparr>)"
proof -
  let ?c = "chans (the_bus H) ! h"
  have old: "chan_inv queued ch_cap rx_alive tx_alive ch_ok (unat cap) H h"
    using inv h by (simp add: hist_inv_def)
  then have ok: "ch_ok ?c" by (simp add: chan_inv_def Let_def)
  have "chan_inv queued ch_cap rx_alive tx_alive ch_ok (unat cap)
     (H\<lparr>the_bus := (the_bus H)\<lparr>chans := (chans (the_bus H))[h := c]\<rparr>,
        out := (out H)(h := out H h @ (case res of Inr m \<Rightarrow> [m] | Inl _ \<Rightarrow> []))\<rparr>) h"
  proof (cases "queued ?c")
    case Nil
    then have "c = ?c" "\<exists>e. res = Inl e" using ch_recv_empty [OF ok] eq by auto
    then show ?thesis using old h by (auto simp: chan_inv_def Let_def)
  next
    case (Cons m ms)
    then have "res = Inr m" "ch_ok c" "queued c = ms" "ch_cap c = ch_cap ?c"
      "rx_alive c = rx_alive ?c" "tx_alive c = tx_alive ?c"
      using ch_recv_some [OF ok Cons] eq by auto
    then show ?thesis using old h live Cons by (auto simp: chan_inv_def Let_def)
  qed
  moreover have "chan_inv queued ch_cap rx_alive tx_alive ch_ok (unat cap)
     (H\<lparr>the_bus := (the_bus H)\<lparr>chans := (chans (the_bus H))[h := c]\<rparr>,
        out := (out H)(h := out H h @ (case res of Inr m \<Rightarrow> [m] | Inl _ \<Rightarrow> []))\<rparr>) h'"
    if "h' < length (chans (the_bus H))" "h' \<noteq> h" for h'
    using inv that by (auto simp: hist_inv_def chan_inv_def Let_def)
  ultimately show ?thesis
    using inv h by (auto simp: hist_inv_def ids_aligned_def)
qed

lemma inv_h_drop_receiver:
  assumes inv: "inv_h cap H" and h: "h < length (chans (the_bus H))"
  shows "inv_h cap (H\<lparr>the_bus := (the_bus H)\<lparr>chans := (chans (the_bus H))[h := drop_rx (chans (the_bus H) ! h)]\<rparr>,
    gone := insert h (gone H)\<rparr>)"
proof -
  have "chan_inv queued ch_cap rx_alive tx_alive ch_ok (unat cap)
     (H\<lparr>the_bus := (the_bus H)\<lparr>chans := (chans (the_bus H))[h := drop_rx (chans (the_bus H) ! h)]\<rparr>,
        gone := insert h (gone H)\<rparr>) h'" if "h' < length (chans (the_bus H))" for h'
  proof -
    have old: "chan_inv queued ch_cap rx_alive tx_alive ch_ok (unat cap) H h'"
      using inv that by (simp add: hist_inv_def)
    then show ?thesis
      using ch_drop_rx [of "chans (the_bus H) ! h'"] that
      by (cases "h' = h") (auto simp: chan_inv_def Let_def)
  qed
  then show ?thesis using inv h by (auto simp: hist_inv_def ids_aligned_def)
qed

lemma reach_inv_h:
  assumes "cap_ok cap" and "bus_reach ch_send ch_bounded ch_recv drop_tx drop_rx cap H"
  shows "inv_h cap H"
  using assms(2)
proof (induction rule: bus_reach.induct)
  case reach_new
  then show ?case using ids_aligned_new [of cap] by (simp add: hist_inv_def bus_new_def)
next
  case (reach_subscribe H pattern)
  then show ?case using assms(1) by (intro inv_h_subscribe)
next
  case (reach_unsubscribe H sid)
  then show ?case by (intro inv_h_unsubscribe)
next
  case (reach_offer H order msg clock r b')
  then show ?case by (intro inv_h_offer)
next
  case (reach_recv H h res c)
  then show ?case by (intro inv_h_recv)
next
  case (reach_drop_receiver H h)
  then show ?case by (intro inv_h_drop_receiver)
qed

text \<open>Where the message goes: into the channels with room of matching subscriptions, and nowhere else.\<close>

lemma new_channel_room:
  "cap_ok n \<Longrightarrow> rx_alive (ch_bounded n) \<and> queued (ch_bounded n) = [] \<and> ch_cap (ch_bounded n) = unat n"
  using ch_bounded by blast

lemma offer_channels:
  assumes wf: "wf_bus ch_ok b" and it: "iterates order b" and msg: "wf_message msg"
    and eq: "offer ch_send order clock msg b = Inr (r, b')"
  shows "length (chans b') = length (chans b)"
    and "h < length (chans b) \<Longrightarrow> h \<notin> tx ` ran (subs b) \<Longrightarrow> chans b' ! h = chans b ! h"
    and "subs b sid = Some x \<Longrightarrow>
      (if sid \<in> subscribers b (topic_of msg) \<and> rx_alive (chan_of b sid) \<and> length (queued (chan_of b sid)) < ch_cap (chan_of b sid)
       then queued (chan_of b' sid) = queued (chan_of b sid) @ [stamp clock msg]
       else chan_of b' sid = chan_of b sid)"
proof -
  note spec = offer_spec [OF wf it msg, of ch_send clock]
  show "length (chans b') = length (chans b)" using eq spec by auto
  show "chans b' ! h = chans b ! h" if "h < length (chans b)" "h \<notin> tx ` ran (subs b)"
    using eq spec that by auto
  assume x: "subs b sid = Some x"
  have subs': "subs b' = subs b" using eq spec by auto
  have c': "chan_of b' sid = (if sid \<in> subscribers b (topic_of msg) then snd (ch_send (stamp clock msg) (chan_of b sid)) else chan_of b sid)"
    using offer_chan [OF wf it msg eq x] x by (simp add: chan_of_def subs' subscribers_def)
  have ok: "ch_ok (chan_of b sid)" using wf_bus_chan [OF wf wf_bus_tx [OF wf x]] x by (simp add: chan_of_def)
  show "if sid \<in> subscribers b (topic_of msg) \<and> rx_alive (chan_of b sid) \<and> length (queued (chan_of b sid)) < ch_cap (chan_of b sid)
       then queued (chan_of b' sid) = queued (chan_of b sid) @ [stamp clock msg]
       else chan_of b' sid = chan_of b sid"
    using room_or_full [OF ok] ch_send_queued [OF ok, of "stamp clock msg"] ch_send_full [OF ok, of "stamp clock msg"]
      ch_send_disconnected [OF ok, of "stamp clock msg"]
    by (cases "rx_alive (chan_of b sid)") (auto simp: c')
qed

text \<open>The channel of a subscription that has just been made.\<close>

lemma new_subscription:
  assumes wf: "wf_bus ch_ok b" and cap: "cap_ok (capacity b)" and new: "subscribe ch_bounded drop_tx pat b = ((sid, h), b1)"
  shows "wf_bus ch_ok b1" "subs b1 sid = Some \<lparr>sub_filter = filter_parse pat, tx = h\<rparr>" "chan_of b1 sid = ch_bounded (capacity b)"
proof -
  have b1: "b1 = snd (subscribe ch_bounded drop_tx pat b)" using new by simp
  have "ch_ok (ch_bounded (capacity b))" using ch_bounded [OF cap] by blast
  then show "wf_bus ch_ok b1" unfolding b1 by (rule subscribe_wf [OF wf]) (use ch_drop_tx in blast)
  show sub: "subs b1 sid = Some \<lparr>sub_filter = filter_parse pat, tx = h\<rparr>" using new by (auto simp: subscribe_def Let_def)
  have "tx x \<noteq> length (chans b)" if "subs b i = Some x" for i x using wf_bus_tx [OF wf that] by simp
  then show "chan_of b1 sid = ch_bounded (capacity b)"
    using new sub by (auto simp: chan_of_def subscribe_def Let_def drop_sub_nth)
qed

lemma offer_total:
  assumes wf: "wf_bus ch_ok b" and it: "iterates order b" and msg: "wf_message msg"
  shows "\<exists>r b'. offer ch_send order clock msg b = Inr (r, b') \<and>
    sent r = of_nat (card {sid \<in> subscribers b (topic_of msg). rx_alive (chan_of b sid) \<and>
      length (queued (chan_of b sid)) < ch_cap (chan_of b sid)}) \<and>
    dropped r = of_nat (card {sid \<in> subscribers b (topic_of msg). rx_alive (chan_of b sid) \<and>
      length (queued (chan_of b sid)) = ch_cap (chan_of b sid)}) \<and>
    drop_count b' = drop_count b + dropped r \<and> wf_bus ch_ok b' \<and> subs b' = subs b \<and>
    publish ch_send order clock msg b = Inr (sent r, b')"
proof -
  obtain r b' where eq: "offer ch_send order clock msg b = Inr (r, b')" "subs b' = subs b"
    using offer_spec [OF assms, of ch_send clock] by auto
  have "wf_bus ch_ok b'" using offer_wf [OF assms eq(1)] ch_send_ok by blast
  with eq offer_counts [OF assms eq(1)] show ?thesis by (simp add: publish_def)
qed

lemma reach_delivery:
  assumes "cap_ok cap" and "bus_reach ch_send ch_bounded ch_recv drop_tx drop_rx cap H"
    and "h < length (chans (the_bus H))"
  shows "prefix (out H h) (put H h) \<and> length (queued (chans (the_bus H) ! h)) \<le> unat cap \<and>
    (h \<notin> gone H \<longrightarrow> put H h = out H h @ queued (chans (the_bus H) ! h))"
proof -
  have "chan_inv queued ch_cap rx_alive tx_alive ch_ok (unat cap) H h"
    using reach_inv_h [OF assms(1,2)] assms(3) by (simp add: hist_inv_def)
  then show ?thesis using queued_bounded by (force simp: chan_inv_def Let_def)
qed

lemma reach_subscribe_fresh:
  assumes "cap_ok cap" and "bus_reach ch_send ch_bounded ch_recv drop_tx drop_rx cap H"
    and "length (chans (the_bus H)) < 2 ^ 64"
    and eq: "subscribe ch_bounded drop_tx pat (the_bus H) = ((sid, h), b')"
  shows "subs (the_bus H) sid = None \<and> subs b' sid = Some \<lparr>sub_filter = filter_parse pat, tx = h\<rparr> \<and>
    (\<forall>sid' s. subs (the_bus H) sid' = Some s \<longrightarrow> subs b' sid' = Some s \<and> tx s \<noteq> h) \<and>
    (\<forall>j<length (chans (the_bus H)). chans b' ! j = chans (the_bus H) ! j) \<and>
    queued (chans b' ! h) = [] \<and> ch_cap (chans b' ! h) = unat cap"
proof -
  have inv: "ids_aligned (the_bus H)" "capacity (the_bus H) = cap"
    using reach_inv_h [OF assms(1,2)] by (simp_all add: hist_inv_def)
  have new: "subs (the_bus H) (next_id (the_bus H)) = None" by (rule ids_fresh [OF inv(1) assms(3)])
  have old: "tx s < length (chans (the_bus H))" if "subs (the_bus H) sid' = Some s" for sid' s
    using inv(1) that by (simp add: ids_aligned_def)
  show ?thesis
    using eq new inv(2) ch_bounded [OF assms(1)]
    by (auto simp: subscribe_def Let_def drop_sub_def nth_append dest: old)
qed

lemma unsubscribe_offer:
  assumes wf: "wf_bus ch_ok b" and sub: "subs b sid = Some s"
    and it: "iterates order (unsubscribe drop_tx sid b)" and msg: "wf_message msg"
    and eq: "offer ch_send order clock msg (unsubscribe drop_tx sid b) = Inr (r, b')"
  shows "sid \<notin> subscribers b' tp \<and> chans b' ! tx s = drop_tx (chans b ! tx s) \<and>
    queued (chans b' ! tx s) = queued (chans b ! tx s) \<and>
    (queued (chans b' ! tx s) = [] \<longrightarrow> fst (ch_recv (chans b' ! tx s)) = Inl RecvDisconnected)"
proof -
  let ?u = "unsubscribe drop_tx sid b" and ?c = "drop_tx (chans b ! tx s)"
  have tx: "tx s < length (chans b)" and ok: "ch_ok (chans b ! tx s)"
    using wf_bus_tx [OF wf sub] wf_bus_chan [OF wf] by auto
  have wf': "wf_bus ch_ok ?u" using unsubscribe_wf [OF wf] ch_drop_tx by blast
  have c: "chans ?u ! tx s = ?c" using tx sub by (simp add: unsubscribe_def drop_sub_def)
  have "\<not> (\<exists>s'\<in>ran (subs ?u). tx s' = tx s \<and> filter_matches (sub_filter s') (topic_of msg))"
    using wf_bus_inj [OF wf _ sub] by (auto simp: unsubscribe_def ran_def split: if_splits)
  then have "chans b' ! tx s = ?c" and subs: "subs b' = subs ?u"
    using eq offer_spec [OF wf' it msg, of ch_send clock] c tx by (auto simp: unsubscribe_def)
  moreover have "ch_recv ?c = (Inl RecvDisconnected, ?c)" if "queued ?c = []"
    using ch_recv_empty [of ?c] ch_drop_tx [OF ok] that by simp
  ultimately show ?thesis
    using ch_drop_tx [OF ok] by (auto simp: subscribers_def unsubscribe_def)
qed

end

interpretation ring_bus: bus_over_channel rc_send rc_queued rc_cap rc_rx rc_ok rc_bounded rc_recv
  rc_tx rc_drop_tx rc_drop_rx is_power_of_two
  by unfold_locales

section \<open>A concrete bus\<close>

text \<open>Queues of one message, one subscription to \<open>a*\<close>, two offers of a message with topic \<open>ab\<close>.\<close>

definition ex_msg :: message where
  "ex_msg = \<lparr>timestamp_ns = 0, topic = pad_to 32 [97, 98], payload = pad_to 24 [1]\<rparr>"

definition ex_bus1 :: "message ring_channel bus" where
  "ex_bus1 = snd (subscribe rc_bounded rc_drop_tx [97, 42] (bus_new 1))"

definition ex_offer :: "message ring_channel bus \<Rightarrow> offer_result \<times> message ring_channel bus" where
  "ex_offer b = (case offer rc_send [0] (Some 5) ex_msg b of Inr rb \<Rightarrow> rb)"

definition ex_bus2 :: "message ring_channel bus" where
  "ex_bus2 = snd (ex_offer ex_bus1)"

definition ex_bus3 :: "message ring_channel bus" where
  "ex_bus3 = snd (ex_offer ex_bus2)"

lemma wf_ex_msg: "wf_message ex_msg"
  by (simp add: wf_message_def ex_msg_def)

lemma ex_offer_eq: "offer rc_send [0] (Some 5) ex_msg b = Inr (ex_offer b)"
  by (simp add: ex_offer_def offer_def topic_str_eq wf_ex_msg Let_def del: offer_loop.simps)

abbreviation ex_reach :: "message ring_channel bus_hist \<Rightarrow> bool" where
  "ex_reach \<equiv> bus_reach rc_send rc_bounded rc_recv rc_drop_tx rc_drop_rx 1"

lemma ex_iterates: "iterates [0] ex_bus1" "iterates [0] ex_bus2"
proof -
  have dom: "subs ex_bus1 = [0 \<mapsto> \<lparr>sub_filter = Prefix [97], tx = 0\<rparr>]"
    by (simp add: ex_bus1_def subscribe_def bus_new_def filter_parse_def Let_def)
  then show "iterates [0] ex_bus1" by (simp add: iterates_def)
  have "subs (snd (offer_loop snd_op tp m ss rb)) = subs (snd rb)"
    for snd_op tp m ss and rb :: "offer_result \<times> message ring_channel bus"
    by (induction snd_op tp m ss rb rule: offer_loop.induct)
      (auto simp: Let_def split: prod.split sum.split try_send_error.split)
  then have "subs ex_bus2 = subs ex_bus1"
    by (simp add: ex_bus2_def ex_offer_def offer_def topic_str_eq wf_ex_msg Let_def del: offer_loop.simps)
  with dom show "iterates [0] ex_bus2" by (simp add: iterates_def)
qed

lemma ex_values:
  "fst (ex_offer ex_bus1) = \<lparr>sent = 1, dropped = 0\<rparr>"
  "fst (ex_offer ex_bus2) = \<lparr>sent = 0, dropped = 1\<rparr>"
  "length (chans ex_bus3) = 1"
  "map rc_queued (chans ex_bus2) = [[ex_msg\<lparr>timestamp_ns := 5\<rparr>]]"
  "drop_count ex_bus3 = 1"
  by code_simp+

lemma ex_history:
  obtains H where "ex_reach H" "the_bus H = ex_bus3"
    "results H = [\<lparr>sent = 1, dropped = 0\<rparr>, \<lparr>sent = 0, dropped = 1\<rparr>]"
proof -
  let ?H0 = "\<lparr>the_bus = bus_new 1, results = [], put = (\<lambda>_. []), out = (\<lambda>_. []), gone = {}\<rparr>
    :: message ring_channel bus_hist"
  let ?H1 = "?H0\<lparr>the_bus := ex_bus1\<rparr>"
  have r1: "ex_reach ?H1"
    using bus_reach.reach_subscribe [OF bus_reach.reach_new, of rc_send rc_bounded rc_recv rc_drop_tx rc_drop_rx 1 "[97, 42]"]
    by (simp add: ex_bus1_def)
  have o1: "offer rc_send [0] (Some 5) ex_msg ex_bus1 = Inr (\<lparr>sent = 1, dropped = 0\<rparr>, ex_bus2)"
    by (metis ex_offer_eq ex_values(1) ex_bus2_def prod.collapse)
  have o2: "offer rc_send [0] (Some 5) ex_msg ex_bus2 = Inr (\<lparr>sent = 0, dropped = 1\<rparr>, ex_bus3)"
    by (metis ex_offer_eq ex_values(2) ex_bus3_def prod.collapse)
  let ?H2 = "?H1\<lparr>the_bus := ex_bus2, results := results ?H1 @ [\<lparr>sent = 1, dropped = 0\<rparr>],
    put := (\<lambda>h. put ?H1 h @ put_by_offer rc_send (stamp (Some 5) ex_msg) (the_bus ?H1) h)\<rparr>"
  have r2: "ex_reach ?H2"
    by (rule bus_reach.reach_offer [OF r1]) (use ex_iterates(1) wf_ex_msg o1 in simp_all)
  let ?H3 = "?H2\<lparr>the_bus := ex_bus3, results := results ?H2 @ [\<lparr>sent = 0, dropped = 1\<rparr>],
    put := (\<lambda>h. put ?H2 h @ put_by_offer rc_send (stamp (Some 5) ex_msg) (the_bus ?H2) h)\<rparr>"
  have r3: "ex_reach ?H3"
    by (rule bus_reach.reach_offer [OF r2]) (use ex_iterates(2) wf_ex_msg o2 in simp_all)
  show ?thesis by (rule that [OF r3]) simp_all
qed

section \<open>Properties\<close>

lemmas ring_axioms = ring_bus.bus_over_channel_axioms

lemma rc_new_ok: "rc_ok (rc_bounded 1)"
  by (rule rc.ch_bounded [THEN conjunct1]) code_simp

lemma rc_drop_tx_ok: "rc_ok c \<Longrightarrow> rc_ok (rc_drop_tx c)"
  by (simp add: rc_defs)

lemma ex_bus1_wf: "wf_bus rc_ok ex_bus1"
  unfolding ex_bus1_def
  by (rule subscribe_wf) (simp_all add: wf_bus_new rc_new_ok rc_drop_tx_ok, simp add: bus_new_def rc_new_ok)

lemma ex_bus2_wf: "wf_bus rc_ok ex_bus2"
  unfolding ex_bus2_def
  by (rule offer_wf [OF ex_bus1_wf ex_iterates(1) wf_ex_msg, of rc_send "Some 5" "fst (ex_offer ex_bus1)"])
    (simp_all add: ex_offer_eq rc.ch_send_ok)

lemma wf_bus_chans:
  "wf_bus ok b \<Longrightarrow> length cs = length (chans b) \<Longrightarrow> list_all ok cs \<Longrightarrow> wf_bus ok (b\<lparr>chans := cs\<rparr>)"
  unfolding wf_bus_def by (intro conjI) (simp, simp, blast, simp)

text \<open>What a message built by \<open>Message::new\<close> reports as its topic.\<close>

definition topic_as_sent :: "str \<Rightarrow> str" where
  "topic_as_sent tp = (if length tp \<le> 32 then tp else if is_char_boundary 32 tp then take 32 tp else [])"

lemma topic_of_new:
  assumes "utf8_valid tp" "0 \<notin> set tp" "message_new tp pl = Inr m"
  shows "topic_of m = topic_as_sent tp" and "wf_message m"
  using assms utf8_valid_take_iff [OF assms(1), of 32]
  by (auto simp: message_new_eq topic_of_def message_new_topic_prefix topic_as_sent_def)

lemma subscribers_iff:
  "sid \<in> subscribers b tp \<longleftrightarrow> (\<exists>s. subs b sid = Some s \<and> filter_matches (sub_filter s) tp)"
  by (simp add: subscribers_def)

text \<open>
  C14: Routing, from the string to the receiver.  Let \<open>tp\<close> be valid UTF-8 without NUL bytes.  The
  message built for it reports the topic \<open>t\<close>: \<open>tp\<close> cut at 32 bytes, or the empty topic when the cut
  would split a character.  Offered right after a subscription with pattern \<open>pat\<close>, on a bus of
  non-zero capacity and in whatever state it is otherwise, the message is in the channel of the
  new receiver exactly when \<open>pat\<close> ends in an asterisk and the rest is a prefix of \<open>t\<close>, or \<open>pat\<close> does
  not end in one and is \<open>t\<close>; if not, the channel stays empty.
\<close>

theorem subscription_routing:
  assumes "bus_over_channel ch_send queued ch_cap rx_alive ch_ok ch_bounded ch_recv tx_alive drop_tx drop_rx cap_ok"
    and "wf_bus ch_ok b" and "cap_ok (capacity b)" and "0 < capacity b"
    and "utf8_valid tp" and "0 \<notin> set tp"
    and "t = (if length tp \<le> 32 then tp else if utf8_valid (take 32 tp) then take 32 tp else [])"
    and "subscribe ch_bounded drop_tx pat b = ((sid, h), b1)" and "iterates order b1"
  shows "\<exists>m r b2. message_new tp pl = Inr m \<and> topic_str m = Inr t \<and>
    offer ch_send order clock m b1 = Inr (r, b2) \<and>
    queued (chans b2 ! h) =
      (if (\<exists>p. pat = p @ [0x2A] \<and> prefix p t) \<or> pat = t \<and> (pat = [] \<or> last pat \<noteq> 0x2A) then [stamp clock m] else [])"
proof -
  note new = bus_over_channel.new_subscription [OF assms(1-3,8)]
  obtain m where m: "message_new tp pl = Inr m" by (simp add: message_new_eq)
  note topic = topic_of_new [OF assms(5,6) m]
  have t: "topic_of m = t"
    using topic(1) utf8_valid_take_iff [OF assms(5), of 32] assms(7) by (auto simp: topic_as_sent_def)
  obtain r b2 where o: "offer ch_send order clock m b1 = Inr (r, b2)" "subs b2 = subs b1"
    using offer_spec [OF new(1) assms(9) topic(2), of ch_send clock] by auto
  have h: "chan_of b2 sid = chans b2 ! h" using new(2) o(2) by (simp add: chan_of_def)
  have room: "rx_alive (chan_of b1 sid)" "queued (chan_of b1 sid) = []" "0 < ch_cap (chan_of b1 sid)"
    using bus_over_channel.new_channel_room [OF assms(1,3)] assms(4) unfolding new(3) by (simp_all add: unat_gt_0)
  have "sid \<in> subscribers b1 t \<longleftrightarrow> (\<exists>p. pat = p @ [0x2A] \<and> prefix p t) \<or> pat = t \<and> (pat = [] \<or> last pat \<noteq> 0x2A)"
    using new(2) by (cases pat rule: rev_cases) (auto simp: subscribers_iff filter_parse_def)
  with bus_over_channel.offer_channels(3) [OF assms(1) new(1) assms(9) topic(2) o(1) new(2)] room
  have "queued (chans b2 ! h) =
      (if (\<exists>p. pat = p @ [0x2A] \<and> prefix p t) \<or> pat = t \<and> (pat = [] \<or> last pat \<noteq> 0x2A) then [stamp clock m] else [])"
    unfolding t h by (auto split: if_splits)
  with m o(1) topic_str_eq [OF topic(2)] t show ?thesis by auto
qed

theorem subscription_routing_witness:
  "\<exists>m r b2. message_new (replicate 31 97 @ [0xC3, 0xA9]) [] = Inr m \<and> topic_str m = Inr [] \<and>
     offer rc_send [0] (Some 5) m (snd (subscribe rc_bounded rc_drop_tx [0x2A] (bus_new 2))) = Inr (r, b2) \<and>
     rc_queued (chans b2 ! 0) = [stamp (Some 5) m]"
proof -
  have utf: "utf8_valid (replicate 31 97 @ [0xC3, 0xA9])" "\<not> utf8_valid (take 32 (replicate 31 97 @ [0xC3, 0xA9]))"
    by code_simp+
  have sub: "subscribe rc_bounded rc_drop_tx [0x2A] (bus_new 2) =
      ((0, 0), snd (subscribe rc_bounded rc_drop_tx [0x2A] (bus_new 2)))"
    by (simp add: subscribe_def bus_new_def Let_def)
  have it: "iterates [0] (snd (subscribe rc_bounded rc_drop_tx [0x2A] (bus_new 2)))"
    by (simp add: subscribe_def bus_new_def Let_def iterates_def)
  have cap: "is_power_of_two (capacity (bus_new 2 :: message ring_channel bus))" "0 < capacity (bus_new 2 :: message ring_channel bus)"
    by code_simp+
  from subscription_routing [OF ring_axioms wf_bus_new cap utf(1) _ refl sub it, of "[]" "Some 5"] utf(2)
  show ?thesis by simp
qed

lemma length_topic_of: "wf_message m \<Longrightarrow> length (topic_of m) \<le> 32"
  unfolding topic_of_def topic_prefix_def wf_message_def
  using length_takeWhile_le [of "\<lambda>a. a \<noteq> 0" "topic m"] by auto

text \<open>
  A subscription to an exact topic of more than 32 bytes never receives anything: no message,
  also one published under the very same topic, changes its channel.
\<close>

lemma long_topic_never_matches:
  assumes "wf_bus ok b" and "iterates order b" and "wf_message msg"
    and "subs b sid = Some s" and "sub_filter s = filter_parse pat"
    and "32 < length pat" and "last pat \<noteq> 0x2A"
    and "offer chan_send order clock msg b = Inr (r, b')"
  shows "sid \<notin> subscribers b (topic_of msg) \<and> chans b' ! tx s = chans b ! tx s"
proof -
  have "\<not> filter_matches (sub_filter s) (topic_of msg)"
    using length_topic_of [OF assms(3)] assms(5-7) by (auto simp: filter_parse_def)
  with offer_chan [OF assms(1-3,8,4)] assms(4) show ?thesis by (simp add: subscribers_iff)
qed

definition ex_long :: "message ring_channel bus" where
  "ex_long = snd (subscribe rc_bounded rc_drop_tx (replicate 40 97) (bus_new 1))"

lemma long_topic_never_matches_example:
  "\<exists>m. message_new (replicate 40 97) [] = Inr m \<and> 0 \<notin> subscribers ex_long (topic_of m)"
proof -
  let ?s = "\<lparr>sub_filter = filter_parse (replicate 40 97), tx = 0\<rparr>"
  obtain m where m: "message_new (replicate 40 97) [] = Inr m" "wf_message m"
    by (simp add: message_new_eq)
  have subs: "subs ex_long = [0 \<mapsto> ?s]"
    by (simp add: ex_long_def subscribe_def bus_new_def Let_def)
  have wf: "wf_bus rc_ok ex_long"
    unfolding ex_long_def
    by (rule subscribe_wf) (simp_all add: wf_bus_new rc_drop_tx_ok, simp add: bus_new_def rc_new_ok)
  obtain r b' where o: "offer rc_send [0] None m ex_long = Inr (r, b')"
    using offer_spec [OF wf _ m(2), of "[0]"] subs by (auto simp: iterates_def)
  show ?thesis
    using long_topic_never_matches [OF wf _ m(2) _ _ _ _ o, of 0 ?s "replicate 40 97"] subs m(1)
    by (auto simp: iterates_def)
qed

text \<open>
  C10: An offer never panics.  Its stamped message is put at the end of the queue of exactly the
  matching subscriptions whose receiver is connected and whose queue has room; no other channel
  changes.  \<open>sent\<close> is their number, \<open>dropped\<close> that of the matching connected ones whose queue is full,
  both modulo \<open>2 ^ 64\<close>; \<open>drop_count\<close> grows by the number dropped, the subscriptions stay, and \<open>publish\<close>
  returns \<open>sent\<close> with the same effect.
\<close>

theorem offer_result_counts:
  assumes "bus_over_channel ch_send queued ch_cap rx_alive ch_ok ch_bounded ch_recv tx_alive drop_tx drop_rx cap_ok"
    and "wf_bus ch_ok b" and "iterates order b" and "wf_message msg"
  shows "\<exists>r b'. offer ch_send order clock msg b = Inr (r, b') \<and>
    (\<forall>sid\<in>dom (subs b).
       if sid \<in> subscribers b (topic_of msg) \<and> rx_alive (chan_of b sid) \<and> length (queued (chan_of b sid)) < ch_cap (chan_of b sid)
       then queued (chan_of b' sid) = queued (chan_of b sid) @ [stamp clock msg]
       else chan_of b' sid = chan_of b sid) \<and>
    length (chans b') = length (chans b) \<and>
    (\<forall>h<length (chans b). h \<notin> tx ` ran (subs b) \<longrightarrow> chans b' ! h = chans b ! h) \<and>
    sent r = of_nat (card {sid \<in> subscribers b (topic_of msg). rx_alive (chan_of b sid) \<and>
      length (queued (chan_of b sid)) < ch_cap (chan_of b sid)}) \<and>
    dropped r = of_nat (card {sid \<in> subscribers b (topic_of msg). rx_alive (chan_of b sid) \<and>
      length (queued (chan_of b sid)) = ch_cap (chan_of b sid)}) \<and>
    drop_count b' = drop_count b + dropped r \<and> wf_bus ch_ok b' \<and> subs b' = subs b \<and>
    publish ch_send order clock msg b = Inr (sent r, b')"
proof -
  from bus_over_channel.offer_total [OF assms, of clock] obtain r b' where
    o: "offer ch_send order clock msg b = Inr (r, b')" and rest:
    "sent r = of_nat (card {sid \<in> subscribers b (topic_of msg). rx_alive (chan_of b sid) \<and>
      length (queued (chan_of b sid)) < ch_cap (chan_of b sid)}) \<and>
    dropped r = of_nat (card {sid \<in> subscribers b (topic_of msg). rx_alive (chan_of b sid) \<and>
      length (queued (chan_of b sid)) = ch_cap (chan_of b sid)}) \<and>
    drop_count b' = drop_count b + dropped r \<and> wf_bus ch_ok b' \<and> subs b' = subs b \<and>
    publish ch_send order clock msg b = Inr (sent r, b')" by blast
  note chans = bus_over_channel.offer_channels [OF assms o]
  have "\<forall>sid\<in>dom (subs b).
       if sid \<in> subscribers b (topic_of msg) \<and> rx_alive (chan_of b sid) \<and> length (queued (chan_of b sid)) < ch_cap (chan_of b sid)
       then queued (chan_of b' sid) = queued (chan_of b sid) @ [stamp clock msg]
       else chan_of b' sid = chan_of b sid"
    using chans(3) by blast
  with o rest chans(1,2) show ?thesis by (intro exI [of _ r] exI [of _ b']) simp
qed

theorem offer_result_counts_witness:
  "\<exists>r b'. offer rc_send [0] (Some 5) ex_msg ex_bus2 = Inr (r, b') \<and> dropped r = 1 \<and>
     drop_count b' = drop_count ex_bus2 + 1 \<and> publish rc_send [0] (Some 5) ex_msg ex_bus2 = Inr (0, b')"
proof -
  have "sent (fst (ex_offer ex_bus2)) = 0" "dropped (fst (ex_offer ex_bus2)) = 1"
    by (simp_all add: ex_values)
  with offer_result_counts [OF ring_axioms ex_bus2_wf ex_iterates(2) wf_ex_msg, of "Some 5"]
  show ?thesis by (auto simp: ex_offer_eq)
qed

text \<open>
  The order in which the hash map is iterated is unobservable: any two orders give the same
  result, the same drop count and the same channels.
\<close>

lemma offer_order_irrelevant:
  assumes "wf_bus ok b" and "iterates order b" and "iterates order' b" and "wf_message msg"
  shows "offer chan_send order clock msg b = offer chan_send order' clock msg b"
  by (rule offer_order [OF assms])

definition ex_two :: "message ring_channel bus" where
  "ex_two = snd (subscribe rc_bounded rc_drop_tx [97, 98] ex_bus2)"

lemma ex_two_ok: "wf_bus rc_ok ex_two" "iterates [0, 1] ex_two" "iterates [1, 0] ex_two"
proof -
  have "capacity ex_bus2 = 1" by code_simp
  then show "wf_bus rc_ok ex_two"
    unfolding ex_two_def by (intro subscribe_wf) (simp_all add: ex_bus2_wf rc_new_ok rc_drop_tx_ok)
  have "dom (subs ex_two) = insert (next_id ex_bus2) (dom (subs ex_bus2))"
    by (simp add: ex_two_def subscribe_def Let_def)
  moreover have "next_id ex_bus2 = 1" by code_simp
  moreover have "dom (subs ex_bus2) = {0}" using ex_iterates(2) by (simp add: iterates_def)
  ultimately have "dom (subs ex_two) = {0, 1}" by auto
  then show "iterates [0, 1] ex_two" "iterates [1, 0] ex_two"
    by (simp_all add: iterates_def insert_commute)
qed

lemma offer_order_irrelevant_example:
  "offer rc_send [0, 1] (Some 5) ex_msg ex_two = offer rc_send [1, 0] (Some 5) ex_msg ex_two \<and>
   (case offer rc_send [0, 1] (Some 5) ex_msg ex_two of Inr (r, b') \<Rightarrow> sent r = 1 \<and> dropped r = 1)"
proof
  show "offer rc_send [0, 1] (Some 5) ex_msg ex_two = offer rc_send [1, 0] (Some 5) ex_msg ex_two"
    by (rule offer_order_irrelevant [OF ex_two_ok wf_ex_msg])
  show "case offer rc_send [0, 1] (Some 5) ex_msg ex_two of Inr (r, b') \<Rightarrow> sent r = 1 \<and> dropped r = 1"
    by code_simp
qed

text \<open>
  A slow subscriber affects no other: what an offer puts into the channel of a subscription
  depends only on that channel, whatever state every other channel is in.
\<close>

lemma slow_subscriber_isolated:
  assumes "wf_bus ok b" and "wf_bus ok (b\<lparr>chans := cs\<rparr>)" and "iterates order b" and "wf_message msg"
    and "subs b sid = Some s" and "cs ! tx s = chans b ! tx s"
    and "offer chan_send order clock msg b = Inr (r1, b1)"
    and "offer chan_send order clock msg (b\<lparr>chans := cs\<rparr>) = Inr (r2, b2)"
  shows "chans b1 ! tx s = chans b2 ! tx s"
proof -
  have "iterates order (b\<lparr>chans := cs\<rparr>)" using assms(3) by (simp add: iterates_def)
  from offer_chan [OF assms(2) this assms(4,8)] offer_chan [OF assms(1,3,4,7,5)] assms(5,6)
  show ?thesis by simp
qed

lemma slow_subscriber_isolated_example:
  "\<exists>r1 b1 r2 b2. offer rc_send [0, 1] (Some 5) ex_msg ex_two = Inr (r1, b1) \<and>
     offer rc_send [0, 1] (Some 5) ex_msg (ex_two\<lparr>chans := [rc_bounded 1, chans ex_two ! 1]\<rparr>) = Inr (r2, b2) \<and>
     chans b1 ! 1 = chans b2 ! 1 \<and> r1 \<noteq> r2"
proof -
  let ?b = "ex_two\<lparr>chans := [rc_bounded 1, chans ex_two ! 1]\<rparr>"
  have two: "length (chans ex_two) = 2" by code_simp
  have wf: "wf_bus rc_ok ?b"
    using wf_bus_chan [OF ex_two_ok(1)] two
    by (intro wf_bus_chans [OF ex_two_ok(1)]) (simp_all add: rc_new_ok)
  have it: "iterates [0, 1] ?b" using ex_two_ok(2) by (simp add: iterates_def)
  obtain r1 b1 r2 b2 where o: "offer rc_send [0, 1] (Some 5) ex_msg ex_two = Inr (r1, b1)"
      "offer rc_send [0, 1] (Some 5) ex_msg ?b = Inr (r2, b2)"
    using offer_spec [OF ex_two_ok(1,2) wf_ex_msg] offer_spec [OF wf it wf_ex_msg] by blast
  have "subs ex_two 1 = Some \<lparr>sub_filter = Exact [97, 98], tx = 1\<rparr>"
  proof -
    have "next_id ex_bus2 = 1" "length (chans ex_bus2) = 1" by code_simp+
    then show ?thesis by (simp add: ex_two_def subscribe_def Let_def filter_parse_def)
  qed
  then have "chans b1 ! 1 = chans b2 ! 1"
    using slow_subscriber_isolated [OF ex_two_ok(1) wf ex_two_ok(2) wf_ex_msg _ _ o] by fastforce
  moreover have "dropped (fst (projr (offer rc_send [0, 1] (Some 5) ex_msg ex_two))) = 1"
      "dropped (fst (projr (offer rc_send [0, 1] (Some 5) ex_msg ?b))) = 0"
    by code_simp+
  ultimately show ?thesis using o by fastforce
qed

text \<open>
  C4: Delivery per subscriber, over any history of subscriptions, offers, receives and drops: the
  messages a receiver has returned are a prefix of the messages its channel accepted, in offer
  order; while it is alive the rest are still queued, never more than the capacity.
\<close>

theorem bus_delivery:
  assumes "bus_over_channel ch_send queued ch_cap rx_alive ch_ok ch_bounded ch_recv tx_alive drop_tx drop_rx cap_ok"
    and "cap_ok cap" and "bus_reach ch_send ch_bounded ch_recv drop_tx drop_rx cap H"
    and "h < length (chans (the_bus H))"
  shows "prefix (out H h) (put H h) \<and> length (queued (chans (the_bus H) ! h)) \<le> unat cap \<and>
    (h \<notin> gone H \<longrightarrow> put H h = out H h @ queued (chans (the_bus H) ! h))"
  by (rule bus_over_channel.reach_delivery [OF assms])

theorem bus_delivery_witness:
  "\<exists>H. ex_reach H \<and> the_bus H = ex_bus3 \<and> prefix (out H 0) (put H 0) \<and>
     length (rc_queued (chans ex_bus3 ! 0)) \<le> 1"
proof (rule ex_history)
  fix H
  assume H: "ex_reach H" "the_bus H = ex_bus3"
  have "is_power_of_two 1" by code_simp
  from bus_delivery [OF ring_axioms this H(1), of 0] H ex_values(3) show ?thesis by auto
qed

text \<open>
  \<open>drop_count\<close> is at every moment the sum of the \<open>dropped\<close> counts that all offers so far have
  returned.
\<close>

lemma drop_count_is_sum:
  assumes "bus_over_channel ch_send queued ch_cap rx_alive ch_ok ch_bounded ch_recv tx_alive drop_tx drop_rx cap_ok"
    and "cap_ok cap" and "bus_reach ch_send ch_bounded ch_recv drop_tx drop_rx cap H"
  shows "read_drop_count (the_bus H) = sum_list (map dropped (results H))"
  using bus_over_channel.reach_inv_h [OF assms] by (simp add: hist_inv_def read_drop_count_def)

lemma drop_count_is_sum_example:
  "\<exists>H. ex_reach H \<and> map dropped (results H) = [0, 1] \<and> read_drop_count (the_bus H) = 1"
proof (rule ex_history)
  fix H
  assume H: "ex_reach H" "results H = [\<lparr>sent = 1, dropped = 0\<rparr>, \<lparr>sent = 0, dropped = 1\<rparr>]"
  have "is_power_of_two 1" by code_simp
  from drop_count_is_sum [OF ring_axioms this H(1)] H show ?thesis by auto
qed

text \<open>
  As long as fewer than \<open>2 ^ 64\<close> subscriptions have been made, a new subscription gets an id
  that no live subscription has and a channel of its own, so it replaces and shares nothing.
\<close>

lemma subscribe_fresh:
  assumes "bus_over_channel ch_send queued ch_cap rx_alive ch_ok ch_bounded ch_recv tx_alive drop_tx drop_rx cap_ok"
    and "cap_ok cap" and "bus_reach ch_send ch_bounded ch_recv drop_tx drop_rx cap H"
    and "length (chans (the_bus H)) < 2 ^ 64"
    and "subscribe ch_bounded drop_tx pat (the_bus H) = ((sid, h), b')"
  shows "subs (the_bus H) sid = None \<and> subs b' sid = Some \<lparr>sub_filter = filter_parse pat, tx = h\<rparr> \<and>
    (\<forall>sid' s. subs (the_bus H) sid' = Some s \<longrightarrow> subs b' sid' = Some s \<and> tx s \<noteq> h) \<and>
    (\<forall>j<length (chans (the_bus H)). chans b' ! j = chans (the_bus H) ! j) \<and>
    queued (chans b' ! h) = [] \<and> ch_cap (chans b' ! h) = unat cap"
  by (rule bus_over_channel.reach_subscribe_fresh [OF assms])

lemma subscribe_fresh_example:
  "\<exists>h b'. subscribe rc_bounded rc_drop_tx [97] ex_bus3 = ((1, h), b') \<and> subs ex_bus3 1 = None \<and>
     chans b' ! 0 = chans ex_bus3 ! 0"
proof (rule ex_history)
  fix H
  assume H: "ex_reach H" "the_bus H = ex_bus3"
  have one: "is_power_of_two 1" by code_simp
  have "next_id ex_bus3 = 1" by code_simp
  then obtain h b' where s: "subscribe rc_bounded rc_drop_tx [97] ex_bus3 = ((1, h), b')"
    by (simp add: subscribe_def Let_def)
  show ?thesis
    using subscribe_fresh [OF ring_axioms one H(1), of "[97]" 1 h b'] s ex_values(3) H(2) by auto
qed

text \<open>
  C39: After \<open>unsubscribe\<close> no offer reaches the subscription's channel.  Its receiver still gets
  every message queued before, and finds the channel disconnected once it has them all.
\<close>

theorem unsubscribe_stops:
  assumes "bus_over_channel ch_send queued ch_cap rx_alive ch_ok ch_bounded ch_recv tx_alive drop_tx drop_rx cap_ok"
    and "wf_bus ch_ok b" and "subs b sid = Some s"
    and "iterates order (unsubscribe drop_tx sid b)" and "wf_message msg"
    and "offer ch_send order clock msg (unsubscribe drop_tx sid b) = Inr (r, b')"
  shows "sid \<notin> subscribers b' tp \<and> chans b' ! tx s = drop_tx (chans b ! tx s) \<and>
    queued (chans b' ! tx s) = queued (chans b ! tx s) \<and>
    (queued (chans b' ! tx s) = [] \<longrightarrow> fst (ch_recv (chans b' ! tx s)) = Inl RecvDisconnected)"
  by (rule bus_over_channel.unsubscribe_offer [OF assms])

theorem unsubscribe_stops_witness:
  "\<exists>r b'. offer rc_send [] (Some 5) ex_msg (unsubscribe rc_drop_tx 0 ex_bus2) = Inr (r, b') \<and>
     rc_queued (chans b' ! 0) = [ex_msg\<lparr>timestamp_ns := 5\<rparr>]"
proof -
  have dom: "dom (subs ex_bus2) = {0}" using ex_iterates(2) by (auto simp: iterates_def)
  then obtain s where s: "subs ex_bus2 0 = Some s" by blast
  have it: "iterates [] (unsubscribe rc_drop_tx 0 ex_bus2)"
    using dom by (simp add: iterates_def unsubscribe_def)
  have "tx (the (subs ex_bus2 0)) = 0" by code_simp
  with s have tx: "tx s = 0" by simp
  obtain r b' where o: "offer rc_send [] (Some 5) ex_msg (unsubscribe rc_drop_tx 0 ex_bus2) = Inr (r, b')"
    by (simp add: offer_def Let_def topic_str_eq wf_ex_msg)
  have "length (chans ex_bus2) = 1" by code_simp
  then have "rc_queued (chans ex_bus2 ! 0) = [ex_msg\<lparr>timestamp_ns := 5\<rparr>]"
    using ex_values(4) by (cases "chans ex_bus2") auto
  moreover have "rc_queued (chans b' ! 0) = rc_queued (chans ex_bus2 ! 0)"
    using unsubscribe_stops [OF ring_axioms ex_bus2_wf s it wf_ex_msg o] unfolding tx by blast
  ultimately show ?thesis using o by simp
qed

text \<open>
  Everything a channel has accepted, and so everything a receiver has returned, is a message
  whose arrays have the lengths of the type.
\<close>

lemma reach_put_wf:
  "bus_reach snd_op bounded rcv_op dtx drx cap H \<Longrightarrow> list_all wf_message (put H h)"
  by (induction rule: bus_reach.induct) (auto simp: put_by_offer_def)

text \<open>
  C38: The data of a bus keep their type, whatever its history: the id of a live subscription is the
  number of its channel, which exists and belongs to no other subscription; senders of a channel
  are alive exactly while its subscription is; every channel has the capacity of the bus; and
  every message a receiver has returned has fields of the right lengths, so that reading its
  topic and its payload never panics.
\<close>

theorem bus_well_formed:
  assumes "bus_over_channel ch_send queued ch_cap rx_alive ch_ok ch_bounded ch_recv tx_alive drop_tx drop_rx cap_ok"
    and "cap_ok cap" and "bus_reach ch_send ch_bounded ch_recv drop_tx drop_rx cap H"
  shows "(\<forall>sid s. subs (the_bus H) sid = Some s \<longrightarrow> sid = of_nat (tx s) \<and> tx s < length (chans (the_bus H)) \<and>
      (\<forall>sid' s'. subs (the_bus H) sid' = Some s' \<longrightarrow> tx s' = tx s \<longrightarrow> sid' = sid)) \<and>
    (\<forall>h<length (chans (the_bus H)). ch_cap (chans (the_bus H) ! h) = unat cap \<and>
      (tx_alive (chans (the_bus H) ! h) \<longleftrightarrow> (\<exists>sid s. subs (the_bus H) sid = Some s \<and> tx s = h)) \<and>
      (\<forall>m\<in>set (out H h). wf_message m \<and> (\<exists>t p. topic_str m = Inr t \<and> payload_bytes m = Inr p)))"
proof -
  note inv = bus_over_channel.reach_inv_h [OF assms]
  have chan: "chan_inv queued ch_cap rx_alive tx_alive ch_ok (unat cap) H h" if "h < length (chans (the_bus H))" for h
    using inv that by (simp add: hist_inv_def)
  have "wf_message m" if "h < length (chans (the_bus H))" "m \<in> set (out H h)" for h m
    using chan [OF that(1)] that(2) reach_put_wf [OF assms(3), of h]
    by (auto simp: chan_inv_def Let_def list_all_iff dest: set_mono_prefix)
  moreover have "sid' = sid" if "subs (the_bus H) sid = Some s" "subs (the_bus H) sid' = Some s'" "tx s' = tx s"
    for sid s sid' s'
  proof -
    have "sid = of_nat (tx s)" "sid' = of_nat (tx s')"
      using inv that(1,2) unfolding hist_inv_def ids_aligned_def by blast+
    with that(3) show ?thesis by simp
  qed
  ultimately show ?thesis
    using inv chan
    by (auto simp: hist_inv_def ids_aligned_def chan_inv_def Let_def tx_in_ran topic_str_eq payload_bytes_eq)
qed

theorem bus_well_formed_witness:
  "\<exists>H. ex_reach H \<and> the_bus H = ex_bus3 \<and> rc_cap (chans ex_bus3 ! 0) = 1 \<and>
     (\<forall>m\<in>set (out H 0). wf_message m)"
proof (rule ex_history)
  fix H
  assume H: "ex_reach H" "the_bus H = ex_bus3"
  have "is_power_of_two 1" by code_simp
  from bus_well_formed [OF ring_axioms this H(1)] H ex_values(3) show ?thesis by auto
qed

end
