(* ===== verification/Cli.thy ===== *)
theory Cli
  imports Bus
begin

text \<open>
  The demonstration program of \<open>crates/cli/src/main.rs\<close>: one subscription, one message published
  and received on a new bus.  The reading of the clock, the channel and
  \<open>String::from_utf8_lossy\<close>, of which it relies only on its leaving valid UTF-8 as it is, are
  parameters.
\<close>

section \<open>The program\<close>

datatype cli_output = Line u64 str str | RecvFailed try_recv_error

definition cli_main ::
    "(message \<Rightarrow> 'c \<Rightarrow> (message try_send_error + unit) \<times> 'c) \<Rightarrow> (usize \<Rightarrow> 'c) \<Rightarrow> ('c \<Rightarrow> 'c)
      \<Rightarrow> ('c \<Rightarrow> (try_recv_error + message) \<times> 'c) \<Rightarrow> (u8 list \<Rightarrow> str) \<Rightarrow> u64 list \<Rightarrow> nat option
      \<Rightarrow> panic + cli_output" where
  "cli_main chan_send bounded drop_tx chan_recv lossy order clock =
     (let b = bus_new 1024;
          ((sid, rx), b) = subscribe bounded drop_tx (bytes_of ''demo'') b in
      and_then (message_new (bytes_of ''demo'') (bytes_of ''hello from cadence'')) (\<lambda>msg.
      and_then (publish chan_send order clock msg b) (\<lambda>(n, b).
      (case fst (chan_recv (chans b ! rx)) of
         Inl e \<Rightarrow> Inr (RecvFailed e)
       | Inr m \<Rightarrow>
           and_then (topic_str m) (\<lambda>tp.
           and_then (payload_bytes m) (\<lambda>pl.
           Inr (Line (timestamp_ns m) tp (lossy pl))))))))"

section \<open>What it prints\<close>

definition demo_message :: message where
  "demo_message = \<lparr>timestamp_ns = 0, topic = pad_to 32 (bytes_of ''demo''),
     payload = pad_to 24 (bytes_of ''hello from cadence'')\<rparr>"

lemma demo_message_wf: "wf_message demo_message"
  by (simp add: demo_message_def)

lemma utf8_bytes_of: "list_all (\<lambda>c. of_char c < (0x80 :: u8)) s \<Longrightarrow> utf8_valid (bytes_of s)"
  by (rule utf8_valid_ascii) (simp add: bytes_of_def list_all_iff)

lemma demo_ascii: "utf8_valid (bytes_of ''demo'')" "utf8_valid (bytes_of ''hello from cadence'')"
  by (rule utf8_bytes_of, code_simp)+

lemma demo_topic: "topic_of demo_message = bytes_of ''demo''"
proof -
  have "0 \<notin> set (bytes_of ''demo'')" by code_simp
  moreover have "length (bytes_of ''demo'') \<le> 32" by (simp add: bytes_of_def)
  moreover have "message_new (bytes_of ''demo'') (bytes_of ''hello from cadence'') = Inr demo_message"
    by (simp add: message_new_eq demo_message_def)
  ultimately show ?thesis
    using topic_of_new(1) [OF demo_ascii(1)] by (simp add: topic_as_sent_def)
qed

lemma demo_payload: "strip_zeros (payload demo_message) = bytes_of ''hello from cadence''"
  by code_simp

context bus_over_channel begin

lemma cli_main_prints:
  assumes "cap_ok 1024" and "\<And>bs. utf8_valid bs \<Longrightarrow> lossy bs = bs"
  shows "cli_main ch_send ch_bounded drop_tx ch_recv lossy [0] clock =
    Inr (Line (of_nat (case clock of Some n \<Rightarrow> n | None \<Rightarrow> 0)) (bytes_of ''demo'') (bytes_of ''hello from cadence''))"
proof -
  let ?b0 = "bus_new 1024 :: 'c bus"
  let ?s = "\<lparr>sub_filter = filter_parse (bytes_of ''demo''), tx = 0\<rparr>"
  define b where "b = snd (subscribe ch_bounded drop_tx (bytes_of ''demo'') ?b0)"
  let ?m = "stamp clock demo_message"
  have sub: "subscribe ch_bounded drop_tx (bytes_of ''demo'') ?b0 = ((0, 0), b)"
    by (simp add: b_def subscribe_def Let_def bus_new_def)
  have b: "subs b = [0 \<mapsto> ?s]" "chans b = [ch_bounded 1024]"
    by (simp_all add: b_def subscribe_def Let_def bus_new_def drop_sub_def)
  have new: "ch_ok (ch_bounded 1024)" "queued (ch_bounded 1024) = []" "ch_cap (ch_bounded 1024) = 1024"
      "rx_alive (ch_bounded 1024)"
    using ch_bounded [OF assms(1)] by simp_all
  have wf: "wf_bus ch_ok b"
    unfolding b_def by (rule subscribe_wf) (use new ch_drop_tx in \<open>simp_all add: wf_bus_new\<close>, simp add: bus_new_def new)
  have it: "iterates [0] b" by (simp add: iterates_def b)
  obtain r b' where o: "offer ch_send [0] clock demo_message b = Inr (r, b')" "wf_bus ch_ok b'"
      "publish ch_send [0] clock demo_message b = Inr (sent r, b')" "subs b' = subs b"
    using offer_total [OF wf it demo_message_wf, of clock] by blast
  have "filter_parse (bytes_of ''demo'') = Exact (bytes_of ''demo'')"
    by code_simp
  then have q: "queued (chans b' ! 0) = [?m]"
    using offer_queue [OF wf it demo_message_wf o(1), of 0 ?s] b new by (simp add: demo_topic)
  have ok: "ch_ok (chans b' ! 0)"
    using wf_bus_chan [OF o(2)] wf_bus_tx [OF o(2), of 0 ?s] b o(4) by simp
  obtain c' where recv: "ch_recv (chans b' ! 0) = (Inr ?m, c')"
    using ch_recv_some [OF ok q] by blast
  have "topic_str ?m = Inr (bytes_of ''demo'')"
    by (simp add: topic_str_eq demo_message_wf demo_topic)
  moreover have "payload_bytes ?m = Inr (bytes_of ''hello from cadence'')"
    by (simp add: payload_bytes_eq stamp_def demo_payload)
  moreover have "message_new (bytes_of ''demo'') (bytes_of ''hello from cadence'') = Inr demo_message"
    by (simp add: message_new_eq demo_message_def)
  ultimately show ?thesis
    using assms(2) [OF demo_ascii(2)]
    by (simp add: cli_main_def Let_def sub o(3) recv) (simp add: stamp_def)
qed

end

section \<open>Properties\<close>

text \<open>
  From end to end: on any channel that keeps the documented contract the program prints the
  timestamp the bus has put on the message, the topic \<open>demo\<close> and the payload as it was given,
  and never the error line.
\<close>

lemma cli_prints_message:
  assumes "bus_over_channel ch_send queued ch_cap rx_alive ch_ok ch_bounded ch_recv tx_alive drop_tx drop_rx cap_ok"
    and "cap_ok 1024" and "\<And>bs. utf8_valid bs \<Longrightarrow> lossy bs = bs"
  shows "cli_main ch_send ch_bounded drop_tx ch_recv lossy [0] clock =
    Inr (Line (of_nat (case clock of Some n \<Rightarrow> n | None \<Rightarrow> 0)) (bytes_of ''demo'') (bytes_of ''hello from cadence''))"
  by (rule bus_over_channel.cli_main_prints [OF assms])

lemma cli_prints_message_example:
  "cli_main rc_send rc_bounded rc_drop_tx rc_recv (\<lambda>bs. bs) [0] (Some 12) =
    Inr (Line 12 (bytes_of ''demo'') (bytes_of ''hello from cadence''))"
proof -
  have "is_power_of_two 1024" by code_simp
  from cli_prints_message [OF ring_axioms this, of "\<lambda>bs. bs" "Some 12"] show ?thesis by simp
qed

end
