(* ===== verification/Atomics.thy ===== *)
theory Atomics
  imports Prelude
begin

text \<open>
  \<open>std::sync::atomic::AtomicUsize\<close> as the ring buffer uses it.  An atomic location is its
  modification order: the list of all values stored so far, each with the mark of a release
  store.  A load may return any value that is not older than the last one the thread has seen
  there, so a thread can read stale values; it returns the entry chosen by the index \<open>k\<close>.
  A thread's view of a location is the newest index it has \<open>seen\<close> and the newest index it has
  \<open>synced\<close> with: an acquire load that reads a release store synchronises, and whatever the
  storing thread did before that store then happens before what the loading thread does next.
\<close>

datatype ordering = Relaxed | Acquire | Release

record atomic =
  history :: "(usize \<times> bool) list"

record view =
  seen :: nat
  synced :: nat

text \<open>The initial value is visible to both threads: the handles are sent to them afterwards.\<close>

definition atomic_new :: "usize \<Rightarrow> atomic" where
  "atomic_new x = \<lparr>history = [(x, True)]\<rparr>"

definition view_new :: view where
  "view_new = \<lparr>seen = 0, synced = 0\<rparr>"

definition load :: "ordering \<Rightarrow> nat \<Rightarrow> atomic \<Rightarrow> view \<Rightarrow> (usize \<times> view) option" where
  "load ord k a w =
     (if seen w \<le> k \<and> k < length (history a)
      then Some (fst (history a ! k),
             w\<lparr>seen := k,
               synced := (if ord = Acquire \<and> snd (history a ! k) then max (synced w) k else synced w)\<rparr>)
      else None)"

definition store :: "ordering \<Rightarrow> usize \<Rightarrow> atomic \<Rightarrow> view \<Rightarrow> atomic \<times> view" where
  "store ord x a w =
     (a\<lparr>history := history a @ [(x, ord = Release)]\<rparr>, w\<lparr>seen := length (history a)\<rparr>)"

text \<open>The value a location finally holds.\<close>

definition latest :: "atomic \<Rightarrow> usize" where
  "latest a = fst (last (history a))"

text \<open>A cursor that is only ever incremented by one and stored with release.\<close>

definition counts :: "nat \<Rightarrow> (usize \<times> bool) list" where
  "counts n = map (\<lambda>i. (of_nat i, True)) [0..<Suc n]"

lemma length_counts [simp]: "length (counts n) = Suc n"
  by (simp add: counts_def del: upt_Suc)

lemma counts_nth [simp]: "k \<le> n \<Longrightarrow> counts n ! k = (of_nat k, True)"
  by (simp add: counts_def del: upt_Suc)

lemma counts_Suc: "counts (Suc n) = counts n @ [(of_nat n + 1, True)]"
  by (simp add: counts_def add.commute)

lemma latest_counts: "history a = counts n \<Longrightarrow> latest a = of_nat n"
  by (cases n) (simp_all add: latest_def counts_Suc, simp add: counts_def)

lemma load_own:
  assumes "history a = counts n" and "seen w = n"
  shows "load ord k a w = Some (x, w') \<longleftrightarrow>
     k = n \<and> x = of_nat n \<and> w' = w\<lparr>seen := n, synced := (if ord = Acquire then max (synced w) n else synced w)\<rparr>"
  using assms by (cases "k = n") (auto simp: load_def split: if_splits)

lemma load_acquire:
  assumes "history a = counts n" and "synced w = seen w"
  shows "load Acquire k a w = Some (x, w') \<longleftrightarrow>
     seen w \<le> k \<and> k \<le> n \<and> x = of_nat k \<and> w' = w\<lparr>seen := k, synced := k\<rparr>"
  using assms by (auto simp: load_def less_Suc_eq_le max_def split: if_splits)

lemma store_release:
  assumes "history a = counts n"
  shows "store Release (of_nat n + 1) a w = (a\<lparr>history := counts (Suc n)\<rparr>, w\<lparr>seen := Suc n\<rparr>)"
  using assms by (simp add: store_def counts_Suc)

end
