(* ===== verification/Spsc_Threads.thy ===== *)
theory Spsc_Threads
  imports Ring Atomics
begin

text \<open>
  \<open>crates/bus/src/spsc.rs\<close> with its two threads: a producer that makes a sequence of
  \<open>send\<close> or \<open>try_send\<close> calls and a consumer that makes \<open>recv\<close> or \<open>try_recv\<close> calls, one
  memory access per step, interleaved in any order and with the memory orderings of the
  source.  Slots are plain memory: an access that is not ordered after the last conflicting
  access of the other thread is a data race.
\<close>

section \<open>State\<close>

text \<open>
  A slot with the value it holds, the index of the head store that publishes its last write,
  and the index of the tail store that publishes its last read.
\<close>

record 'a cell =
  cell_val :: "'a option"
  wrote :: nat
  moved :: nat

datatype 'a ppc =
    PIdle
  | PStart 'a                   \<comment> \<open>\<open>try_send(value)\<close> entered\<close>
  | PHead 'a usize              \<comment> \<open>\<open>head\<close> loaded\<close>
  | PTail 'a usize usize        \<comment> \<open>\<open>tail\<close> loaded, at the full test\<close>
  | PWrote 'a usize             \<comment> \<open>slot written, \<open>head\<close> not yet stored\<close>

datatype 'a cpc =
    CIdle
  | CTail usize                 \<comment> \<open>\<open>tail\<close> loaded\<close>
  | CHead usize usize           \<comment> \<open>\<open>head\<close> loaded, at the empty test\<close>
  | CRead usize 'a              \<comment> \<open>slot read, \<open>tail\<close> not yet stored\<close>

text \<open>
  \<open>calls\<close> records the finished calls of the producer with their outcome (\<open>True\<close> for
  \<open>Ok(())\<close>), \<open>got\<close> the values the consumer has returned, both in order.
\<close>

record 'a spsc_sys =
  a_head :: atomic
  a_tail :: atomic
  cells :: "'a cell list"
  s_mask :: usize
  p_head :: view
  p_tail :: view
  c_head :: view
  c_tail :: view
  ppc :: "'a ppc"
  cpc :: "'a cpc"
  todo :: "'a list"
  calls :: "('a \<times> bool) list"
  got :: "'a list"

datatype fault = OutOfRange | NotInitialised | DataRace

definition spsc_init :: "usize \<Rightarrow> 'a list \<Rightarrow> ring_fault + 'a spsc_sys" where
  "spsc_init capacity vals =
     (if is_power_of_two capacity \<and> 0 < capacity
      then Inr \<lparr>a_head = atomic_new 0, a_tail = atomic_new 0,
             cells = replicate (unat capacity) \<lparr>cell_val = None, wrote = 0, moved = 0\<rparr>,
             s_mask = capacity - 1,
             p_head = view_new, p_tail = view_new, c_head = view_new, c_tail = view_new,
             ppc = PIdle, cpc = CIdle, todo = vals, calls = [], got = []\<rparr>
      else Inl CapacityAssert)"

section \<open>Slot accesses\<close>

definition cell_write :: "nat \<Rightarrow> 'a \<Rightarrow> 'a spsc_sys \<Rightarrow> fault + 'a spsc_sys" where
  "cell_write i v s =
     (if i < length (cells s)
      then if moved (cells s ! i) \<le> synced (p_tail s)
           then Inr (s\<lparr>cells := (cells s)[i := (cells s ! i)\<lparr>cell_val := Some v,
                     wrote := length (history (a_head s))\<rparr>]\<rparr>)
           else Inl DataRace
      else Inl OutOfRange)"

definition cell_take :: "nat \<Rightarrow> 'a spsc_sys \<Rightarrow> fault + ('a \<times> 'a spsc_sys)" where
  "cell_take i s =
     (if i < length (cells s)
      then if wrote (cells s ! i) \<le> synced (c_head s)
           then (case cell_val (cells s ! i) of
                   None \<Rightarrow> Inl NotInitialised
                 | Some v \<Rightarrow> Inr (v, s\<lparr>cells := (cells s)[i := (cells s ! i)\<lparr>cell_val := None,
                     moved := length (history (a_tail s))\<rparr>]\<rparr>))
           else Inl DataRace
      else Inl OutOfRange)"

section \<open>Steps\<close>

text \<open>
  The producer's half is \<open>Producer::try_send\<close>, called again with the returned value by
  \<open>Producer::send\<close>; the consumer's half is \<open>Consumer::try_recv\<close>, called again by
  \<open>Consumer::recv\<close>.
\<close>

inductive spsc_step :: "'a spsc_sys \<Rightarrow> 'a spsc_sys \<Rightarrow> bool" where
  p_call: "ppc s = PIdle \<Longrightarrow> todo s = v # vs \<Longrightarrow>
     spsc_step s (s\<lparr>ppc := PStart v, todo := vs\<rparr>)"
| p_load_head: "ppc s = PStart v \<Longrightarrow> load Relaxed k (a_head s) (p_head s) = Some (h, w) \<Longrightarrow>
     spsc_step s (s\<lparr>ppc := PHead v h, p_head := w\<rparr>)"
| p_load_tail: "ppc s = PHead v h \<Longrightarrow> load Acquire k (a_tail s) (p_tail s) = Some (t, w) \<Longrightarrow>
     spsc_step s (s\<lparr>ppc := PTail v h t, p_tail := w\<rparr>)"
| p_full_return: "ppc s = PTail v h t \<Longrightarrow> h - t > s_mask s \<Longrightarrow>
     spsc_step s (s\<lparr>ppc := PIdle, calls := calls s @ [(v, False)]\<rparr>)"
| p_full_retry: "ppc s = PTail v h t \<Longrightarrow> h - t > s_mask s \<Longrightarrow>
     spsc_step s (s\<lparr>ppc := PStart v\<rparr>)"
| p_write: "ppc s = PTail v h t \<Longrightarrow> \<not> h - t > s_mask s \<Longrightarrow>
     cell_write (unat (h AND s_mask s)) v s = Inr s' \<Longrightarrow>
     spsc_step s (s'\<lparr>ppc := PWrote v h\<rparr>)"
| p_store: "ppc s = PWrote v h \<Longrightarrow> store Release (h + 1) (a_head s) (p_head s) = (a, w) \<Longrightarrow>
     spsc_step s (s\<lparr>a_head := a, p_head := w, ppc := PIdle, calls := calls s @ [(v, True)]\<rparr>)"
| c_load_tail: "cpc s = CIdle \<Longrightarrow> load Relaxed k (a_tail s) (c_tail s) = Some (t, w) \<Longrightarrow>
     spsc_step s (s\<lparr>cpc := CTail t, c_tail := w\<rparr>)"
| c_load_head: "cpc s = CTail t \<Longrightarrow> load Acquire k (a_head s) (c_head s) = Some (h, w) \<Longrightarrow>
     spsc_step s (s\<lparr>cpc := CHead t h, c_head := w\<rparr>)"
| c_empty: "cpc s = CHead t h \<Longrightarrow> t = h \<Longrightarrow>
     spsc_step s (s\<lparr>cpc := CIdle\<rparr>)"
| c_read: "cpc s = CHead t h \<Longrightarrow> t \<noteq> h \<Longrightarrow>
     cell_take (unat (t AND s_mask s)) s = Inr (v, s') \<Longrightarrow>
     spsc_step s (s'\<lparr>cpc := CRead t v\<rparr>)"
| c_store: "cpc s = CRead t v \<Longrightarrow> store Release (t + 1) (a_tail s) (c_tail s) = (a, w) \<Longrightarrow>
     spsc_step s (s\<lparr>a_tail := a, c_tail := w, cpc := CIdle, got := got s @ [v]\<rparr>)"

inductive spsc_reach :: "usize \<Rightarrow> 'a list \<Rightarrow> 'a spsc_sys \<Rightarrow> bool" for capacity vals where
  start: "spsc_init capacity vals = Inr s \<Longrightarrow> spsc_reach capacity vals s"
| step: "spsc_reach capacity vals s \<Longrightarrow> spsc_step s s' \<Longrightarrow> spsc_reach capacity vals s'"

text \<open>The fault a thread is about to commit, if any: the slot accesses whose guard holds.\<close>

definition next_faults :: "'a spsc_sys \<Rightarrow> fault list" where
  "next_faults s =
     (case ppc s of
        PTail v h t \<Rightarrow>
          if h - t > s_mask s then []
          else (case cell_write (unat (h AND s_mask s)) v s of Inl f \<Rightarrow> [f] | Inr _ \<Rightarrow> [])
      | _ \<Rightarrow> []) @
     (case cpc s of
        CHead t h \<Rightarrow>
          if t = h then []
          else (case cell_take (unat (t AND s_mask s)) s of Inl f \<Rightarrow> [f] | Inr _ \<Rightarrow> [])
      | _ \<Rightarrow> [])"

text \<open>The values sent so far, in order, and the value of the call in progress.\<close>

definition oks :: "('a \<times> bool) list \<Rightarrow> 'a list" where
  "oks cs = map fst (filter snd cs)"

fun in_call :: "'a ppc \<Rightarrow> 'a list" where
  "in_call PIdle = []"
| "in_call (PStart v) = [v]"
| "in_call (PHead v h) = [v]"
| "in_call (PTail v h t) = [v]"
| "in_call (PWrote v h) = [v]"

abbreviation sent :: "'a spsc_sys \<Rightarrow> 'a list" where
  "sent s \<equiv> oks (calls s)"

lemma oks_simps [simp]:
  "oks [] = []" "oks (cs @ [(v, True)]) = oks cs @ [v]" "oks (cs @ [(v, False)]) = oks cs"
  by (simp_all add: oks_def)

section \<open>The invariant\<close>

text \<open>
  Cursors count: the \<open>i\<close>-th value lives in slot \<open>i mod K\<close>.  \<open>first_live\<close> and \<open>end_live\<close> bound
  the values that are in slots now, the value just written or just taken included.
\<close>

fun taken :: "'a cpc \<Rightarrow> nat" where
  "taken (CRead t v) = 1"
| "taken _ = 0"

fun written :: "'a ppc \<Rightarrow> 'a list" where
  "written (PWrote v h) = [v]"
| "written _ = []"

abbreviation first_live :: "'a spsc_sys \<Rightarrow> nat" where
  "first_live s \<equiv> length (got s) + taken (cpc s)"

abbreviation stream :: "'a spsc_sys \<Rightarrow> 'a list" where
  "stream s \<equiv> sent s @ written (ppc s)"

abbreviation slots_num :: "'a spsc_sys \<Rightarrow> nat" where
  "slots_num s \<equiv> length (cells s)"

text \<open>
  What the program counters know, given the numbers \<open>n\<close> of values sent and \<open>m\<close> received, the
  newest index \<open>k\<close> seen of the other cursor and the capacity \<open>K\<close>.
\<close>

fun p_knows :: "'a ppc \<Rightarrow> nat \<Rightarrow> nat \<Rightarrow> nat \<Rightarrow> bool" where
  "p_knows PIdle n k K = True"
| "p_knows (PStart v) n k K = True"
| "p_knows (PHead v h) n k K \<longleftrightarrow> h = of_nat n"
| "p_knows (PTail v h t) n k K \<longleftrightarrow> h = of_nat n \<and> t = of_nat k"
| "p_knows (PWrote v h) n k K \<longleftrightarrow> h = of_nat n \<and> n < k + K"

fun c_knows :: "'a cpc \<Rightarrow> 'a list \<Rightarrow> nat \<Rightarrow> nat \<Rightarrow> bool" where
  "c_knows CIdle vs m k = True"
| "c_knows (CTail t) vs m k \<longleftrightarrow> t = of_nat m"
| "c_knows (CHead t h) vs m k \<longleftrightarrow> t = of_nat m \<and> h = of_nat k"
| "c_knows (CRead t v) vs m k \<longleftrightarrow> t = of_nat m \<and> m < k \<and> v = vs ! m"

definition inv_cursors :: "'a spsc_sys \<Rightarrow> bool" where
  "inv_cursors s \<longleftrightarrow>
     (\<exists>k<64. s_mask s = 2 ^ k - 1 \<and> slots_num s = 2 ^ k) \<and>
     history (a_head s) = counts (length (sent s)) \<and>
     history (a_tail s) = counts (length (got s)) \<and>
     seen (p_head s) = length (sent s) \<and> seen (c_tail s) = length (got s) \<and>
     synced (p_tail s) = seen (p_tail s) \<and> synced (c_head s) = seen (c_head s) \<and>
     seen (p_tail s) \<le> length (got s) \<and> length (got s) \<le> seen (c_head s) \<and>
     seen (c_head s) \<le> length (sent s) \<and> length (sent s) \<le> seen (p_tail s) + slots_num s"

definition inv_pcs :: "'a spsc_sys \<Rightarrow> bool" where
  "inv_pcs s \<longleftrightarrow>
     p_knows (ppc s) (length (sent s)) (seen (p_tail s)) (slots_num s) \<and>
     c_knows (cpc s) (sent s) (length (got s)) (seen (c_head s))"

definition inv_cells :: "'a spsc_sys \<Rightarrow> bool" where
  "inv_cells s \<longleftrightarrow>
     (\<forall>i. first_live s \<le> i \<and> i < length (stream s) \<longrightarrow>
        cell_val (cells s ! (i mod slots_num s)) = Some (stream s ! i) \<and>
        wrote (cells s ! (i mod slots_num s)) = Suc i) \<and>
     (\<forall>i. length (stream s) \<le> i \<and> i < first_live s + slots_num s \<longrightarrow>
        cell_val (cells s ! (i mod slots_num s)) = None) \<and>
     (\<forall>j < slots_num s. moved (cells s ! j) = 0 \<or>
        (\<exists>i<first_live s. moved (cells s ! j) = Suc i \<and> i mod slots_num s = j))"

definition inv_values :: "'a list \<Rightarrow> 'a spsc_sys \<Rightarrow> bool" where
  "inv_values vals s \<longleftrightarrow>
     got s = take (length (got s)) (sent s) \<and> map fst (calls s) @ in_call (ppc s) @ todo s = vals"

definition spsc_inv :: "'a list \<Rightarrow> 'a spsc_sys \<Rightarrow> bool" where
  "spsc_inv vals s \<longleftrightarrow> inv_cursors s \<and> inv_pcs s \<and> inv_cells s \<and> inv_values vals s"

lemmas inv_defs = inv_cursors_def inv_pcs_def inv_cells_def inv_values_def

lemma inv_cap:
  assumes "inv_cursors s"
  shows "0 < slots_num s" "slots_num s < 2 ^ 64" "unat (s_mask s) = slots_num s - 1"
    "unat (of_nat n AND s_mask s) = n mod slots_num s"
proof -
  obtain k where k: "k < 64" "s_mask s = 2 ^ k - 1" "slots_num s = 2 ^ k"
    using assms by (auto simp: inv_cursors_def)
  then show "0 < slots_num s" "slots_num s < 2 ^ 64" "unat (s_mask s) = slots_num s - 1"
    by (simp_all add: unat_exp_minus_1 exp_less_64 [simplified])
  have "unat ((of_nat n :: usize) AND s_mask s) = unat (of_nat n :: usize) mod 2 ^ k"
    using unat_and_mask [of k "of_nat n :: usize"] k by simp
  then show "unat (of_nat n AND s_mask s) = n mod slots_num s"
    using k unat_of_nat_mod [where 'a = 64 and k = k and n = n] by simp
qed

text \<open>The full and the empty test read the number of values between the cursors.\<close>

lemma full_test:
  assumes "inv_cursors s"
  shows "of_nat (length (sent s)) - of_nat (seen (p_tail s)) > s_mask s \<longleftrightarrow>
    length (sent s) = seen (p_tail s) + slots_num s"
proof -
  let ?n = "length (sent s)" and ?k = "seen (p_tail s)"
  have le: "?k \<le> ?n" "?n \<le> ?k + slots_num s"
    using assms by (auto simp: inv_cursors_def)
  then have "unat (of_nat ?n - of_nat ?k :: usize) = ?n - ?k"
    using inv_cap(2) [OF assms] by (intro of_nat_diff_word) simp_all
  then show ?thesis
    using le inv_cap(1,3) [OF assms] by (auto simp: word_less_nat_alt)
qed

lemma empty_test:
  assumes "inv_cursors s"
  shows "(of_nat (length (got s)) :: usize) = of_nat (seen (c_head s)) \<longleftrightarrow>
    length (got s) = seen (c_head s)"
proof (rule of_nat_eq_iff_close)
  show "length (got s) \<le> seen (c_head s)" using assms by (simp add: inv_cursors_def)
  show "seen (c_head s) - length (got s) < 2 ^ LENGTH(64)"
    using assms inv_cap(2) [OF assms] by (auto simp: inv_cursors_def)
qed

lemma mod_neq:
  assumes "i < j" and "j < i + n"
  shows "i mod n \<noteq> j mod (n :: nat)"
  using mod_window_inj [of i 0 n "j - i"] assms by fastforce

lemma mod_eq_far: "i mod n = j mod n \<Longrightarrow> i < j \<Longrightarrow> i + n \<le> (j :: nat)"
  using mod_neq [of i j n] by (cases "j < i + n") auto

section \<open>No slot access faults\<close>

lemma write_ok:
  assumes inv: "spsc_inv vals s" and pc: "ppc s = PTail v h t" and room: "\<not> h - t > s_mask s"
  shows "cell_write (unat (h AND s_mask s)) v s =
    Inr (s\<lparr>cells := (cells s)[length (sent s) mod slots_num s :=
          (cells s ! (length (sent s) mod slots_num s))\<lparr>cell_val := Some v, wrote := Suc (length (sent s))\<rparr>]\<rparr>)"
    and "length (sent s) < seen (p_tail s) + slots_num s"
proof -
  let ?n = "length (sent s)" and ?K = "slots_num s"
  have cur: "inv_cursors s" and h: "h = of_nat ?n" "t = of_nat (seen (p_tail s))"
    using inv pc by (auto simp: spsc_inv_def inv_pcs_def)
  show lt: "?n < seen (p_tail s) + ?K"
    using room full_test [OF cur] h cur by (auto simp: inv_cursors_def)
  have idx: "unat (h AND s_mask s) = ?n mod ?K" "?n mod ?K < ?K"
    using inv_cap [OF cur] h by simp_all
  have "moved (cells s ! (?n mod ?K)) \<le> synced (p_tail s)"
  proof -
    consider "moved (cells s ! (?n mod ?K)) = 0"
      | i where "i < first_live s" "moved (cells s ! (?n mod ?K)) = Suc i" "i mod ?K = ?n mod ?K"
      using inv idx by (auto simp: spsc_inv_def inv_cells_def)
    then show ?thesis
    proof cases
      case 2
      have "first_live s \<le> ?n"
        using inv by (cases "cpc s") (auto simp: spsc_inv_def inv_cursors_def inv_pcs_def)
      with 2 have "i + ?K \<le> ?n" by (intro mod_eq_far) auto
      with 2 lt cur show ?thesis by (simp add: inv_cursors_def)
    qed simp
  qed
  then show "cell_write (unat (h AND s_mask s)) v s =
    Inr (s\<lparr>cells := (cells s)[?n mod ?K := (cells s ! (?n mod ?K))\<lparr>cell_val := Some v, wrote := Suc ?n\<rparr>]\<rparr>)"
    using idx cur by (simp add: cell_write_def inv_cursors_def)
qed

lemma take_ok:
  assumes inv: "spsc_inv vals s" and pc: "cpc s = CHead t h" and ne: "t \<noteq> h"
  shows "cell_take (unat (t AND s_mask s)) s =
    Inr (sent s ! length (got s), s\<lparr>cells := (cells s)[length (got s) mod slots_num s :=
          (cells s ! (length (got s) mod slots_num s))\<lparr>cell_val := None, moved := Suc (length (got s))\<rparr>]\<rparr>)"
    and "length (got s) < seen (c_head s)"
proof -
  let ?m = "length (got s)" and ?K = "slots_num s"
  have cur: "inv_cursors s" and h: "t = of_nat ?m" "h = of_nat (seen (c_head s))"
    using inv pc by (auto simp: spsc_inv_def inv_pcs_def)
  show lt: "?m < seen (c_head s)"
    using ne empty_test [OF cur] h cur by (auto simp: inv_cursors_def)
  have idx: "unat (t AND s_mask s) = ?m mod ?K" "?m mod ?K < ?K"
    using inv_cap [OF cur] h by simp_all
  have m: "?m < length (sent s)" using lt cur by (simp add: inv_cursors_def)
  then have "first_live s = ?m" "?m < length (stream s)" "stream s ! ?m = sent s ! ?m"
    using pc by (simp_all add: nth_append)
  then have cell: "cell_val (cells s ! (?m mod ?K)) = Some (sent s ! ?m)"
    "wrote (cells s ! (?m mod ?K)) = Suc ?m"
    using inv unfolding spsc_inv_def inv_cells_def by (metis le_refl)+
  then show "cell_take (unat (t AND s_mask s)) s =
    Inr (sent s ! ?m, s\<lparr>cells := (cells s)[?m mod ?K := (cells s ! (?m mod ?K))\<lparr>cell_val := None, moved := Suc ?m\<rparr>]\<rparr>)"
    using idx cur lt by (simp add: cell_take_def inv_cursors_def)
qed

lemma no_next_faults: "spsc_inv vals s \<Longrightarrow> next_faults s = []"
  by (auto simp: next_faults_def write_ok take_ok split: ppc.splits cpc.splits)

section \<open>Every step keeps the invariant\<close>

text \<open>Steps that touch neither slots nor the values in flight keep the slot part.\<close>

lemma inv_cells_cong:
  assumes "inv_cells s" and "cells s' = cells s" "sent s' @ written (ppc s') = stream s"
    and "first_live s' = first_live s"
  shows "inv_cells s'"
  using assms by (simp add: inv_cells_def)

lemma p_write_inv:
  assumes inv: "spsc_inv vals s" and pc: "ppc s = PTail v h t" and room: "\<not> h - t > s_mask s"
    and eq: "cell_write (unat (h AND s_mask s)) v s = Inr s'"
  shows "spsc_inv vals (s'\<lparr>ppc := PWrote v h\<rparr>)"
proof -
  let ?n = "length (sent s)" and ?K = "slots_num s"
  let ?c = "(cells s ! (?n mod ?K))\<lparr>cell_val := Some v, wrote := Suc ?n\<rparr>"
  let ?cs = "(cells s)[?n mod ?K := ?c]"
  have s': "s' = s\<lparr>cells := ?cs\<rparr>"
    using eq write_ok(1) [OF inv pc room] by simp
  have cur: "inv_cursors s" and cells: "inv_cells s" using inv by (simp_all add: spsc_inv_def)
  have lt: "?n < seen (p_tail s) + ?K" using write_ok(2) [OF inv pc room] .
  have lo: "first_live s \<le> ?n" "?n < first_live s + ?K"
    using inv lt by (cases "cpc s"; auto simp: spsc_inv_def inv_cursors_def inv_pcs_def)+
  have K0: "?n mod ?K < ?K" using inv_cap(1) [OF cur] by simp
  have other: "?cs ! (i mod ?K) = cells s ! (i mod ?K)"
    if "i \<noteq> ?n" "first_live s \<le> i" "i < first_live s + ?K" for i
  proof -
    have "i mod ?K \<noteq> ?n mod ?K"
      using mod_neq [of i ?n ?K] mod_neq [of ?n i ?K] that lo by (cases "i < ?n") auto
    then show ?thesis by simp
  qed
  have new: "?cs ! (?n mod ?K) = ?c" using K0 by simp
  have mv: "moved (?cs ! j) = moved (cells s ! j)" for j
    using K0 by (cases "j = ?n mod ?K") simp_all
  have live: "cell_val (?cs ! (i mod ?K)) = Some ((sent s @ [v]) ! i) \<and> wrote (?cs ! (i mod ?K)) = Suc i"
    if "first_live s \<le> i" "i < Suc ?n" for i
  proof (cases "i = ?n")
    case True
    then show ?thesis using new by simp
  next
    case False
    with that lo have "i < ?n" "i < first_live s + ?K" by simp_all
    then show ?thesis
      using other [OF False] that cells pc by (simp add: inv_cells_def nth_append)
  qed
  have free: "cell_val (?cs ! (i mod ?K)) = None" if "Suc ?n \<le> i" "i < first_live s + ?K" for i
    using other [of i] that lo cells pc by (simp add: inv_cells_def)
  have "inv_cells (s'\<lparr>ppc := PWrote v h\<rparr>)"
    using live free cells mv by (simp add: s' inv_cells_def)
  moreover have "inv_cursors (s'\<lparr>ppc := PWrote v h\<rparr>)" using cur by (simp add: s' inv_cursors_def)
  moreover have "inv_pcs (s'\<lparr>ppc := PWrote v h\<rparr>)"
    using inv pc lt by (simp add: s' spsc_inv_def inv_pcs_def)
  moreover have "inv_values vals (s'\<lparr>ppc := PWrote v h\<rparr>)"
    using inv pc by (simp add: s' spsc_inv_def inv_values_def)
  ultimately show ?thesis by (simp add: spsc_inv_def)
qed

lemma c_read_inv:
  assumes inv: "spsc_inv vals s" and pc: "cpc s = CHead t h" and ne: "t \<noteq> h"
    and eq: "cell_take (unat (t AND s_mask s)) s = Inr (v, s')"
  shows "spsc_inv vals (s'\<lparr>cpc := CRead t v\<rparr>)"
proof -
  let ?m = "length (got s)" and ?K = "slots_num s"
  let ?c = "(cells s ! (?m mod ?K))\<lparr>cell_val := None, moved := Suc ?m\<rparr>"
  let ?cs = "(cells s)[?m mod ?K := ?c]"
  have s': "s' = s\<lparr>cells := ?cs\<rparr>" and v: "v = sent s ! ?m"
    using eq take_ok(1) [OF inv pc ne] by simp_all
  have cur: "inv_cursors s" and cells: "inv_cells s" using inv by (simp_all add: spsc_inv_def)
  have lt: "?m < seen (c_head s)" using take_ok(2) [OF inv pc ne] .
  have m: "?m < length (sent s)" "?m < length (stream s)" "length (stream s) \<le> ?m + ?K"
    using inv lt by (cases "ppc s"; auto simp: spsc_inv_def inv_cursors_def inv_pcs_def)+
  have K0: "?m mod ?K < ?K" using inv_cap(1) [OF cur] by simp
  have other: "?cs ! (i mod ?K) = cells s ! (i mod ?K)" if "?m < i" "i < ?m + ?K" for i
    using mod_neq [of ?m i ?K] that by simp
  have live: "cell_val (?cs ! (i mod ?K)) = Some (stream s ! i) \<and> wrote (?cs ! (i mod ?K)) = Suc i"
    if "Suc ?m \<le> i" "i < length (stream s)" for i
    using other [of i] that m cells pc by (simp add: inv_cells_def)
  have free: "cell_val (?cs ! (i mod ?K)) = None" if "length (stream s) \<le> i" "i < Suc (?m + ?K)" for i
  proof (cases "i = ?m + ?K")
    case True
    then show ?thesis using K0 by simp
  next
    case False
    with that have "i < ?m + ?K" by simp
    with that m show ?thesis
      using other [of i] cells pc by (auto simp: inv_cells_def)
  qed
  have mv: "moved (?cs ! j) = 0 \<or> (\<exists>i<Suc ?m. moved (?cs ! j) = Suc i \<and> i mod ?K = j)" if "j < ?K" for j
    using that cells pc K0 by (cases "j = ?m mod ?K") (auto simp: inv_cells_def less_Suc_eq)
  have "inv_cells (s'\<lparr>cpc := CRead t v\<rparr>)"
    using live free mv by (simp add: s' inv_cells_def)
  moreover have "inv_cursors (s'\<lparr>cpc := CRead t v\<rparr>)" using cur by (simp add: s' inv_cursors_def)
  moreover have "inv_pcs (s'\<lparr>cpc := CRead t v\<rparr>)"
    using inv pc lt v by (simp add: s' spsc_inv_def inv_pcs_def)
  moreover have "inv_values vals (s'\<lparr>cpc := CRead t v\<rparr>)"
    using inv by (simp add: s' spsc_inv_def inv_values_def)
  ultimately show ?thesis by (simp add: spsc_inv_def)
qed

lemma p_store_inv:
  assumes inv: "spsc_inv vals s" and pc: "ppc s = PWrote v h"
    and eq: "store Release (h + 1) (a_head s) (p_head s) = (a, w)"
  shows "spsc_inv vals (s\<lparr>a_head := a, p_head := w, ppc := PIdle, calls := calls s @ [(v, True)]\<rparr>)"
proof -
  let ?n = "length (sent s)"
  have cur: "inv_cursors s" and h: "h = of_nat ?n" and lt: "?n < seen (p_tail s) + slots_num s"
    using inv pc by (auto simp: spsc_inv_def inv_pcs_def)
  then have aw: "a = (a_head s)\<lparr>history := counts (Suc ?n)\<rparr>" "w = (p_head s)\<lparr>seen := Suc ?n\<rparr>"
    using eq store_release [of "a_head s" ?n "p_head s"] by (auto simp: inv_cursors_def)
  have vals: "got s = take (length (got s)) (sent s)" "length (got s) \<le> ?n"
    using inv by (auto simp: spsc_inv_def inv_values_def inv_cursors_def)
  then have gotv: "got s = take (length (got s)) (sent s @ [v])" by simp
  show ?thesis
    using inv pc lt aw gotv vals(2)
    by (cases "cpc s") (auto simp: spsc_inv_def inv_cursors_def inv_pcs_def inv_cells_def inv_values_def nth_append)
qed

lemma c_store_inv:
  assumes inv: "spsc_inv vals s" and pc: "cpc s = CRead t v"
    and eq: "store Release (t + 1) (a_tail s) (c_tail s) = (a, w)"
  shows "spsc_inv vals (s\<lparr>a_tail := a, c_tail := w, cpc := CIdle, got := got s @ [v]\<rparr>)"
proof -
  let ?m = "length (got s)"
  have cur: "inv_cursors s" and t: "t = of_nat ?m" and lt: "?m < seen (c_head s)" and v: "v = sent s ! ?m"
    using inv pc by (auto simp: spsc_inv_def inv_pcs_def)
  then have aw: "a = (a_tail s)\<lparr>history := counts (Suc ?m)\<rparr>" "w = (c_tail s)\<lparr>seen := Suc ?m\<rparr>"
    using eq store_release [of "a_tail s" ?m "c_tail s"] by (auto simp: inv_cursors_def)
  have "?m < length (sent s)" using lt cur by (simp add: inv_cursors_def)
  then have "take (Suc ?m) (sent s) = got s @ [v]"
    using inv v by (simp add: spsc_inv_def inv_values_def take_Suc_conv_app_nth)
  then show ?thesis
    using inv pc lt aw
    by (auto simp: spsc_inv_def inv_cursors_def inv_pcs_def inv_cells_def inv_values_def)
qed

lemma spsc_step_inv:
  assumes "spsc_step s s'" and "spsc_inv vals s"
  shows "spsc_inv vals s'"
  using assms
proof (cases rule: spsc_step.cases)
  case (p_load_head v k h w)
  then show ?thesis
    using assms(2) load_own [of "a_head s" "length (sent s)" "p_head s"]
    by (auto simp: spsc_inv_def inv_defs)
next
  case (p_load_tail v h k t w)
  then show ?thesis
    using assms(2) load_acquire [of "a_tail s" "length (got s)" "p_tail s"]
    by (auto simp: spsc_inv_def inv_defs)
next
  case (c_load_tail k t w)
  then show ?thesis
    using assms(2) load_own [of "a_tail s" "length (got s)" "c_tail s"]
    by (auto simp: spsc_inv_def inv_defs)
next
  case (c_load_head t k h w)
  then show ?thesis
    using assms(2) load_acquire [of "a_head s" "length (sent s)" "c_head s"]
    by (auto simp: spsc_inv_def inv_defs)
next
  case (p_call v vs)
  then show ?thesis using assms(2) by (auto simp: spsc_inv_def inv_defs)
next
  case (p_full_return v h t)
  then show ?thesis using assms(2) by (auto simp: spsc_inv_def inv_defs)
next
  case (p_full_retry v h t)
  then show ?thesis using assms(2) by (auto simp: spsc_inv_def inv_defs)
next
  case (c_empty t h)
  then show ?thesis using assms(2) by (auto simp: spsc_inv_def inv_defs)
next
  case (p_write v h t s'')
  then show ?thesis using p_write_inv [OF assms(2)] by blast
next
  case (p_store v h a w)
  then show ?thesis using p_store_inv [OF assms(2)] by blast
next
  case (c_read t h v s'')
  then show ?thesis using c_read_inv [OF assms(2)] by blast
next
  case (c_store t v a w)
  then show ?thesis using c_store_inv [OF assms(2)] by blast
qed

lemma spsc_init_inv:
  assumes "spsc_init c vals = Inr s"
  shows "spsc_inv vals s" and "slots_num s = unat c"
proof -
  obtain k where k: "k < 64" "c = 2 ^ k"
    and s: "s = \<lparr>a_head = atomic_new 0, a_tail = atomic_new 0,
             cells = replicate (unat c) \<lparr>cell_val = None, wrote = 0, moved = 0\<rparr>,
             s_mask = c - 1,
             p_head = view_new, p_tail = view_new, c_head = view_new, c_tail = view_new,
             ppc = PIdle, cpc = CIdle, todo = vals, calls = [], got = []\<rparr>"
    using assms by (auto simp: spsc_init_def is_power_of_two_iff split: if_splits)
  show "slots_num s = unat c" by (simp add: s)
  have "history (atomic_new 0) = counts 0" by (simp add: atomic_new_def counts_def)
  then show "spsc_inv vals s"
    using k by (auto simp: spsc_inv_def inv_defs s view_new_def unat_exp)
qed

lemma spsc_step_slots_num: "spsc_step s s' \<Longrightarrow> slots_num s' = slots_num s"
  by (induction rule: spsc_step.induct)
    (auto simp: cell_write_def cell_take_def split: if_splits option.splits)

lemma reach_inv: "spsc_reach c vals s \<Longrightarrow> spsc_inv vals s \<and> slots_num s = unat c"
  by (induction rule: spsc_reach.induct)
    (auto simp: spsc_init_inv spsc_step_slots_num intro: spsc_step_inv)

section \<open>The shared ring between two calls\<close>

text \<open>What the memory holds when neither thread is inside a slot access.\<close>

definition ring_of :: "'a spsc_sys \<Rightarrow> 'a ring" where
  "ring_of s = \<lparr>head = latest (a_head s), tail = latest (a_tail s),
     slots = map cell_val (cells s), rmask = s_mask s\<rparr>"

lemma ring_of_quiet:
  assumes inv: "spsc_inv vals s" and quiet: "written (ppc s) = []" "taken (cpc s) = 0"
  shows "wf_ring (ring_of s)" and "contents (ring_of s) = drop (length (got s)) (sent s)"
    and "ring_cap (ring_of s) = slots_num s"
proof -
  let ?m = "length (got s)" and ?n = "length (sent s)" and ?K = "slots_num s" and ?r = "ring_of s"
  have cur: "inv_cursors s" and cells: "inv_cells s" using inv by (simp_all add: spsc_inv_def)
  have le: "?m \<le> ?n" "?n \<le> ?m + ?K" using cur by (auto simp: inv_cursors_def)
  have hd: "head ?r = of_nat ?n" and tl: "tail ?r = of_nat ?m"
    using cur by (auto simp: ring_of_def inv_cursors_def intro: latest_counts)
  show cap: "ring_cap ?r = ?K" by (simp add: ring_cap_def ring_of_def)
  have len: "ring_len ?r = ?n - ?m"
    using le inv_cap(2) [OF cur] unfolding ring_len_def hd tl by (intro of_nat_diff_word) simp_all
  have idx: "slot_index ?r i = (?m + i) mod ?K" for i
    using inv_cap(4) [OF cur, of "?m + i"] by (simp add: slot_index_def tl) (simp add: ring_of_def)
  have slot: "slots ?r ! (j mod ?K) = cell_val (cells s ! (j mod ?K))" for j
    using inv_cap(1) [OF cur] by (simp add: ring_of_def)
  have live: "slots ?r ! slot_index ?r i = Some (sent s ! (?m + i))" if "i < ?n - ?m" for i
    using that cells quiet le unfolding idx slot by (simp add: inv_cells_def)
  have free: "slots ?r ! slot_index ?r i = None" if "?n - ?m \<le> i" "i < ?K" for i
    using that cells quiet le unfolding idx slot by (simp add: inv_cells_def)
  obtain k where "k < 64" "rmask ?r = 2 ^ k - 1" "?K = 2 ^ k"
    using cur by (auto simp: inv_cursors_def ring_of_def)
  then show "wf_ring ?r"
    unfolding wf_ring_iff cap len using live free le by (metis le_diff_conv not_less option.distinct(1) add.commute)
  show "contents ?r = drop ?m (sent s)"
    by (rule nth_equalityI) (simp_all add: len contents_nth live)
qed

section \<open>Running one thread\<close>

abbreviation spsc_run :: "'a spsc_sys \<Rightarrow> 'a spsc_sys \<Rightarrow> bool" where
  "spsc_run \<equiv> rtranclp spsc_step"

lemma run_inv: "spsc_run s s' \<Longrightarrow> spsc_inv vals s \<Longrightarrow> spsc_inv vals s' \<and> slots_num s' = slots_num s"
  by (induction rule: rtranclp_induct) (auto simp: spsc_step_slots_num intro: spsc_step_inv)

text \<open>The other side's half of the state.\<close>

definition same_producer :: "'a spsc_sys \<Rightarrow> 'a spsc_sys \<Rightarrow> bool" where
  "same_producer s s' \<longleftrightarrow> ppc s' = ppc s \<and> todo s' = todo s \<and> calls s' = calls s \<and> p_tail s' = p_tail s"

definition same_consumer :: "'a spsc_sys \<Rightarrow> 'a spsc_sys \<Rightarrow> bool" where
  "same_consumer s s' \<longleftrightarrow> cpc s' = cpc s \<and> got s' = got s"

lemma run_take:
  assumes inv: "spsc_inv vals s" and pc: "cpc s = CHead t h" and ne: "t \<noteq> h"
  shows "\<exists>s'. spsc_run s s' \<and> cpc s' = CIdle \<and> same_producer s s' \<and>
    got s' = got s @ [sent s ! length (got s)]"
proof -
  let ?v = "sent s ! length (got s)"
  obtain s1 where s1: "cell_take (unat (t AND s_mask s)) s = Inr (?v, s1)"
      "same_producer s s1" "got s1 = got s"
    using take_ok(1) [OF inv pc ne] by (auto simp: same_producer_def)
  let ?s2 = "s1\<lparr>cpc := CRead t ?v\<rparr>"
  obtain a w where "store Release (t + 1) (a_tail ?s2) (c_tail ?s2) = (a, w)" by fastforce
  then have "spsc_step ?s2 (?s2\<lparr>a_tail := a, c_tail := w, cpc := CIdle, got := got ?s2 @ [?v]\<rparr>)"
    by (intro spsc_step.c_store) simp_all
  moreover have "spsc_step s ?s2" using pc ne s1(1) by (rule spsc_step.c_read)
  ultimately have "spsc_run s (?s2\<lparr>a_tail := a, c_tail := w, cpc := CIdle, got := got ?s2 @ [?v]\<rparr>)"
    by (meson converse_rtranclp_into_rtranclp rtranclp.rtrancl_refl)
  then show ?thesis using s1(2,3) by (auto simp: same_producer_def)
qed

lemma run_try_recv:
  assumes inv: "spsc_inv vals s" and pc: "cpc s = CIdle"
  shows "\<exists>s'. spsc_run s s' \<and> cpc s' = CIdle \<and> same_producer s s' \<and>
    got s' = (if length (got s) < length (sent s) then got s @ [sent s ! length (got s)] else got s)"
proof -
  let ?m = "length (got s)" and ?n = "length (sent s)"
  have cur: "inv_cursors s" using inv by (simp add: spsc_inv_def)
  let ?t = "of_nat ?m :: usize" and ?h = "of_nat ?n :: usize"
  let ?w = "(c_tail s)\<lparr>seen := ?m\<rparr>"
  let ?s1 = "s\<lparr>cpc := CTail ?t, c_tail := ?w\<rparr>"
  let ?s2 = "?s1\<lparr>cpc := CHead ?t ?h, c_head := (c_head s)\<lparr>seen := ?n, synced := ?n\<rparr>\<rparr>"
  have step1: "spsc_step s ?s1"
    using pc cur by (intro spsc_step.c_load_tail [where k = ?m]) (simp_all add: load_own inv_cursors_def)
  have step2: "spsc_step ?s1 ?s2"
    using cur by (intro spsc_step.c_load_head [where k = ?n]) (simp_all add: load_acquire inv_cursors_def)
  have run: "spsc_run s ?s2"
    using step1 step2 by (meson converse_rtranclp_into_rtranclp rtranclp.rtrancl_refl)
  have inv2: "spsc_inv vals ?s2" using run_inv [OF run inv] by simp
  have le: "?m \<le> ?n" using cur by (auto simp: inv_cursors_def)
  show ?thesis
  proof (cases "?m < ?n")
    case True
    then have ne: "?t \<noteq> ?h" using empty_test [of ?s2] inv2 by (simp add: spsc_inv_def)
    have pc2: "cpc ?s2 = CHead ?t ?h" by simp
    obtain s' where "spsc_run ?s2 s'" "cpc s' = CIdle" "same_producer ?s2 s'"
        "got s' = got ?s2 @ [sent ?s2 ! length (got ?s2)]"
      using run_take [OF inv2 pc2 ne] by blast
    with run have "spsc_run s s'" "cpc s' = CIdle" "same_producer s s'"
        "got s' = got s @ [sent s ! ?m]"
      by (simp_all add: same_producer_def)
    then show ?thesis using True by auto
  next
    case False
    with le have "?t = ?h" by simp
    then have "spsc_step ?s2 (?s2\<lparr>cpc := CIdle\<rparr>)" by (intro spsc_step.c_empty) simp_all
    with run have "spsc_run s (?s2\<lparr>cpc := CIdle\<rparr>)" by simp
    then show ?thesis using False by (auto simp: same_producer_def)
  qed
qed

text \<open>From the full test on, when there is room.\<close>

lemma run_write:
  assumes inv: "spsc_inv vals s" and pc: "ppc s = PTail v h t" and room: "\<not> h - t > s_mask s"
  shows "\<exists>s'. spsc_run s s' \<and> ppc s' = PIdle \<and> todo s' = todo s \<and> same_consumer s s' \<and>
    calls s' = calls s @ [(v, True)]"
proof -
  obtain s1 where s1: "cell_write (unat (h AND s_mask s)) v s = Inr s1" "todo s1 = todo s"
      "same_consumer s s1" "calls s1 = calls s"
    using write_ok(1) [OF inv pc room] by (auto simp: same_consumer_def)
  let ?s2 = "s1\<lparr>ppc := PWrote v h\<rparr>"
  obtain a w where "store Release (h + 1) (a_head ?s2) (p_head ?s2) = (a, w)" by fastforce
  then have "spsc_step ?s2 (?s2\<lparr>a_head := a, p_head := w, ppc := PIdle, calls := calls ?s2 @ [(v, True)]\<rparr>)"
    by (intro spsc_step.p_store) simp_all
  moreover have "spsc_step s ?s2" using pc room s1(1) by (rule spsc_step.p_write)
  ultimately have "spsc_run s (?s2\<lparr>a_head := a, p_head := w, ppc := PIdle, calls := calls ?s2 @ [(v, True)]\<rparr>)"
    by (meson converse_rtranclp_into_rtranclp rtranclp.rtrancl_refl)
  then show ?thesis using s1(2-4) by (auto simp: same_consumer_def)
qed

lemma run_try_send:
  assumes inv: "spsc_inv vals s" and pc: "ppc s = PStart v"
  shows "\<exists>s'. spsc_run s s' \<and> ppc s' = PIdle \<and> todo s' = todo s \<and> same_consumer s s' \<and>
    calls s' = calls s @ [(v, length (sent s) < length (got s) + slots_num s)]"
proof -
  let ?m = "length (got s)" and ?n = "length (sent s)"
  have cur: "inv_cursors s" using inv by (simp add: spsc_inv_def)
  let ?h = "of_nat ?n :: usize" and ?t = "of_nat ?m :: usize"
  let ?s1 = "s\<lparr>ppc := PHead v ?h, p_head := (p_head s)\<lparr>seen := ?n\<rparr>\<rparr>"
  let ?s2 = "?s1\<lparr>ppc := PTail v ?h ?t, p_tail := (p_tail s)\<lparr>seen := ?m, synced := ?m\<rparr>\<rparr>"
  have step1: "spsc_step s ?s1"
    using pc cur by (intro spsc_step.p_load_head [where k = ?n]) (simp_all add: load_own inv_cursors_def)
  have step2: "spsc_step ?s1 ?s2"
    using cur by (intro spsc_step.p_load_tail [where k = ?m]) (simp_all add: load_acquire inv_cursors_def)
  have run: "spsc_run s ?s2"
    using step1 step2 by (meson converse_rtranclp_into_rtranclp rtranclp.rtrancl_refl)
  have inv2: "spsc_inv vals ?s2" using run_inv [OF run inv] by simp
  have pc2: "ppc ?s2 = PTail v ?h ?t" by simp
  have le: "?n \<le> ?m + slots_num s" using cur by (auto simp: inv_cursors_def)
  have test: "?h - ?t > s_mask s \<longleftrightarrow> ?n = ?m + slots_num s"
    using full_test [of ?s2] inv2 by (simp add: spsc_inv_def)
  show ?thesis
  proof (cases "?n < ?m + slots_num s")
    case True
    then have room: "\<not> ?h - ?t > s_mask ?s2" using test by simp
    obtain s' where "spsc_run ?s2 s'" "ppc s' = PIdle" "todo s' = todo ?s2" "same_consumer ?s2 s'"
        "calls s' = calls ?s2 @ [(v, True)]"
      using run_write [OF inv2 pc2 room] by blast
    with run have "spsc_run s s'" "ppc s' = PIdle" "todo s' = todo s" "same_consumer s s'"
        "calls s' = calls s @ [(v, True)]"
      by (simp_all add: same_consumer_def)
    then show ?thesis using True by auto
  next
    case False
    with le have full: "?h - ?t > s_mask ?s2" using test by simp
    have "spsc_step ?s2 (?s2\<lparr>ppc := PIdle, calls := calls ?s2 @ [(v, False)]\<rparr>)"
      using pc2 full by (rule spsc_step.p_full_return)
    with run have "spsc_run s (?s2\<lparr>ppc := PIdle, calls := calls ?s2 @ [(v, False)]\<rparr>)" by simp
    then show ?thesis using False by (auto simp: same_consumer_def)
  qed
qed

section \<open>Both threads can always finish\<close>

lemma run_consumer_idle:
  assumes inv: "spsc_inv vals s"
  shows "\<exists>s'. spsc_run s s' \<and> cpc s' = CIdle \<and> same_producer s s'"
proof (cases "cpc s")
  case CIdle
  then show ?thesis by (auto simp: same_producer_def)
next
  case (CTail t)
  have cur: "inv_cursors s" using inv by (simp add: spsc_inv_def)
  let ?n = "length (sent s)"
  let ?s1 = "s\<lparr>cpc := CHead t (of_nat ?n), c_head := (c_head s)\<lparr>seen := ?n, synced := ?n\<rparr>\<rparr>"
  have step: "spsc_step s ?s1"
    using CTail cur by (intro spsc_step.c_load_head [where k = ?n]) (simp_all add: load_acquire inv_cursors_def)
  have pc: "cpc ?s1 = CHead t (of_nat ?n)" by simp
  show ?thesis
  proof (cases "t = of_nat ?n")
    case True
    have "spsc_step ?s1 (?s1\<lparr>cpc := CIdle\<rparr>)" using pc True by (rule spsc_step.c_empty)
    with step have "spsc_run s (?s1\<lparr>cpc := CIdle\<rparr>)"
      by (meson converse_rtranclp_into_rtranclp rtranclp.rtrancl_refl)
    then show ?thesis by (auto simp: same_producer_def)
  next
    case False
    obtain s' where "spsc_run ?s1 s'" "cpc s' = CIdle" "same_producer ?s1 s'"
      using run_take [OF spsc_step_inv [OF step inv] pc False] by blast
    then have "spsc_run s s'" "cpc s' = CIdle" "same_producer s s'"
      using step by (auto simp: same_producer_def intro: converse_rtranclp_into_rtranclp)
    then show ?thesis by blast
  qed
next
  case (CHead t h)
  show ?thesis
  proof (cases "t = h")
    case True
    have "spsc_step s (s\<lparr>cpc := CIdle\<rparr>)" using CHead True by (rule spsc_step.c_empty)
    then show ?thesis by (auto simp: same_producer_def)
  next
    case False
    then show ?thesis using run_take [OF inv CHead False] by blast
  qed
next
  case (CRead t v)
  obtain a w where "store Release (t + 1) (a_tail s) (c_tail s) = (a, w)" by fastforce
  with CRead have "spsc_step s (s\<lparr>a_tail := a, c_tail := w, cpc := CIdle, got := got s @ [v]\<rparr>)"
    by (rule spsc_step.c_store)
  then show ?thesis by (auto simp: same_producer_def)
qed

lemma run_drain:
  "spsc_inv vals s \<Longrightarrow> cpc s = CIdle \<Longrightarrow>
   \<exists>s'. spsc_run s s' \<and> cpc s' = CIdle \<and> same_producer s s' \<and> got s' = sent s"
proof (induction "length (sent s) - length (got s)" arbitrary: s)
  case 0
  then have "got s = sent s"
    by (auto simp: spsc_inv_def inv_values_def)
  with 0 show ?case by (auto simp: same_producer_def)
next
  case (Suc d)
  then have "length (got s) < length (sent s)" by simp
  then obtain s1 where s1: "spsc_run s s1" "cpc s1 = CIdle" "same_producer s s1"
      "got s1 = got s @ [sent s ! length (got s)]"
    using run_try_recv [OF Suc.prems] by auto
  have "d = length (sent s1) - length (got s1)"
    using Suc.hyps(2) s1 by (simp add: same_producer_def)
  then obtain s' where "spsc_run s1 s'" "cpc s' = CIdle" "same_producer s1 s'" "got s' = sent s1"
    using Suc.hyps(1) [of s1] run_inv [OF s1(1) Suc.prems(1)] s1(2) by blast
  with s1 show ?case by (auto simp: same_producer_def intro: rtranclp_trans)
qed

text \<open>
  A producer inside a call, with the consumer idle and everything received, gets its value
  through: a full test on a stale tail sends it back to the start, where it sees room.
\<close>

lemma run_producer_idle:
  assumes inv: "spsc_inv vals s" and drained: "got s = sent s"
  shows "\<exists>s'. spsc_run s s' \<and> ppc s' = PIdle \<and> todo s' = todo s \<and> same_consumer s s' \<and>
    sent s' = sent s @ in_call (ppc s)"
proof -
  have cur: "inv_cursors s" using inv by (simp add: spsc_inv_def)
  have K: "0 < slots_num s" by (rule inv_cap(1) [OF cur])
  have start: ?thesis if pc: "ppc s = PStart v" for v
    using run_try_send [OF inv pc] drained K pc by fastforce
  have retry: "\<exists>s'. spsc_run s s' \<and> ppc s' = PIdle \<and> todo s' = todo s \<and> same_consumer s s' \<and>
      sent s' = sent s @ [v]" if pc: "ppc s = PTail v h t" "spsc_inv vals s" "got s = sent s" "0 < slots_num s"
    for s :: "'a spsc_sys" and v h t
  proof (cases "h - t > s_mask s")
    case True
    let ?s1 = "s\<lparr>ppc := PStart v\<rparr>"
    have step: "spsc_step s ?s1" using pc(1) True by (rule spsc_step.p_full_retry)
    have "spsc_inv vals ?s1" using spsc_step_inv [OF step pc(2)] .
    then obtain s' where "spsc_run ?s1 s'" "ppc s' = PIdle" "todo s' = todo ?s1" "same_consumer ?s1 s'"
        "calls s' = calls ?s1 @ [(v, True)]"
      using run_try_send [of vals ?s1 v] pc(3,4) by auto
    with step show ?thesis
      by (auto simp: same_consumer_def intro!: exI [of _ s'] intro: converse_rtranclp_into_rtranclp)
  next
    case False
    obtain s' where "spsc_run s s'" "ppc s' = PIdle" "todo s' = todo s" "same_consumer s s'"
        "calls s' = calls s @ [(v, True)]"
      using run_write [OF pc(2,1) False] by blast
    then show ?thesis by auto
  qed
  show ?thesis
  proof (cases "ppc s")
    case PIdle
    then show ?thesis by (auto simp: same_consumer_def)
  next
    case (PStart v)
    then show ?thesis by (rule start)
  next
    case (PHead v h)
    let ?m = "length (got s)"
    let ?s1 = "s\<lparr>ppc := PTail v h (of_nat ?m), p_tail := (p_tail s)\<lparr>seen := ?m, synced := ?m\<rparr>\<rparr>"
    have step: "spsc_step s ?s1"
      using PHead cur by (intro spsc_step.p_load_tail [where k = ?m]) (simp_all add: load_acquire inv_cursors_def)
    have "spsc_inv vals ?s1" using spsc_step_inv [OF step inv] .
    then obtain s' where "spsc_run ?s1 s'" "ppc s' = PIdle" "todo s' = todo ?s1" "same_consumer ?s1 s'"
        "sent s' = sent ?s1 @ [v]"
      using retry [of ?s1 v h "of_nat ?m"] drained K by auto
    with step PHead show ?thesis
      by (auto simp: same_consumer_def intro!: exI [of _ s'] intro: converse_rtranclp_into_rtranclp)
  next
    case (PTail v h t)
    then show ?thesis using retry [OF PTail inv drained K] by simp
  next
    case (PWrote v h)
    obtain a w where "store Release (h + 1) (a_head s) (p_head s) = (a, w)" by fastforce
    with PWrote have "spsc_step s (s\<lparr>a_head := a, p_head := w, ppc := PIdle, calls := calls s @ [(v, True)]\<rparr>)"
      by (rule spsc_step.p_store)
    with PWrote show ?thesis by (auto simp: same_consumer_def)
  qed
qed

lemma run_to_end:
  "spsc_inv vals s \<Longrightarrow> ppc s = PIdle \<Longrightarrow> cpc s = CIdle \<Longrightarrow> got s = sent s \<Longrightarrow>
   \<exists>s'. spsc_run s s' \<and> ppc s' = PIdle \<and> cpc s' = CIdle \<and> todo s' = [] \<and>
     sent s' = sent s @ todo s \<and> got s' = sent s'"
proof (induction "todo s" arbitrary: s)
  case Nil
  then show ?case by auto
next
  case (Cons v vs)
  let ?s0 = "s\<lparr>ppc := PStart v, todo := vs\<rparr>"
  have step: "spsc_step s ?s0" using Cons.prems(2) Cons.hyps(2) [symmetric] by (rule spsc_step.p_call)
  have inv0: "spsc_inv vals ?s0" using spsc_step_inv [OF step Cons.prems(1)] .
  obtain s1 where s1: "spsc_run ?s0 s1" "ppc s1 = PIdle" "todo s1 = todo ?s0" "same_consumer ?s0 s1"
      "sent s1 = sent ?s0 @ in_call (ppc ?s0)"
    using run_producer_idle [OF inv0] Cons.prems(4) by auto
  have inv1: "spsc_inv vals s1" using run_inv [OF s1(1) inv0] by simp
  obtain s2 where s2: "spsc_run s1 s2" "cpc s2 = CIdle" "same_producer s1 s2" "got s2 = sent s1"
    using run_drain [OF inv1] s1(4) Cons.prems(3) by (auto simp: same_consumer_def)
  have inv2: "spsc_inv vals s2" using run_inv [OF s2(1) inv1] by simp
  obtain s' where s': "spsc_run s2 s'" "ppc s' = PIdle" "cpc s' = CIdle" "todo s' = []"
      "sent s' = sent s2 @ todo s2" "got s' = sent s'"
    using Cons.hyps(1) [of s2] inv2 s1 s2 by (auto simp: same_producer_def)
  have "spsc_run s s'"
    using step s1(1) s2(1) s'(1) by (meson converse_rtranclp_into_rtranclp rtranclp_trans)
  moreover have "sent s' = sent s @ todo s"
    using s' s1 s2 Cons.hyps(2) by (simp add: same_producer_def)
  ultimately show ?case using s' by blast
qed

lemma run_complete:
  assumes inv: "spsc_inv vals s"
  shows "\<exists>s'. spsc_run s s' \<and> ppc s' = PIdle \<and> cpc s' = CIdle \<and> todo s' = [] \<and>
     sent s' = sent s @ in_call (ppc s) @ todo s \<and> got s' = sent s'"
proof -
  obtain s1 where s1: "spsc_run s s1" "cpc s1 = CIdle" "same_producer s s1"
    using run_consumer_idle [OF inv] by blast
  have inv1: "spsc_inv vals s1" using run_inv [OF s1(1) inv] by simp
  obtain s2 where s2: "spsc_run s1 s2" "cpc s2 = CIdle" "same_producer s1 s2" "got s2 = sent s1"
    using run_drain [OF inv1 s1(2)] by blast
  have inv2: "spsc_inv vals s2" using run_inv [OF s2(1) inv1] by simp
  have d2: "got s2 = sent s2" using s2(3,4) by (simp add: same_producer_def)
  obtain s3 where s3: "spsc_run s2 s3" "ppc s3 = PIdle" "todo s3 = todo s2" "same_consumer s2 s3"
      "sent s3 = sent s2 @ in_call (ppc s2)"
    using run_producer_idle [OF inv2 d2] by blast
  have inv3: "spsc_inv vals s3" using run_inv [OF s3(1) inv2] by simp
  obtain s4 where s4: "spsc_run s3 s4" "cpc s4 = CIdle" "same_producer s3 s4" "got s4 = sent s3"
    using run_drain [OF inv3] s3(4) s2(2) by (auto simp: same_consumer_def)
  have inv4: "spsc_inv vals s4" using run_inv [OF s4(1) inv3] by simp
  obtain s' where s': "spsc_run s4 s'" "ppc s' = PIdle" "cpc s' = CIdle" "todo s' = []"
      "sent s' = sent s4 @ todo s4" "got s' = sent s'"
    using run_to_end [OF inv4] s4 s3(2) by (auto simp: same_producer_def)
  have "spsc_run s s'"
    using s1(1) s2(1) s3(1) s4(1) s'(1) by (meson rtranclp_trans)
  moreover have "sent s' = sent s @ in_call (ppc s) @ todo s"
    using s' s4 s3 s2 s1 by (simp add: same_producer_def)
  ultimately show ?thesis using s' by blast
qed

section \<open>Running a call alone is the sequential operation\<close>

lemma ring_of_cursors:
  assumes "spsc_inv vals s"
  shows "head (ring_of s) = of_nat (length (sent s))" "tail (ring_of s) = of_nat (length (got s))"
    "length (got s) \<le> length (sent s)" "length (sent s) \<le> length (got s) + slots_num s"
  using assms by (auto simp: spsc_inv_def inv_cursors_def ring_of_def intro: latest_counts)

lemma ring_of_eqI:
  assumes inv: "spsc_inv vals s" and quiet: "written (ppc s) = []" "taken (cpc s) = 0"
    and wf: "wf_ring r" and cap: "ring_cap r = slots_num s"
    and cur: "head r = of_nat (length (sent s))" "tail r = of_nat (length (got s))"
    and cont: "contents r = drop (length (got s)) (sent s)"
  shows "r = ring_of s"
  using ring_of_quiet [OF inv quiet] ring_of_cursors [OF inv] assms by (intro ring_eqI) simp_all

lemma try_send_heads:
  "try_send v r = Inr (Inr (), r') \<Longrightarrow> head r' = head r + 1 \<and> tail r' = tail r"
  by (auto simp: try_send_def Let_def and_then_Inr_iff slot_write_def split: if_splits)

lemma try_recv_heads:
  "try_recv r = Inr (Some v, r') \<Longrightarrow> head r' = head r \<and> tail r' = tail r + 1"
  by (auto simp: try_recv_def Let_def and_then_Inr_iff slot_take_def split: if_splits option.splits)

lemma try_send_alone:
  assumes inv: "spsc_inv vals s" and pc: "ppc s = PStart v" and idle: "cpc s = CIdle"
  shows "\<exists>s' res. spsc_run s s' \<and> ppc s' = PIdle \<and> cpc s' = CIdle \<and>
    try_send v (ring_of s) = Inr (res, ring_of s') \<and>
    calls s' = calls s @ [(v, res = Inr ())]"
proof -
  let ?r = "ring_of s"
  have q: "written (ppc s) = []" "taken (cpc s) = 0" using pc idle by simp_all
  note ring = ring_of_quiet [OF inv q] and cur = ring_of_cursors [OF inv]
  have len: "ring_len ?r = length (sent s) - length (got s)"
    using arg_cong [OF ring(2), of length] by simp
  obtain s' where s': "spsc_run s s'" "ppc s' = PIdle" "todo s' = todo s" "same_consumer s s'"
      "calls s' = calls s @ [(v, length (sent s) < length (got s) + slots_num s)]"
    using run_try_send [OF inv pc] by blast
  have inv': "spsc_inv vals s'" "slots_num s' = slots_num s" using run_inv [OF s'(1) inv] by auto
  have q': "written (ppc s') = []" "taken (cpc s') = 0" "got s' = got s" "cpc s' = CIdle"
    using s' idle by (simp_all add: same_consumer_def)
  show ?thesis
  proof (cases "length (sent s) < length (got s) + slots_num s")
    case True
    then have "ring_len ?r < ring_cap ?r" using len cur(3) ring(3) by simp
    then obtain r' where r': "try_send v ?r = Inr (Inr (), r')" "wf_ring r'"
        "contents r' = contents ?r @ [v]" "ring_cap r' = ring_cap ?r"
      using try_send_room [OF ring(1)] by blast
    have "r' = ring_of s'"
      using r' q' s'(5) True ring cur try_send_heads [OF r'(1)] inv'(2)
      by (intro ring_of_eqI [OF inv'(1)]) simp_all
    then show ?thesis using s' q' r' True by auto
  next
    case False
    then have "ring_len ?r = ring_cap ?r" using len cur ring(3) by simp
    then have r': "try_send v ?r = Inr (Inl v, ?r)" by (rule try_send_full [OF ring(1)])
    have "?r = ring_of s'"
      using q' s'(5) False ring cur inv'(2) by (intro ring_of_eqI [OF inv'(1)]) simp_all
    then show ?thesis using s' q' r' False by auto
  qed
qed

lemma try_recv_alone:
  assumes inv: "spsc_inv vals s" and pc: "cpc s = CIdle" and quiet: "written (ppc s) = []"
  shows "\<exists>s' res. spsc_run s s' \<and> cpc s' = CIdle \<and> ppc s' = ppc s \<and>
    try_recv (ring_of s) = Inr (res, ring_of s') \<and>
    got s' = got s @ (case res of None \<Rightarrow> [] | Some v \<Rightarrow> [v])"
proof -
  let ?r = "ring_of s"
  have q: "written (ppc s) = []" "taken (cpc s) = 0" using pc quiet by simp_all
  note ring = ring_of_quiet [OF inv q] and cur = ring_of_cursors [OF inv]
  obtain s' where s': "spsc_run s s'" "cpc s' = CIdle" "same_producer s s'"
      "got s' = (if length (got s) < length (sent s) then got s @ [sent s ! length (got s)] else got s)"
    using run_try_recv [OF inv pc] by blast
  have inv': "spsc_inv vals s'" "slots_num s' = slots_num s" using run_inv [OF s'(1) inv] by auto
  have q': "written (ppc s') = []" "taken (cpc s') = 0" "sent s' = sent s" "ppc s' = ppc s"
    using s' quiet by (simp_all add: same_producer_def)
  show ?thesis
  proof (cases "length (got s) < length (sent s)")
    case True
    then have cons: "contents ?r = sent s ! length (got s) # drop (Suc (length (got s))) (sent s)"
      using ring(2) by (simp add: Cons_nth_drop_Suc)
    obtain r' where r': "try_recv ?r = Inr (Some (sent s ! length (got s)), r')" "wf_ring r'"
        "contents r' = drop (Suc (length (got s))) (sent s)" "ring_cap r' = ring_cap ?r"
      using try_recv_some [OF ring(1) cons] by blast
    have "r' = ring_of s'"
      using r' q' s'(4) True ring cur try_recv_heads [OF r'(1)] inv'(2)
      by (intro ring_of_eqI [OF inv'(1)]) simp_all
    then show ?thesis using s' q' r' True by auto
  next
    case False
    then have "try_recv ?r = Inr (None, ?r)" using ring(2) by (intro try_recv_empty) simp
    moreover have "?r = ring_of s'"
      using q' s'(4) False ring cur inv'(2) by (intro ring_of_eqI [OF inv'(1)]) simp_all
    ultimately show ?thesis using s' q' False by auto
  qed
qed

section \<open>Properties\<close>

lemma reach_run: "spsc_run s s' \<Longrightarrow> spsc_reach c vals s \<Longrightarrow> spsc_reach c vals s'"
  by (induction rule: rtranclp_induct) (auto intro: spsc_reach.step)

text \<open>The values sent and not yet received.\<close>

definition in_flight :: "'a spsc_sys \<Rightarrow> 'a list" where
  "in_flight s = drop (length (got s)) (sent s)"

lemma got_prefix: "spsc_inv vals s \<Longrightarrow> prefix (got s) (sent s)"
  unfolding spsc_inv_def inv_values_def by (metis take_is_prefix)

lemma sent_split: "spsc_inv vals s \<Longrightarrow> sent s = got s @ in_flight s"
  using got_prefix [of vals s] by (auto simp: in_flight_def prefix_def)

lemma in_flight_bounded: "spsc_inv vals s \<Longrightarrow> length (in_flight s) \<le> slots_num s"
  using ring_of_cursors [of vals s] by (simp add: in_flight_def)

text \<open>A concrete run, for capacity 2 and the values 1, 2 and 3.\<close>

definition example_init :: "nat spsc_sys" where
  "example_init = (case spsc_init 2 [1, 2, 3] of Inr s \<Rightarrow> s)"

lemma example_init_eq: "spsc_init 2 [1, 2, 3] = Inr example_init"
  unfolding example_init_def by code_simp

lemma example_reach_init: "spsc_reach 2 [1, 2, 3] example_init"
  using example_init_eq by (rule spsc_reach.start)

lemma example_init_fields:
  "ppc example_init = PIdle" "cpc example_init = CIdle" "todo example_init = [1, 2, 3]"
  "calls example_init = []" "got example_init = []"
  unfolding example_init_def by code_simp+

lemma example_start:
  obtains s where "spsc_reach 2 [1, 2, 3 :: nat] s" "ppc s = PStart 1" "cpc s = CIdle"
    "todo s = [2, 3]" "calls s = []" "got s = []"
proof -
  let ?s = "example_init\<lparr>ppc := PStart 1, todo := [2, 3]\<rparr>"
  have "spsc_step example_init ?s"
    by (rule spsc_step.p_call) (simp_all add: example_init_fields)
  with example_reach_init have "spsc_reach 2 [1, 2, 3] ?s" by (rule spsc_reach.step)
  with that [of ?s] show ?thesis by (simp add: example_init_fields)
qed

text \<open>The next value goes in, as long as there is room.\<close>

lemma example_send:
  assumes "spsc_reach 2 vals s" "ppc s = PStart v" "todo s = w # ws" "length (sent s) < length (got s) + 2"
  obtains s' where "spsc_reach 2 vals s'" "ppc s' = PStart w" "todo s' = ws" "cpc s' = cpc s"
    "calls s' = calls s @ [(v, True)]" "got s' = got s"
proof -
  have inv: "spsc_inv vals s" "slots_num s = 2" using reach_inv [OF assms(1)] by simp_all
  obtain s1 where s1: "spsc_run s s1" "ppc s1 = PIdle" "todo s1 = w # ws" "same_consumer s s1"
      "calls s1 = calls s @ [(v, True)]"
    using run_try_send [OF inv(1) assms(2)] assms(3,4) inv(2) by auto
  have "spsc_reach 2 vals s1" using s1(1) assms(1) by (rule reach_run)
  moreover have "spsc_step s1 (s1\<lparr>ppc := PStart w, todo := ws\<rparr>)" using s1(2,3) by (rule spsc_step.p_call)
  ultimately have "spsc_reach 2 vals (s1\<lparr>ppc := PStart w, todo := ws\<rparr>)" by (rule spsc_reach.step)
  with that s1 show ?thesis by (simp add: same_consumer_def)
qed

lemma example_full:
  obtains s where "spsc_reach 2 [1, 2, 3 :: nat] s" "ppc s = PTail 3 2 0" "s_mask s = 1"
    "calls s = [(1, True), (2, True)]" "got s = []" "cpc s = CIdle" "seen (p_tail s) = 0"
proof -
  obtain s0 where s0: "spsc_reach 2 [1, 2, 3 :: nat] s0" "ppc s0 = PStart 1" "cpc s0 = CIdle"
    "todo s0 = [2, 3]" "calls s0 = []" "got s0 = []" by (rule example_start)
  obtain s1 where s1: "spsc_reach 2 [1, 2, 3 :: nat] s1" "ppc s1 = PStart 2" "todo s1 = [3]"
      "cpc s1 = CIdle" "calls s1 = [(1, True)]" "got s1 = []"
    using example_send [OF s0(1,2,4)] s0 by auto
  obtain s2 where s2: "spsc_reach 2 [1, 2, 3 :: nat] s2" "ppc s2 = PStart 3" "cpc s2 = CIdle"
      "calls s2 = [(1, True), (2, True)]" "got s2 = []"
    using example_send [OF s1(1,2,3)] s1 by (auto simp: oks_def)
  have inv: "spsc_inv [1, 2, 3] s2" "slots_num s2 = 2" using reach_inv [OF s2(1)] by simp_all
  then have cur: "inv_cursors s2" by (simp add: spsc_inv_def)
  have sent: "sent s2 = [1, 2]" by (simp add: s2 oks_def)
  let ?s3 = "s2\<lparr>ppc := PHead 3 2, p_head := (p_head s2)\<lparr>seen := 2\<rparr>\<rparr>"
  let ?s4 = "?s3\<lparr>ppc := PTail 3 2 0, p_tail := (p_tail s2)\<lparr>seen := 0, synced := 0\<rparr>\<rparr>"
  have "spsc_step s2 ?s3"
    using s2 cur sent by (intro spsc_step.p_load_head [where k = 2]) (simp_all add: load_own inv_cursors_def)
  moreover have "spsc_step ?s3 ?s4"
    using s2 cur by (intro spsc_step.p_load_tail [where k = 0])
      (simp_all add: load_acquire inv_cursors_def)
  ultimately have "spsc_reach 2 [1, 2, 3] ?s4" using s2(1) by (blast intro: spsc_reach.step)
  moreover have "s_mask s2 = 1"
    using inv_cap(3) [OF cur] inv(2) by (intro word_unat_eq_iff [THEN iffD2]) simp
  ultimately show ?thesis using that [of ?s4] s2 by simp
qed

lemma example_done:
  obtains s where "spsc_reach 2 [1, 2, 3 :: nat] s" "ppc s = PIdle" "cpc s = CIdle" "got s = [1, 2, 3]"
proof -
  obtain s where "spsc_run example_init s" "ppc s = PIdle" "cpc s = CIdle" "got s = [1, 2, 3]"
    using run_complete [OF conjunct1 [OF reach_inv [OF example_reach_init]]]
    by (auto simp: example_init_fields)
  with that [of s] reach_run [OF _ example_reach_init] show ?thesis by blast
qed

text \<open>
  C1: Memory safety.  In every interleaving and under every value the acquire loads may return,
  no thread is ever about to access a slot out of range, to read a slot without an initialised
  value, or to touch a slot that the other thread's last access does not happen before.
\<close>

theorem spsc_memory_safe:
  assumes "spsc_reach c vals s"
  shows "next_faults s = []"
  using no_next_faults reach_inv [OF assms] by blast

theorem spsc_memory_safe_witness:
  "\<exists>s. spsc_reach 2 [1, 2, 3 :: nat] s \<and> ppc s = PTail 3 2 0 \<and> next_faults s = []"
  by (rule example_full) (use spsc_memory_safe in blast)

text \<open>
  C2: Delivery.  At every moment the values received are a prefix of the values sent, so none is
  lost, duplicated or reordered; at most capacity values are in between; and the producer's
  finished calls, the call in progress and the calls to come are its input, in order.
\<close>

theorem spsc_fifo:
  assumes "spsc_reach c vals s"
  shows "prefix (got s) (sent s) \<and> length (sent s) - length (got s) \<le> unat c \<and>
    map fst (calls s) @ in_call (ppc s) @ todo s = vals"
  using reach_inv [OF assms] got_prefix [of vals s] ring_of_cursors(4) [of vals s]
  by (auto simp: spsc_inv_def inv_values_def)

theorem spsc_fifo_witness:
  "\<exists>s. spsc_reach 2 [1, 2, 3 :: nat] s \<and> got s = [1, 2, 3] \<and> prefix [1, 2, 3] (sent s)"
  by (rule example_done) (use spsc_fifo in metis)

lemma step_refines:
  assumes step: "spsc_step s s'" and inv: "spsc_inv vals s"
  shows "in_flight s' = in_flight s \<and> sent s' = sent s \<and> got s' = got s \<or>
    (\<exists>v. in_flight s' = in_flight s @ [v] \<and> sent s' = sent s @ [v] \<and> got s' = got s) \<or>
    (\<exists>v. in_flight s = v # in_flight s' \<and> sent s' = sent s \<and> got s' = got s @ [v])"
  using step
proof cases
  case (p_store v h a w)
  then show ?thesis using ring_of_cursors(3) [OF inv] by (simp add: in_flight_def)
next
  case (c_store t v a w)
  then have "sent s' = got s' @ in_flight s'" "got s' = got s @ [v]" "sent s' = sent s"
    using sent_split [OF spsc_step_inv [OF step inv]] by simp_all
  then show ?thesis using sent_split [OF inv] by simp
next
  case (p_write v h t s1)
  then have "calls s1 = calls s" "got s1 = got s"
    by (auto simp: cell_write_def split: if_splits)
  with p_write show ?thesis by (simp add: in_flight_def)
next
  case (c_read t h v s1)
  then have "calls s1 = calls s" "got s1 = got s"
    by (auto simp: cell_take_def split: if_splits option.splits)
  with c_read show ?thesis by (simp add: in_flight_def)
qed (simp_all add: in_flight_def)

text \<open>
  C3: Refinement.  Every step of either thread is, on the abstract queue of the values in
  flight, nothing, one enqueue at the back while there is room, or one dequeue at the front.
\<close>

theorem spsc_step_refines:
  assumes "spsc_reach c vals s" and "spsc_step s s'"
  shows "in_flight s' = in_flight s \<and> sent s' = sent s \<and> got s' = got s \<or>
    (\<exists>v. length (in_flight s) < unat c \<and> in_flight s' = in_flight s @ [v] \<and>
         sent s' = sent s @ [v] \<and> got s' = got s) \<or>
    (\<exists>v. in_flight s = v # in_flight s' \<and> sent s' = sent s \<and> got s' = got s @ [v])"
proof -
  have inv: "spsc_inv vals s" "slots_num s = unat c" using reach_inv [OF assms(1)] by simp_all
  have inv': "spsc_inv vals s'" "slots_num s' = unat c"
    using reach_inv [OF spsc_reach.step [OF assms]] by simp_all
  have "length (in_flight s') \<le> unat c" using in_flight_bounded [OF inv'(1)] inv'(2) by simp
  with step_refines [OF assms(2) inv(1)] show ?thesis by auto
qed

theorem spsc_step_refines_witness:
  "\<exists>s s'. spsc_step s s' \<and> in_flight s = [1, 2 :: nat] \<and> in_flight s' = [1, 2] \<and> calls s' = calls s @ [(3, False)]"
proof (rule example_full)
  fix s
  assume s: "spsc_reach 2 [1, 2, 3 :: nat] s" "ppc s = PTail 3 2 0" "s_mask s = 1"
    "calls s = [(1, True), (2, True)]" "got s = []"
  let ?s = "s\<lparr>ppc := PIdle, calls := calls s @ [(3, False)]\<rparr>"
  have step: "spsc_step s ?s" using s(2) by (rule spsc_step.p_full_return) (simp add: s)
  have "in_flight s = [1, 2]" by (simp add: in_flight_def s oks_def)
  moreover from spsc_step_refines [OF s(1) step] have "in_flight ?s = in_flight s" by auto
  moreover have "calls ?s = calls s @ [(3, False)]" by simp
  ultimately show ?thesis using step by metis
qed

text \<open>
  C19: The verdicts of the two tests are right for what the thread has seen: \<open>try_send\<close> finds the
  queue full exactly when the values sent are capacity more than the reads it has seen
  released, and \<open>try_recv\<close> finds it empty exactly when it has received every value it has seen
  released; both are lower bounds of what the other thread has really done.
\<close>

theorem spsc_verdicts:
  assumes "spsc_reach c vals s"
  shows "(case ppc s of
      PTail v h t \<Rightarrow> (h - t > s_mask s) = (length (sent s) = seen (p_tail s) + unat c)
    | _ \<Rightarrow> True) \<and>
    (case cpc s of CHead t h \<Rightarrow> (t = h) = (length (got s) = seen (c_head s)) | _ \<Rightarrow> True) \<and>
    seen (p_tail s) \<le> length (got s) \<and> seen (c_head s) \<le> length (sent s)"
proof -
  have inv: "spsc_inv vals s" "slots_num s = unat c" using reach_inv [OF assms] by simp_all
  then have cur: "inv_cursors s" by (simp add: spsc_inv_def)
  show ?thesis
    using inv cur full_test [OF cur] empty_test [OF cur]
    by (auto simp: spsc_inv_def inv_pcs_def inv_cursors_def split: ppc.split cpc.split)
qed

theorem spsc_verdicts_witness:
  "\<exists>s. spsc_reach 2 [1, 2, 3 :: nat] s \<and> ppc s = PTail 3 2 0 \<and> s_mask s = 1 \<and>
     length (sent s) = seen (p_tail s) + 2"
proof (rule example_full)
  fix s
  assume s: "spsc_reach 2 [1, 2, 3 :: nat] s" "ppc s = PTail 3 2 0" "s_mask s = 1"
  with spsc_verdicts [OF s(1)] show ?thesis by auto
qed

text \<open>
  C17: No deadlock.  From every reachable state there is a continuation in which every call
  finishes, every value still to come is sent (a full queue is retried) and all values sent
  are received.
\<close>

theorem spsc_can_complete:
  assumes "spsc_reach c vals s"
  shows "\<exists>s'. spsc_run s s' \<and> ppc s' = PIdle \<and> cpc s' = CIdle \<and> todo s' = [] \<and>
    sent s' = sent s @ in_call (ppc s) @ todo s \<and> got s' = sent s'"
  using run_complete reach_inv [OF assms] by blast

theorem spsc_can_complete_witness:
  "\<exists>s. spsc_reach 2 [1, 2, 3 :: nat] s \<and> ppc s = PTail 3 2 0 \<and> (\<exists>s'. spsc_run s s' \<and> got s' = [1, 2, 3])"
proof (rule example_full)
  fix s
  assume s: "spsc_reach 2 [1, 2, 3 :: nat] s" "ppc s = PTail 3 2 0" "calls s = [(1, True), (2, True)]"
  have "todo s = []" using reach_inv [OF s(1)] by (simp add: s spsc_inv_def inv_values_def)
  then obtain s' where "spsc_run s s'" "got s' = [1, 2, 3]"
    using spsc_can_complete [OF s(1)] s by (auto simp: oks_def)
  with s show ?thesis by blast
qed

text \<open>
  C18: Teardown.  When both threads have returned from their calls and the shared state is
  dropped, the values dropped are exactly the values sent and not received, each once.
\<close>

theorem spsc_teardown:
  assumes "spsc_reach c vals s" and "ppc s = PIdle" and "cpc s = CIdle"
  shows "\<exists>dropped r. ring_drop (ring_of s) = Inr (dropped, r) \<and> got s @ dropped = sent s \<and>
    slots r = replicate (unat c) None"
proof -
  have inv: "spsc_inv vals s" "slots_num s = unat c" using reach_inv [OF assms(1)] by simp_all
  note ring = ring_of_quiet [OF inv(1)]
  have "wf_ring (ring_of s)" "contents (ring_of s) = in_flight s"
    using ring assms(2,3) by (simp_all add: in_flight_def)
  with drop_loop_contents [of "ring_of s"] show ?thesis
    using sent_split [OF inv(1)] inv(2)
    by (auto simp: ring_drop_def ring_of_def map_replicate_const)
qed

theorem spsc_teardown_witness:
  "\<exists>s r. spsc_reach 2 [1, 2, 3 :: nat] s \<and> sent s = [1, 2] \<and> ring_drop (ring_of s) = Inr ([1, 2], r)"
proof (rule example_full)
  fix s
  assume s: "spsc_reach 2 [1, 2, 3 :: nat] s" "ppc s = PTail 3 2 0" "s_mask s = 1"
    "calls s = [(1, True), (2, True)]" "got s = []" "cpc s = CIdle"
  let ?s = "s\<lparr>ppc := PIdle, calls := calls s @ [(3, False)]\<rparr>"
  have "spsc_step s ?s" using s(2) by (rule spsc_step.p_full_return) (simp add: s)
  with s(1) have "spsc_reach 2 [1, 2, 3] ?s" by (rule spsc_reach.step)
  with spsc_teardown [OF this] s show ?thesis by (fastforce simp: oks_def)
qed

text \<open>
  A \<open>try_send\<close> that runs with the consumer between its calls, and a \<open>try_recv\<close> that runs with
  the producer outside its slot write, have on the memory exactly the effect and the result of
  the sequential operations of theory \<open>Ring\<close>.
\<close>

lemma spsc_alone_is_sequential:
  assumes "spsc_reach c vals s" and "cpc s = CIdle" and "written (ppc s) = []"
  shows "(\<forall>v. ppc s = PStart v \<longrightarrow>
      (\<exists>s' res. spsc_run s s' \<and> ppc s' = PIdle \<and> cpc s' = CIdle \<and>
        try_send v (ring_of s) = Inr (res, ring_of s') \<and> calls s' = calls s @ [(v, res = Inr ())])) \<and>
    (\<exists>s' res. spsc_run s s' \<and> cpc s' = CIdle \<and> ppc s' = ppc s \<and>
      try_recv (ring_of s) = Inr (res, ring_of s') \<and>
      got s' = got s @ (case res of None \<Rightarrow> [] | Some v \<Rightarrow> [v]))"
  using try_send_alone [OF _ _ assms(2)] try_recv_alone [OF _ assms(2,3)] reach_inv [OF assms(1)] by blast

lemma spsc_alone_is_sequential_example:
  "(\<exists>s s' res. spsc_run s s' \<and> ppc s = PStart (1 :: nat) \<and> try_send 1 (ring_of s) = Inr (res, ring_of s')) \<and>
   (\<exists>s s' res. spsc_run s s' \<and> sent s = [1, 2 :: nat] \<and> try_recv (ring_of s) = Inr (res, ring_of s'))"
proof
  show "\<exists>s s' res. spsc_run s s' \<and> ppc s = PStart (1 :: nat) \<and> try_send 1 (ring_of s) = Inr (res, ring_of s')"
  proof (rule example_start)
    fix s
    assume s: "spsc_reach 2 [1, 2, 3 :: nat] s" "ppc s = PStart 1" "cpc s = CIdle"
    then have "written (ppc s) = []" by simp
    from spsc_alone_is_sequential [OF s(1,3) this] s(2) show ?thesis by blast
  qed
  show "\<exists>s s' res. spsc_run s s' \<and> sent s = [1, 2 :: nat] \<and> try_recv (ring_of s) = Inr (res, ring_of s')"
  proof (rule example_full)
    fix s
    assume s: "spsc_reach 2 [1, 2, 3 :: nat] s" "ppc s = PTail 3 2 0" "cpc s = CIdle"
      "calls s = [(1, True), (2, True)]"
    then have "written (ppc s) = []" "sent s = [1, 2]" by (simp_all add: oks_def)
    with spsc_alone_is_sequential [OF s(1,3)] show ?thesis by metis
  qed
qed

end
