(* ===== verification/Bus_Threads.thy ===== *)
theory Bus_Threads
  imports Bus
begin

text \<open>
  The bus of \<open>crates/bus/src/lib.rs\<close> used by any number of threads at once.  One step is one action
  that other threads can see: taking the lock, sending to one channel, adding to the drop counter,
  changing the table of subscriptions, receiving, dropping a receiver.  What theory \<open>Bus\<close> does in
  one step, \<open>offer\<close> does here in many, with receivers at work in between; the time stamp is taken
  and the channel of a new subscription is made before the lock is.  The drop counter is read
  without the lock and relaxed, so a thread may read an old value.
\<close>

section \<open>Threads\<close>

text \<open>What a thread does next.\<close>

datatype 'c bus_pc =
    Idle
  | Stamping message
  | Waiting message str
  | Sending message str "sub list" offer_result
  | Counting message str "sub list" offer_result
  | Registering str 'c
  | Inserting str 'c
  | Removing u64
  | Erasing u64

datatype outcome = Taken | Refused | Gone

fun outcome_of :: "message try_send_error + unit \<Rightarrow> outcome" where
  "outcome_of (Inr u) = Taken"
| "outcome_of (Inl (Full m)) = Refused"
| "outcome_of (Inl (Disconnected m)) = Gone"

text \<open>
  \<open>adds\<close> is how often the drop counter has been incremented, so its modification order is
  \<open>0, 1, ..., adds\<close>; \<open>views t\<close> is how far in it thread \<open>t\<close> has seen, and \<open>lock_view\<close> how far the
  thread had that released the lock last.  The other fields after \<open>pcs\<close> record the run: what
  each thread has read of the counter, the time stamps in the order they were taken, the messages of offers in the order these took the lock, what has been tried on each channel with
  which outcome, the number of messages before a subscription, the results returned, what each
  receiver has returned, and which receivers have been dropped.
\<close>

record 'c bus_sys =
  mem :: "'c bus"
  owner :: "nat option"
  pcs :: "nat \<Rightarrow> 'c bus_pc"
  adds :: nat
  views :: "nat \<Rightarrow> nat"
  lock_view :: nat
  loads :: "nat \<Rightarrow> u64 list"
  stamps :: "u64 list"
  entered :: "message list"
  tried :: "nat \<Rightarrow> (message \<times> outcome) list"
  since :: "nat \<Rightarrow> nat"
  returned :: "offer_result list"
  received_from :: "nat \<Rightarrow> message list"
  dropped_rx :: "nat set"

definition bus_sys_init :: "usize \<Rightarrow> 'c bus_sys" where
  "bus_sys_init cap =
     \<lparr>mem = bus_new cap, owner = None, pcs = (\<lambda>_. Idle), adds = 0, views = (\<lambda>_. 0), lock_view = 0,
      loads = (\<lambda>_. []), stamps = [], entered = [], tried = (\<lambda>_. []), since = (\<lambda>_. 0), returned = [],
      received_from = (\<lambda>_. []), dropped_rx = {}\<rparr>"

text \<open>The actions, one by one.\<close>

definition goto :: "nat \<Rightarrow> 'c bus_pc \<Rightarrow> 'c bus_sys \<Rightarrow> 'c bus_sys" where
  "goto t p s = s\<lparr>pcs := (pcs s)(t := p)\<rparr>"

definition acquire :: "nat \<Rightarrow> 'c bus_sys \<Rightarrow> 'c bus_sys" where
  "acquire t s = s\<lparr>owner := Some t, views := (views s)(t := max (views s t) (lock_view s))\<rparr>"

definition release :: "nat \<Rightarrow> 'c bus_sys \<Rightarrow> 'c bus_sys" where
  "release t s = s\<lparr>owner := None, lock_view := views s t, pcs := (pcs s)(t := Idle)\<rparr>"

text \<open>The channel of a new subscription is made first and known to its thread only until it is put into the table.\<close>

definition insert_sub :: "('c \<Rightarrow> 'c) \<Rightarrow> str \<Rightarrow> 'c \<Rightarrow> 'c bus \<Rightarrow> 'c bus" where
  "insert_sub drop_tx pattern c b =
     b\<lparr>next_id := next_id b + 1, chans := drop_sub drop_tx (subs b (next_id b)) (chans b @ [c]),
       subs := (subs b)(next_id b \<mapsto> \<lparr>sub_filter = filter_parse pattern, tx = length (chans b)\<rparr>)\<rparr>"

definition put_chan :: "nat \<Rightarrow> 'c \<Rightarrow> 'c bus_sys \<Rightarrow> 'c bus_sys" where
  "put_chan h c s = s\<lparr>mem := (mem s)\<lparr>chans := (chans (mem s))[h := c]\<rparr>\<rparr>"

definition record_try :: "nat \<Rightarrow> message \<Rightarrow> outcome \<Rightarrow> 'c bus_sys \<Rightarrow> 'c bus_sys" where
  "record_try h m oc s = s\<lparr>tried := (tried s)(h := tried s h @ [(m, oc)])\<rparr>"

fun after_try :: "message try_send_error + unit \<Rightarrow> message \<Rightarrow> str \<Rightarrow> sub list \<Rightarrow> offer_result \<Rightarrow> 'c bus_pc" where
  "after_try (Inr u) m tp ss r = Sending m tp ss (r\<lparr>sent := sent r + 1\<rparr>)"
| "after_try (Inl (Full _)) m tp ss r = Counting m tp ss (r\<lparr>dropped := dropped r + 1\<rparr>)"
| "after_try (Inl (Disconnected _)) m tp ss r = Sending m tp ss r"

inductive bus_thread_step ::
    "(message \<Rightarrow> 'c \<Rightarrow> (message try_send_error + unit) \<times> 'c) \<Rightarrow> (usize \<Rightarrow> 'c)
      \<Rightarrow> ('c \<Rightarrow> (try_recv_error + message) \<times> 'c) \<Rightarrow> ('c \<Rightarrow> 'c) \<Rightarrow> ('c \<Rightarrow> 'c)
      \<Rightarrow> 'c bus_sys \<Rightarrow> 'c bus_sys \<Rightarrow> bool"
    for snd_op bounded rcv_op dtx drx where
  o_call: "pcs s t = Idle \<Longrightarrow> wf_message m \<Longrightarrow>
     bus_thread_step snd_op bounded rcv_op dtx drx s (goto t (Stamping m) s)"
| o_stamp: "pcs s t = Stamping m \<Longrightarrow> topic_str (stamp clock m) = Inr tp \<Longrightarrow>
     bus_thread_step snd_op bounded rcv_op dtx drx s (goto t (Waiting (stamp clock m) tp) (s\<lparr>stamps := stamps s @ [timestamp_ns (stamp clock m)]\<rparr>))"
| o_lock: "pcs s t = Waiting m tp \<Longrightarrow> owner s = None \<Longrightarrow> iterates order (mem s) \<Longrightarrow>
     bus_thread_step snd_op bounded rcv_op dtx drx s
       (goto t (Sending m tp (map (\<lambda>sid. the (subs (mem s) sid)) order) \<lparr>sent = 0, dropped = 0\<rparr>)
         ((acquire t s)\<lparr>entered := entered s @ [m]\<rparr>))"
| o_skip: "pcs s t = Sending m tp (x # ss) r \<Longrightarrow> \<not> filter_matches (sub_filter x) tp \<Longrightarrow>
     bus_thread_step snd_op bounded rcv_op dtx drx s (goto t (Sending m tp ss r) s)"
| o_try: "pcs s t = Sending m tp (x # ss) r \<Longrightarrow> filter_matches (sub_filter x) tp \<Longrightarrow>
     snd_op m (chans (mem s) ! tx x) = (res, c) \<Longrightarrow>
     bus_thread_step snd_op bounded rcv_op dtx drx s
       (goto t (after_try res m tp ss r) (record_try (tx x) m (outcome_of res) (put_chan (tx x) c s)))"
| o_count: "pcs s t = Counting m tp ss r \<Longrightarrow>
     bus_thread_step snd_op bounded rcv_op dtx drx s
       (goto t (Sending m tp ss r)
         (s\<lparr>mem := (mem s)\<lparr>drop_count := drop_count (mem s) + 1\<rparr>, adds := adds s + 1,
            views := (views s)(t := adds s + 1)\<rparr>))"
| o_return: "pcs s t = Sending m tp [] r \<Longrightarrow>
     bus_thread_step snd_op bounded rcv_op dtx drx s (release t (s\<lparr>returned := returned s @ [r]\<rparr>))"
| s_call: "pcs s t = Idle \<Longrightarrow>
     bus_thread_step snd_op bounded rcv_op dtx drx s
       (goto t (Registering pattern (bounded (capacity (mem s)))) s)"
| s_lock: "pcs s t = Registering pattern c \<Longrightarrow> owner s = None \<Longrightarrow>
     bus_thread_step snd_op bounded rcv_op dtx drx s (goto t (Inserting pattern c) (acquire t s))"
| s_return: "pcs s t = Inserting pattern c \<Longrightarrow>
     bus_thread_step snd_op bounded rcv_op dtx drx s
       (release t (s\<lparr>mem := insert_sub dtx pattern c (mem s),
          since := (since s)(length (chans (mem s)) := length (entered s))\<rparr>))"
| u_call: "pcs s t = Idle \<Longrightarrow>
     bus_thread_step snd_op bounded rcv_op dtx drx s (goto t (Removing sid) s)"
| u_lock: "pcs s t = Removing sid \<Longrightarrow> owner s = None \<Longrightarrow>
     bus_thread_step snd_op bounded rcv_op dtx drx s (goto t (Erasing sid) (acquire t s))"
| u_return: "pcs s t = Erasing sid \<Longrightarrow>
     bus_thread_step snd_op bounded rcv_op dtx drx s (release t (s\<lparr>mem := unsubscribe dtx sid (mem s)\<rparr>))"
| d_load: "pcs s t = Idle \<Longrightarrow> views s t \<le> k \<Longrightarrow> k \<le> adds s \<Longrightarrow>
     bus_thread_step snd_op bounded rcv_op dtx drx s
       (s\<lparr>views := (views s)(t := k), loads := (loads s)(t := loads s t @ [of_nat k])\<rparr>)"
| r_recv: "h < length (chans (mem s)) \<Longrightarrow> h \<notin> dropped_rx s \<Longrightarrow> rcv_op (chans (mem s) ! h) = (res, c) \<Longrightarrow>
     bus_thread_step snd_op bounded rcv_op dtx drx s
       ((put_chan h c s)\<lparr>received_from := (received_from s)(h := received_from s h @
          (case res of Inr m \<Rightarrow> [m] | Inl _ \<Rightarrow> []))\<rparr>)"
| r_drop: "h < length (chans (mem s)) \<Longrightarrow> h \<notin> dropped_rx s \<Longrightarrow>
     bus_thread_step snd_op bounded rcv_op dtx drx s
       ((put_chan h (drx (chans (mem s) ! h)) s)\<lparr>dropped_rx := insert h (dropped_rx s)\<rparr>)"

inductive bus_sys_reach ::
    "(message \<Rightarrow> 'c \<Rightarrow> (message try_send_error + unit) \<times> 'c) \<Rightarrow> (usize \<Rightarrow> 'c)
      \<Rightarrow> ('c \<Rightarrow> (try_recv_error + message) \<times> 'c) \<Rightarrow> ('c \<Rightarrow> 'c) \<Rightarrow> ('c \<Rightarrow> 'c) \<Rightarrow> usize
      \<Rightarrow> 'c bus_sys \<Rightarrow> bool"
    for snd_op bounded rcv_op dtx drx cap where
  sys_start: "bus_sys_reach snd_op bounded rcv_op dtx drx cap (bus_sys_init cap)"
| sys_next: "bus_sys_reach snd_op bounded rcv_op dtx drx cap s \<Longrightarrow>
     bus_thread_step snd_op bounded rcv_op dtx drx s s' \<Longrightarrow>
     bus_sys_reach snd_op bounded rcv_op dtx drx cap s'"

text \<open>In one step of theory \<open>Bus\<close> a subscription does both.\<close>

lemma subscribe_in_two:
  "subscribe bounded dtx pattern b =
     ((next_id b, length (chans b)), insert_sub dtx pattern (bounded (capacity b)) b)"
  by (simp add: subscribe_def insert_sub_def Let_def)

lemmas action_defs = goto_def acquire_def release_def put_chan_def record_try_def

section \<open>The lock\<close>

fun in_section :: "'c bus_pc \<Rightarrow> bool" where
  "in_section (Sending m tp ss r) \<longleftrightarrow> True"
| "in_section (Counting m tp ss r) \<longleftrightarrow> True"
| "in_section (Inserting p h) \<longleftrightarrow> True"
| "in_section (Erasing i) \<longleftrightarrow> True"
| "in_section p \<longleftrightarrow> False"

definition lock_inv :: "'c bus_sys \<Rightarrow> bool" where
  "lock_inv s \<longleftrightarrow> (\<forall>t. in_section (pcs s t) \<longleftrightarrow> owner s = Some t)"

lemma in_section_after [simp]: "in_section (after_try res m tp ss r)"
  by (cases "(res, m, tp, ss, r)" rule: after_try.cases) simp_all

lemma lock_inv_step:
  "bus_thread_step snd_op bounded rcv_op dtx drx s s' \<Longrightarrow> lock_inv s \<Longrightarrow> lock_inv s'"
  by (induction rule: bus_thread_step.induct) (force simp: lock_inv_def action_defs)+

lemma owner_iff: "lock_inv s \<Longrightarrow> in_section (pcs s t) \<Longrightarrow> owner s = Some t"
  by (simp add: lock_inv_def)

lemma not_owner: "lock_inv s \<Longrightarrow> \<not> in_section (pcs s t) \<Longrightarrow> owner s \<noteq> Some t"
  by (simp add: lock_inv_def)

lemma holds_lock:
  "pcs s t = Sending m tp ss r \<Longrightarrow> lock_inv s \<Longrightarrow> owner s = Some t"
  "pcs s t = Counting m tp ss r \<Longrightarrow> lock_inv s \<Longrightarrow> owner s = Some t"
  "pcs s t = Inserting p h \<Longrightarrow> lock_inv s \<Longrightarrow> owner s = Some t"
  "pcs s t = Erasing sid \<Longrightarrow> lock_inv s \<Longrightarrow> owner s = Some t"
  by (metis lock_inv_def in_section.simps)+

lemma no_lock:
  "pcs s t = Idle \<Longrightarrow> lock_inv s \<Longrightarrow> owner s \<noteq> Some t"
  "pcs s t = Stamping m \<Longrightarrow> lock_inv s \<Longrightarrow> owner s \<noteq> Some t"
  "pcs s t = Waiting m tp \<Longrightarrow> lock_inv s \<Longrightarrow> owner s \<noteq> Some t"
  "pcs s t = Registering p h \<Longrightarrow> lock_inv s \<Longrightarrow> owner s \<noteq> Some t"
  "pcs s t = Removing sid \<Longrightarrow> lock_inv s \<Longrightarrow> owner s \<noteq> Some t"
  by (metis lock_inv_def in_section.simps)+

section \<open>Threads and the table of subscriptions\<close>

fun pc_subs :: "'c bus_pc \<Rightarrow> sub list" where
  "pc_subs (Sending m tp ss r) = ss"
| "pc_subs (Counting m tp ss r) = ss"
| "pc_subs p = []"

fun pc_result :: "'c bus_pc \<Rightarrow> offer_result" where
  "pc_result (Sending m tp ss r) = r"
| "pc_result (Counting m tp ss r) = r"
| "pc_result p = \<lparr>sent = 0, dropped = 0\<rparr>"

fun pc_message :: "'c bus_pc \<Rightarrow> (message \<times> str) option" where
  "pc_message (Waiting m tp) = Some (m, tp)"
| "pc_message (Sending m tp ss r) = Some (m, tp)"
| "pc_message (Counting m tp ss r) = Some (m, tp)"
| "pc_message p = None"

fun pc_pends :: "'c bus_pc \<Rightarrow> 'c option" where
  "pc_pends (Registering p c) = Some c"
| "pc_pends (Inserting p c) = Some c"
| "pc_pends p = None"

fun pc_uncounted :: "'c bus_pc \<Rightarrow> u64" where
  "pc_uncounted (Counting m tp ss r) = 1"
| "pc_uncounted p = 0"

lemma after_try_simps [simp]:
  "pc_subs (after_try res m tp ss r) = ss" "pc_message (after_try res m tp ss r) = Some (m, tp)"
  "pc_pends (after_try res m tp ss r) = None" "after_try res m tp ss r \<noteq> Stamping m'"
  by (cases "(res, m, tp, ss, r)" rule: after_try.cases; simp)+

text \<open>\<open>at_section f z s\<close> is what \<open>f\<close> says of the thread that holds the lock, \<open>z\<close> when none does.\<close>

definition at_section :: "('c bus_pc \<Rightarrow> 'a) \<Rightarrow> 'a \<Rightarrow> 'c bus_sys \<Rightarrow> 'a" where
  "at_section f z s = (case owner s of None \<Rightarrow> z | Some t \<Rightarrow> f (pcs s t))"

definition message_inv :: "'c bus_sys \<Rightarrow> bool" where
  "message_inv s \<longleftrightarrow>
     (\<forall>t m. pcs s t = Stamping m \<longrightarrow> wf_message m) \<and>
     (\<forall>t m tp. pc_message (pcs s t) = Some (m, tp) \<longrightarrow> wf_message m \<and> tp = topic_of m) \<and>
     (\<forall>t m tp. owner s = Some t \<and> pc_message (pcs s t) = Some (m, tp) \<longrightarrow> entered s \<noteq> [] \<and> last (entered s) = m) \<and>
     list_all wf_message (entered s)"

lemma message_at:
  "pcs s t = Stamping m \<Longrightarrow> message_inv s \<Longrightarrow> wf_message m"
  "pcs s t = Waiting m tp \<Longrightarrow> message_inv s \<Longrightarrow> wf_message m \<and> tp = topic_of m"
  "pcs s t = Sending m tp ss r \<Longrightarrow> message_inv s \<Longrightarrow> wf_message m \<and> tp = topic_of m"
  "pcs s t = Counting m tp ss r \<Longrightarrow> message_inv s \<Longrightarrow> wf_message m \<and> tp = topic_of m"
  "owner s = Some t \<Longrightarrow> pcs s t = Sending m tp ss r \<Longrightarrow> message_inv s \<Longrightarrow> entered s \<noteq> [] \<and> last (entered s) = m"
  "owner s = Some t \<Longrightarrow> pcs s t = Counting m tp ss r \<Longrightarrow> message_inv s \<Longrightarrow> entered s \<noteq> [] \<and> last (entered s) = m"
  unfolding message_inv_def by (metis pc_message.simps)+

lemma message_inv_step:
  "bus_thread_step snd_op bounded rcv_op dtx drx s s' \<Longrightarrow> lock_inv s \<Longrightarrow> message_inv s \<Longrightarrow> message_inv s'"
proof (induction rule: bus_thread_step.induct)
  case (o_stamp s t m clock tp)
  then have "wf_message m" "owner s \<noteq> Some t" by (auto dest: message_at no_lock)
  with o_stamp show ?case by (auto simp: message_inv_def action_defs topic_str_eq split: if_splits)
next
  case (o_lock s t m tp order)
  then have "wf_message m \<and> tp = topic_of m" by (auto dest: message_at)
  with o_lock show ?case by (auto simp: message_inv_def action_defs split: if_splits)
next
  case (o_skip s t m tp x ss r)
  note own = holds_lock(1) [OF o_skip(1,3)]
  with message_at(5) [OF own o_skip(1,4)] message_at(3) [OF o_skip(1,4)] o_skip show ?case
    by (auto simp: message_inv_def action_defs split: if_splits)
next
  case (o_try s t m tp x ss r res c)
  note own = holds_lock(1) [OF o_try(1,4)]
  with message_at(5) [OF own o_try(1,5)] message_at(3) [OF o_try(1,5)] o_try show ?case
    by (auto simp: message_inv_def action_defs split: if_splits)
next
  case (o_count s t m tp ss r)
  note own = holds_lock(2) [OF o_count(1,2)]
  with message_at(6) [OF own o_count(1,3)] message_at(4) [OF o_count(1,3)] o_count show ?case
    by (auto simp: message_inv_def action_defs split: if_splits)
qed (auto simp: message_inv_def action_defs split: if_splits dest: no_lock)

definition table_inv :: "'c bus_sys \<Rightarrow> bool" where
  "table_inv s \<longleftrightarrow>
     (\<forall>sid x. subs (mem s) sid = Some x \<longrightarrow> tx x < length (chans (mem s))) \<and>
     (\<forall>sid sid' x x'. subs (mem s) sid = Some x \<and> subs (mem s) sid' = Some x' \<and> tx x = tx x' \<longrightarrow> sid = sid') \<and>
     (\<forall>h. length (chans (mem s)) \<le> h \<longrightarrow> tried s h = [] \<and> received_from s h = [] \<and> h \<notin> dropped_rx s)"

text \<open>A channel that is not in the table yet is as it was made.\<close>

definition made_inv :: "(usize \<Rightarrow> 'c) \<Rightarrow> usize \<Rightarrow> 'c bus_sys \<Rightarrow> bool" where
  "made_inv bounded cap s \<longleftrightarrow> capacity (mem s) = cap \<and> (\<forall>t c. pc_pends (pcs s t) = Some c \<longrightarrow> c = bounded cap)"

lemma made_inv_step:
  "bus_thread_step snd_op bounded rcv_op dtx drx s s' \<Longrightarrow> made_inv bounded cap s \<Longrightarrow> made_inv bounded cap s'"
proof (induction rule: bus_thread_step.induct)
  case (s_lock s t pattern c)
  then have "pc_pends (pcs s t) = Some c" by simp
  with s_lock.prems show ?case by (auto simp: made_inv_def action_defs)
qed (auto simp: made_inv_def action_defs insert_sub_def unsubscribe_def split: if_splits)

definition section_inv :: "'c bus_sys \<Rightarrow> bool" where
  "section_inv s \<longleftrightarrow>
     distinct (map tx (at_section pc_subs [] s)) \<and> set (at_section pc_subs [] s) \<subseteq> ran (subs (mem s))"

lemma table_inv_step:
  "bus_thread_step snd_op bounded rcv_op dtx drx s s' \<Longrightarrow> section_inv s \<Longrightarrow> lock_inv s \<Longrightarrow> table_inv s \<Longrightarrow> table_inv s'"
proof (induction rule: bus_thread_step.induct)
  case (o_try s t m tp x ss r res c)
  then have "x \<in> ran (subs (mem s))"
    using holds_lock(1) [of s t] by (auto simp: section_inv_def at_section_def)
  then have "tx x < length (chans (mem s))" using o_try.prems by (auto simp: table_inv_def ran_def)
  with o_try show ?case by (auto simp: table_inv_def action_defs)
next
  case (s_return s t pattern c)
  have "tx x \<noteq> length (chans (mem s))" if "subs (mem s) i = Some x" for i x
    using s_return.prems(3) that unfolding table_inv_def by fastforce
  with s_return show ?case
    by (auto simp: table_inv_def action_defs insert_sub_def less_Suc_eq split: if_splits dest: sym)
next
  case (u_return s t sid)
  then show ?case by (auto simp: table_inv_def action_defs unsubscribe_def split: if_splits)
qed (auto simp: table_inv_def action_defs split: if_splits)

lemma section_inv_step:
  "bus_thread_step snd_op bounded rcv_op dtx drx s s' \<Longrightarrow> lock_inv s \<Longrightarrow> table_inv s \<Longrightarrow> section_inv s \<Longrightarrow> section_inv s'"
proof (induction rule: bus_thread_step.induct)
  case (o_lock s t m tp order)
  have inj: "inj_on (\<lambda>sid. tx (the (subs (mem s) sid))) (dom (subs (mem s)))"
    using o_lock.prems(2) by (auto simp: table_inv_def inj_on_def dom_def)
  then show ?case using o_lock
    by (auto simp: section_inv_def at_section_def action_defs iterates_def distinct_map comp_def ran_def)
qed (force simp: section_inv_def at_section_def action_defs
    dest: holds_lock no_lock split: if_splits option.splits)+

section \<open>Every subscription is tried with every message\<close>

text \<open>
  What has been tried on the channel of a live subscription are the messages that match its
  filter, of all offers that took the lock since the subscription was made, but for the offer in
  progress while this has the subscription still before it.
\<close>

definition offered_to :: "'c bus_sys \<Rightarrow> sub \<Rightarrow> message list" where
  "offered_to s x = (if x \<in> set (at_section pc_subs [] s) then butlast (entered s) else entered s)"

definition tried_inv :: "'c bus_sys \<Rightarrow> bool" where
  "tried_inv s \<longleftrightarrow>
     (\<forall>sid x. subs (mem s) sid = Some x \<longrightarrow> since s (tx x) \<le> length (offered_to s x) \<and>
        map fst (tried s (tx x)) =
          filter (\<lambda>m. filter_matches (sub_filter x) (topic_of m)) (drop (since s (tx x)) (offered_to s x))) \<and>
     (\<forall>h. subseq (map fst (tried s h)) (entered s))"

lemma tried_at:
  "tried_inv s \<Longrightarrow> subs (mem s) sid = Some x \<Longrightarrow> since s (tx x) \<le> length (offered_to s x) \<and>
     map fst (tried s (tx x)) =
       filter (\<lambda>m. filter_matches (sub_filter x) (topic_of m)) (drop (since s (tx x)) (offered_to s x))"
  by (simp add: tried_inv_def)

lemma at_sending: "pcs s t = Sending m tp ss r \<Longrightarrow> owner s = Some t \<Longrightarrow> at_section pc_subs [] s = ss"
  by (simp add: at_section_def)

lemma subseq_drop_filter: "subseq (filter P (drop n xs)) xs"
  by (meson subseq_filter_left suffix_drop suffix_imp_subseq subseq_order.trans)

lemma tried_inv_advance:
  assumes inv: "tried_inv s" "table_inv s" "section_inv s" "message_inv s" and own: "owner s = Some t"
    and pc: "pcs s t = Sending m tp (x # ss) r"
    and s': "entered s' = entered s" "subs (mem s') = subs (mem s)" "since s' = since s"
      "at_section pc_subs [] s' = ss"
    and tried: "\<And>h. map fst (tried s' h) =
      map fst (tried s h) @ (if h = tx x \<and> filter_matches (sub_filter x) tp then [m] else [])"
  shows "tried_inv s'"
proof -
  have list: "at_section pc_subs [] s = x # ss" using pc own by (simp add: at_section_def)
  have dist: "tx x \<notin> tx ` set ss" and ran: "x \<in> ran (subs (mem s))"
    using inv(3) by (auto simp: section_inv_def list)
  obtain i where i: "subs (mem s) i = Some x" using ran by (auto simp: ran_def)
  have m: "tp = topic_of m" and last: "entered s = butlast (entered s) @ [m]"
    using message_at(3) [OF pc inv(4)] message_at(5) [OF own pc inv(4)] append_butlast_last_id by (simp, metis)
  have x: "offered_to s x = butlast (entered s)" "offered_to s' x = entered s"
    using dist s'(1,4) by (auto simp: offered_to_def list)
  note old = tried_at [OF inv(1) i, unfolded x(1)]
  have new: "since s (tx x) \<le> length (entered s) \<and> map fst (tried s' (tx x)) =
      filter (\<lambda>m. filter_matches (sub_filter x) (topic_of m)) (drop (since s (tx x)) (entered s))"
    using old m by (subst (1 2) last) (simp add: tried)
  have "since s' (tx y) \<le> length (offered_to s' y) \<and> map fst (tried s' (tx y)) =
      filter (\<lambda>m. filter_matches (sub_filter y) (topic_of m)) (drop (since s' (tx y)) (offered_to s' y))"
    if y: "subs (mem s) j = Some y" for j y
  proof (cases "y = x")
    case True
    then show ?thesis using new x(2) s'(3) by simp
  next
    case False
    then have "tx y \<noteq> tx x" using inv(2) y i unfolding table_inv_def by (metis option.inject)
    moreover have "offered_to s' y = offered_to s y" using False s'(1,4) by (simp add: offered_to_def list)
    ultimately show ?thesis using tried_at [OF inv(1) y] s'(3) by (simp add: tried)
  qed
  moreover have "subseq (map fst (tried s' h)) (entered s)" for h
  proof (cases "h = tx x")
    case True
    have "map fst (tried s' h) = filter (\<lambda>m. filter_matches (sub_filter x) (topic_of m)) (drop (since s (tx x)) (entered s))"
      using new True by simp
    then show ?thesis by (simp add: subseq_drop_filter)
  next
    case False
    then show ?thesis using inv(1) by (simp add: tried tried_inv_def)
  qed
  ultimately show ?thesis using s'(1,2) by (simp add: tried_inv_def)
qed

lemma tried_inv_same:
  assumes "tried_inv s" and "entered s' = entered s" "subs (mem s') \<subseteq>\<^sub>m subs (mem s)" "since s' = since s"
    "tried s' = tried s" "at_section pc_subs [] s' = at_section pc_subs [] s"
  shows "tried_inv s'"
proof -
  have "offered_to s' x = offered_to s x" for x using assms(2,6) by (simp add: offered_to_def)
  moreover have "subs (mem s) i = Some x" if "subs (mem s') i = Some x" for i x
    using assms(3) that by (metis domI map_le_def)
  ultimately show ?thesis using assms(1,2,4,5) unfolding tried_inv_def by metis
qed

lemma tried_inv_step:
  assumes "bus_thread_step snd_op bounded rcv_op dtx drx s s'"
    and "lock_inv s" "table_inv s" "section_inv s" "message_inv s" "tried_inv s"
  shows "tried_inv s'"
  using assms
proof (induction rule: bus_thread_step.induct)
  case (o_lock s t m tp order)
  let ?s' = "goto t (Sending m tp (map (\<lambda>sid. the (subs (mem s) sid)) order) \<lparr>sent = 0, dropped = 0\<rparr>)
    ((acquire t s)\<lparr>entered := entered s @ [m]\<rparr>)"
  have all: "x \<in> set (at_section pc_subs [] ?s')" if "subs (mem s) i = Some x" for i x
  proof -
    have "i \<in> set order" using o_lock(3) that by (auto simp: iterates_def)
    then show ?thesis using that by (force simp: at_section_def action_defs)
  qed
  have "offered_to ?s' x = offered_to s x" if "subs (mem s) i = Some x" for i x
    using all [OF that] o_lock(2) by (simp add: offered_to_def at_section_def action_defs)
  moreover have "subseq (map fst (tried s h)) (entered s @ [m])" for h
    using o_lock.prems(5) by (simp add: tried_inv_def list_emb_prefix)
  ultimately show ?case
    using tried_at [OF o_lock.prems(5)] by (simp add: tried_inv_def action_defs)
next
  case (o_skip s t m tp x ss r)
  note own = holds_lock(1) [OF o_skip(1,3)]
  show ?case
    by (rule tried_inv_advance [OF o_skip.prems(5,2,3,4) own o_skip(1)])
      (use o_skip(2) own in \<open>simp_all add: action_defs at_section_def\<close>)
next
  case (o_try s t m tp x ss r res c)
  note own = holds_lock(1) [OF o_try(1,4)]
  show ?case
    by (rule tried_inv_advance [OF o_try.prems(5,2,3,4) own o_try(1)])
      (use o_try(2) own in \<open>simp_all add: action_defs at_section_def\<close>)
next
  case (o_return s t m tp r)
  note own = holds_lock(1) [OF o_return(1,2)]
  show ?case
    by (rule tried_inv_same [OF o_return.prems(5)])
      (use o_return(1) own in \<open>simp_all add: action_defs at_section_def\<close>)
next
  case (s_return s t pattern c)
  note own = holds_lock(3) [OF s_return(1,2)]
  let ?h = "length (chans (mem s))"
  have h: "tried s ?h = []" using s_return.prems(2) by (simp add: table_inv_def)
  let ?s' = "release t (s\<lparr>mem := insert_sub dtx pattern c (mem s), since := (since s)(?h := length (entered s))\<rparr>)"
  have off: "offered_to ?s' x = entered s" "offered_to s x = entered s" for x
    using s_return(1) own by (simp_all add: offered_to_def at_section_def action_defs)
  have "tx x \<noteq> ?h" if "subs (mem s) i = Some x" for i x
    using s_return.prems(2) that unfolding table_inv_def by fastforce
  then show ?case
    using h tried_at [OF s_return.prems(5), unfolded off] s_return.prems(5) off(1)
    by (simp add: tried_inv_def insert_sub_def action_defs)
next
  case (u_return s t sid)
  note own = holds_lock(4) [OF u_return(1,2)]
  show ?case
    by (rule tried_inv_same [OF u_return.prems(5)])
      (use u_return(1) own in \<open>simp_all add: action_defs at_section_def unsubscribe_def map_le_def\<close>)
qed (erule tried_inv_same;
    force simp: at_section_def action_defs map_le_def dest: holds_lock no_lock split: option.splits)+

section \<open>The drop counter\<close>

definition count_inv :: "'c bus_sys \<Rightarrow> bool" where
  "count_inv s \<longleftrightarrow>
     drop_count (mem s) = of_nat (adds s) \<and>
     drop_count (mem s) + at_section pc_uncounted 0 s =
       sum_list (map dropped (returned s)) + dropped (at_section pc_result \<lparr>sent = 0, dropped = 0\<rparr> s)"

lemma after_try_result:
  "dropped (pc_result (after_try res m tp ss r :: 'c bus_pc)) =
     dropped r + pc_uncounted (after_try res m tp ss r :: 'c bus_pc)"
  by (cases "(res, m, tp, ss, r)" rule: after_try.cases) simp_all

lemma count_inv_step:
  "bus_thread_step snd_op bounded rcv_op dtx drx s s' \<Longrightarrow> lock_inv s \<Longrightarrow> count_inv s \<Longrightarrow> count_inv s'"
proof (induction rule: bus_thread_step.induct)
  case (o_try s t m tp x ss r res c)
  note own = holds_lock(1) [OF o_try(1,4)]
  show ?case
    using o_try.prems(2) own o_try(1) after_try_result [of res m tp ss r, where 'c = 'a]
    by (auto simp: count_inv_def at_section_def action_defs)
next
  case (o_count s t m tp ss r)
  note own = holds_lock(2) [OF o_count(1,2)]
  then show ?case using o_count.prems(2) o_count(1)
    by (auto simp: count_inv_def at_section_def action_defs)
next
  case (o_return s t m tp r)
  note own = holds_lock(1) [OF o_return(1,2)]
  then show ?case using o_return.prems(2) o_return(1)
    by (auto simp: count_inv_def at_section_def action_defs)
next
  case (s_return s t pattern h)
  note own = holds_lock(3) [OF s_return(1,2)]
  then show ?case using s_return.prems(2) s_return(1)
    by (auto simp: count_inv_def at_section_def action_defs insert_sub_def)
next
  case (u_return s t sid)
  note own = holds_lock(4) [OF u_return(1,2)]
  then show ?case using u_return.prems(2) u_return(1)
    by (auto simp: count_inv_def at_section_def action_defs unsubscribe_def)
qed (force simp: count_inv_def at_section_def action_defs dest: holds_lock no_lock split: option.splits)+

text \<open>What threads have seen of the counter.\<close>

definition view_inv :: "'c bus_sys \<Rightarrow> bool" where
  "view_inv s \<longleftrightarrow>
     (\<forall>t. views s t \<le> adds s) \<and> lock_view s \<le> adds s \<and>
     (case owner s of None \<Rightarrow> lock_view s = adds s | Some t \<Rightarrow> views s t = adds s)"

lemma view_inv_step:
  "bus_thread_step snd_op bounded rcv_op dtx drx s s' \<Longrightarrow> lock_inv s \<Longrightarrow> view_inv s \<Longrightarrow> view_inv s'"
proof (induction rule: bus_thread_step.induct)
  case (d_load s t k)
  then have "owner s \<noteq> Some t" by (auto dest: no_lock)
  then show ?case using d_load by (auto simp: view_inv_def split: option.splits)
qed (force simp: view_inv_def action_defs le_Suc_eq max_def dest: holds_lock no_lock split: option.splits)+

section \<open>The channels\<close>

definition taken :: "'c bus_sys \<Rightarrow> nat \<Rightarrow> message list" where
  "taken s h = map fst (filter (\<lambda>e. snd e = Taken) (tried s h))"

definition chan_inv_at ::
    "('c \<Rightarrow> message list) \<Rightarrow> ('c \<Rightarrow> nat) \<Rightarrow> ('c \<Rightarrow> bool) \<Rightarrow> ('c \<Rightarrow> bool) \<Rightarrow> usize \<Rightarrow> 'c bus_sys \<Rightarrow> nat \<Rightarrow> bool" where
  "chan_inv_at queued ch_cap rx_alive ch_ok cap s h \<longleftrightarrow>
     (let c = chans (mem s) ! h in
      ch_ok c \<and> ch_cap c = unat cap \<and> (rx_alive c \<longleftrightarrow> h \<notin> dropped_rx s) \<and>
      (h \<notin> dropped_rx s \<longrightarrow> taken s h = received_from s h @ queued c) \<and>
      prefix (received_from s h) (taken s h))"

definition chans_inv ::
    "('c \<Rightarrow> message list) \<Rightarrow> ('c \<Rightarrow> nat) \<Rightarrow> ('c \<Rightarrow> bool) \<Rightarrow> ('c \<Rightarrow> bool) \<Rightarrow> usize \<Rightarrow> 'c bus_sys \<Rightarrow> bool" where
  "chans_inv queued ch_cap rx_alive ch_ok cap s \<longleftrightarrow> capacity (mem s) = cap \<and>
     (\<forall>h<length (chans (mem s)). chan_inv_at queued ch_cap rx_alive ch_ok cap s h)"

lemma chans_inv_same:
  assumes "chans_inv queued ch_cap rx_alive ch_ok cap s" and "chans (mem s') = chans (mem s)"
    "capacity (mem s') = capacity (mem s)" "tried s' = tried s" "received_from s' = received_from s"
    "dropped_rx s' = dropped_rx s"
  shows "chans_inv queued ch_cap rx_alive ch_ok cap s'"
  using assms by (simp add: chans_inv_def chan_inv_at_def taken_def Let_def)

text \<open>One channel changes, in a way that keeps what holds of it.\<close>

lemma chans_inv_update:
  assumes "chans_inv queued ch_cap rx_alive ch_ok cap s"
    and "chans (mem s') = (chans (mem s))[h := c]" "capacity (mem s') = capacity (mem s)"
    and "\<And>h'. h' \<noteq> h \<Longrightarrow> tried s' h' = tried s h' \<and> received_from s' h' = received_from s h' \<and>
      (h' \<in> dropped_rx s' \<longleftrightarrow> h' \<in> dropped_rx s)"
    and "h < length (chans (mem s)) \<Longrightarrow> chan_inv_at queued ch_cap rx_alive ch_ok cap s h \<Longrightarrow>
      chan_inv_at queued ch_cap rx_alive ch_ok cap s' h"
  shows "chans_inv queued ch_cap rx_alive ch_ok cap s'"
proof -
  have "chan_inv_at queued ch_cap rx_alive ch_ok cap s' h'" if "h' < length (chans (mem s))" for h'
  proof (cases "h' = h")
    case True
    then show ?thesis using assms(1,5) that by (simp add: chans_inv_def)
  next
    case False
    then show ?thesis
      using assms(1,2) assms(4) [OF False] that by (simp add: chans_inv_def chan_inv_at_def taken_def Let_def)
  qed
  then show ?thesis using assms(1-3) by (simp add: chans_inv_def)
qed

section \<open>All invariants\<close>

text \<open>Those that do not depend on what a channel is, and all of them.\<close>

definition table_ok :: "(usize \<Rightarrow> 'c) \<Rightarrow> usize \<Rightarrow> 'c bus_sys \<Rightarrow> bool" where
  "table_ok bounded cap s \<longleftrightarrow> lock_inv s \<and> message_inv s \<and> table_inv s \<and> section_inv s \<and>
     tried_inv s \<and> count_inv s \<and> view_inv s \<and> made_inv bounded cap s"

lemma table_ok_parts:
  assumes "table_ok bounded cap s"
  shows "lock_inv s" "message_inv s" "table_inv s" "section_inv s" "tried_inv s" "count_inv s" "view_inv s"
    "made_inv bounded cap s"
  using assms by (simp_all add: table_ok_def)

lemma table_ok_step:
  assumes step: "bus_thread_step snd_op bounded rcv_op dtx drx s s'" and inv: "table_ok bounded cap s"
  shows "table_ok bounded cap s'"
proof -
  note old = table_ok_parts [OF inv]
  show ?thesis
    unfolding table_ok_def
    using lock_inv_step [OF step old(1)] message_inv_step [OF step old(1,2)] table_inv_step [OF step old(4,1,3)]
      section_inv_step [OF step old(1,3,4)] tried_inv_step [OF step old(1,3,4,2,5)] count_inv_step [OF step old(1,6)]
      view_inv_step [OF step old(1,7)] made_inv_step [OF step old(8)]
    by blast
qed

lemma table_ok_init: "table_ok bounded cap (bus_sys_init cap)"
  by (simp add: table_ok_def bus_sys_init_def bus_new_def lock_inv_def message_inv_def table_inv_def section_inv_def
      at_section_def tried_inv_def count_inv_def view_inv_def made_inv_def)

lemma reach_table_ok:
  "bus_sys_reach snd_op bounded rcv_op dtx drx cap s \<Longrightarrow> table_ok bounded cap s"
  by (induction rule: bus_sys_reach.induct) (auto intro: table_ok_init table_ok_step)

definition sys_inv ::
    "(usize \<Rightarrow> 'c) \<Rightarrow> ('c \<Rightarrow> message list) \<Rightarrow> ('c \<Rightarrow> nat) \<Rightarrow> ('c \<Rightarrow> bool) \<Rightarrow> ('c \<Rightarrow> bool) \<Rightarrow> usize \<Rightarrow> 'c bus_sys \<Rightarrow> bool" where
  "sys_inv bounded queued ch_cap rx_alive ch_ok cap s \<longleftrightarrow>
     table_ok bounded cap s \<and> chans_inv queued ch_cap rx_alive ch_ok cap s"

lemma drop_sub_update:
  "drop_sub d old cs = (case old of None \<Rightarrow> cs | Some y \<Rightarrow> cs[tx y := d (cs ! tx y)])"
  by (simp add: drop_sub_def)

context bus_over_channel begin

abbreviation sys_step :: "'c bus_sys \<Rightarrow> 'c bus_sys \<Rightarrow> bool" where
  "sys_step \<equiv> bus_thread_step ch_send ch_bounded ch_recv drop_tx drop_rx"

abbreviation chans_ok :: "usize \<Rightarrow> 'c bus_sys \<Rightarrow> bool" where
  "chans_ok \<equiv> chans_inv queued ch_cap rx_alive ch_ok"

abbreviation sys_ok :: "usize \<Rightarrow> 'c bus_sys \<Rightarrow> bool" where
  "sys_ok \<equiv> sys_inv ch_bounded queued ch_cap rx_alive ch_ok"

lemma chans_inv_drop:
  assumes "chans_ok cap s" and "chans (mem s') = drop_sub drop_tx old (chans (mem s))"
    and "capacity (mem s') = capacity (mem s)" "tried s' = tried s" "received_from s' = received_from s"
    and "dropped_rx s' = dropped_rx s"
  shows "chans_ok cap s'"
proof (cases old)
  case None
  then show ?thesis using assms by (intro chans_inv_same [OF assms(1)]) (simp_all add: drop_sub_def)
next
  case (Some y)
  then have c: "chans (mem s') = (chans (mem s))[tx y := drop_tx (chans (mem s) ! tx y)]"
    using assms(2) by (simp add: drop_sub_def)
  show ?thesis
    by (rule chans_inv_update [OF assms(1) c assms(3)])
      (use assms(4-6) ch_drop_tx [of "chans (mem s) ! tx y"] in \<open>auto simp: chan_inv_at_def taken_def Let_def c\<close>)
qed

lemma chans_inv_step:
  "sys_step s s' \<Longrightarrow> cap_ok cap \<Longrightarrow> table_inv s \<Longrightarrow> chans_ok cap s \<Longrightarrow>
   made_inv ch_bounded cap s \<Longrightarrow> chans_ok cap s'"
proof (induction rule: bus_thread_step.induct)
  case (o_try s t m tp x ss r res c)
  show ?case
  proof (rule chans_inv_update [OF o_try.prems(3), where h = "tx x" and c = c])
    assume h: "tx x < length (chans (mem s))" and "chan_inv_at queued ch_cap rx_alive ch_ok cap s (tx x)"
    moreover from this have ok: "ch_ok (chans (mem s) ! tx x)" by (simp add: chan_inv_at_def Let_def)
    moreover note room_or_full [OF ok] ch_send_room [OF ok, of m] ch_send_full [OF ok, of m] ch_send_disconnected [OF ok, of m]
    ultimately show "chan_inv_at queued ch_cap rx_alive ch_ok cap
        (goto t (after_try res m tp ss r) (record_try (tx x) m (outcome_of res) (put_chan (tx x) c s))) (tx x)"
      using o_try(3) by (cases "rx_alive (chans (mem s) ! tx x)")
        (auto simp: chan_inv_at_def taken_def action_defs Let_def)
  qed (simp_all add: action_defs)
next
  case (s_return s t pattern c)
  let ?s1 = "s\<lparr>mem := (mem s)\<lparr>chans := chans (mem s) @ [c]\<rparr>\<rparr>"
  let ?n = "length (chans (mem s))"
  have "pc_pends (pcs s t) = Some c" using s_return(1) by simp
  then have "capacity (mem s) = cap" "c = ch_bounded cap" using s_return.prems(4) by (auto simp: made_inv_def)
  moreover have "tried s ?n = []" "received_from s ?n = []" "?n \<notin> dropped_rx s"
    using s_return.prems(2) by (simp_all add: table_inv_def)
  ultimately have "chans_ok cap ?s1" using s_return.prems(3) ch_bounded [OF s_return.prems(1)]
    by (auto simp: chans_inv_def chan_inv_at_def taken_def Let_def nth_append less_Suc_eq)
  then show ?case
    by (rule chans_inv_drop) (simp_all add: action_defs insert_sub_def)
next
  case (u_return s t sid)
  show ?case
    by (rule chans_inv_drop [OF u_return.prems(3)]) (simp_all add: action_defs unsubscribe_def)
next
  case (r_recv h s res c)
  show ?case
  proof (rule chans_inv_update [OF r_recv.prems(3), where h = h and c = c])
    assume h: "h < length (chans (mem s))" and inv: "chan_inv_at queued ch_cap rx_alive ch_ok cap s h"
    then have ok: "ch_ok (chans (mem s) ! h)" by (simp add: chan_inv_at_def Let_def)
    show "chan_inv_at queued ch_cap rx_alive ch_ok cap ((put_chan h c s)\<lparr>received_from :=
        (received_from s)(h := received_from s h @ (case res of Inl x \<Rightarrow> [] | Inr m \<Rightarrow> [m]))\<rparr>) h"
      using inv h r_recv(2,3) ch_recv_empty [OF ok] ch_recv_some [OF ok]
      by (cases "queued (chans (mem s) ! h)") (auto simp: chan_inv_at_def taken_def action_defs Let_def)
  qed (simp_all add: action_defs)
next
  case (r_drop h s)
  show ?case
  proof (rule chans_inv_update [OF r_drop.prems(3), where h = h and c = "drop_rx (chans (mem s) ! h)"])
    assume "h < length (chans (mem s))" and "chan_inv_at queued ch_cap rx_alive ch_ok cap s h"
    then show "chan_inv_at queued ch_cap rx_alive ch_ok cap
        ((put_chan h (drop_rx (chans (mem s) ! h)) s)\<lparr>dropped_rx := insert h (dropped_rx s)\<rparr>) h"
      using ch_drop_rx [of "chans (mem s) ! h"] by (auto simp: chan_inv_at_def taken_def action_defs Let_def)
  qed (auto simp: action_defs)
qed (erule chans_inv_same; simp add: action_defs)+

lemma sys_inv_step:
  assumes "sys_step s s'" and "cap_ok cap" and "sys_ok cap s"
  shows "sys_ok cap s'"
  using assms table_ok_step [OF assms(1)] chans_inv_step [OF assms(1,2)] by (auto simp: sys_inv_def table_ok_def)

lemma sys_reach_inv:
  assumes "cap_ok cap" and "bus_sys_reach ch_send ch_bounded ch_recv drop_tx drop_rx cap s"
  shows "sys_ok cap s"
  using assms(2)
proof (induction rule: bus_sys_reach.induct)
  case sys_start
  show ?case using table_ok_init by (simp add: sys_inv_def chans_inv_def bus_sys_init_def bus_new_def)
next
  case (sys_next s s')
  then show ?case using sys_inv_step assms(1) by blast
qed

end

end
