(* ===== verification/Bus_Sections.thy ===== *)
theory Bus_Sections
  imports Bus_Threads
begin

text \<open>
  What the critical sections of theory \<open>Bus_Threads\<close> amount to.  A section that runs with no other
  thread in between does exactly what the operation does in theory \<open>Bus\<close>; from every state every
  section, and with it every call, can be brought to its end; and what holds of every
  interleaving is stated at the end of the theory.
\<close>

section \<open>Sections that run alone\<close>

abbreviation idle_again :: "nat \<Rightarrow> 'c bus_sys \<Rightarrow> 'c bus_sys \<Rightarrow> bool" where
  "idle_again t s s' \<equiv> owner s' = None \<and> pcs s' = (pcs s)(t := Idle)"

lemma goto_simps [simp]:
  "mem (goto t p s) = mem s" "owner (goto t p s) = owner s" "pcs (goto t p s) = (pcs s)(t := p)"
  "returned (goto t p s) = returned s"
  "received_from (goto t p s) = received_from s" "dropped_rx (goto t p s) = dropped_rx s" "stamps (goto t p s) = stamps s"
  by (simp_all add: goto_def)

text \<open>
  A step taken by one of the threads \<open>T\<close>: every action of a thread moves its program counter, a load
  of the drop counter and the actions of receivers move none.
\<close>

definition step_by ::
    "nat set \<Rightarrow> (message \<Rightarrow> 'c \<Rightarrow> (message try_send_error + unit) \<times> 'c) \<Rightarrow> (usize \<Rightarrow> 'c)
      \<Rightarrow> ('c \<Rightarrow> (try_recv_error + message) \<times> 'c) \<Rightarrow> ('c \<Rightarrow> 'c) \<Rightarrow> ('c \<Rightarrow> 'c)
      \<Rightarrow> 'c bus_sys \<Rightarrow> 'c bus_sys \<Rightarrow> bool" where
  "step_by T snd_op bounded rcv_op dtx drx s s' \<longleftrightarrow>
     bus_thread_step snd_op bounded rcv_op dtx drx s s' \<and>
     (\<exists>t\<in>T. pcs s' t \<noteq> pcs s t \<and> (\<forall>u. u \<noteq> t \<longrightarrow> pcs s' u = pcs s u))"

lemma step_byI:
  "bus_thread_step snd_op bounded rcv_op dtx drx s s' \<Longrightarrow> pcs s' = (pcs s)(t := pcs s' t) \<Longrightarrow>
   pcs s t \<noteq> pcs s' t \<Longrightarrow> step_by {t} snd_op bounded rcv_op dtx drx s s'"
  unfolding step_by_def by (metis fun_upd_other insertI1)

lemma steps_by_mono:
  "(step_by T snd_op bounded rcv_op dtx drx)\<^sup>*\<^sup>* s s' \<Longrightarrow> T \<subseteq> T' \<Longrightarrow>
   (step_by T' snd_op bounded rcv_op dtx drx)\<^sup>*\<^sup>* s s'"
  by (erule rtranclp_mono [THEN predicate2D, rotated]) (unfold step_by_def, blast)

lemma by_steps:
  "(step_by T snd_op bounded rcv_op dtx drx)\<^sup>*\<^sup>* s s' \<Longrightarrow>
   (bus_thread_step snd_op bounded rcv_op dtx drx)\<^sup>*\<^sup>* s s'"
  by (erule rtranclp_mono [THEN predicate2D, rotated]) (auto simp: step_by_def)

lemma step_by_receivers:
  "bus_thread_step snd_op bounded rcv_op dtx drx s s' \<Longrightarrow> pcs s' \<noteq> pcs s \<Longrightarrow>
   received_from s' = received_from s \<and> dropped_rx s' = dropped_rx s"
  by (induction rule: bus_thread_step.induct) (simp_all add: action_defs)

lemma steps_by_receivers:
  "(step_by T snd_op bounded rcv_op dtx drx)\<^sup>*\<^sup>* s s' \<Longrightarrow>
   received_from s' = received_from s \<and> dropped_rx s' = dropped_rx s"
proof (induction rule: rtranclp_induct)
  case (step a b)
  then have "bus_thread_step snd_op bounded rcv_op dtx drx a b" "pcs b \<noteq> pcs a" by (auto simp: step_by_def)
  from step_by_receivers [OF this] step(3) show ?case by simp
qed simp

text \<open>The loop of an offer, from the point where the subscriptions \<open>ss\<close> are still before it.\<close>

lemma after_try_other: "Sending m tp (x # ss) r \<noteq> after_try res m tp ss r'"
  by (cases "(res, m, tp, ss, r')" rule: after_try.cases) simp_all

lemma sending_alone:
  "pcs s t = Sending m tp ss r \<Longrightarrow> offer_loop snd_op tp m ss (r, mem s) = (r', b') \<Longrightarrow>
   \<exists>s'. (step_by {t} snd_op bounded rcv_op dtx drx)\<^sup>*\<^sup>* s s' \<and> mem s' = b' \<and>
     returned s' = returned s @ [r'] \<and> idle_again t s s' \<and>
     received_from s' = received_from s \<and> dropped_rx s' = dropped_rx s \<and> stamps s' = stamps s"
proof (induction ss arbitrary: s r)
  case Nil
  let ?s' = "release t (s\<lparr>returned := returned s @ [r]\<rparr>)"
  have "step_by {t} snd_op bounded rcv_op dtx drx s ?s'"
    by (rule step_byI [OF o_return [OF Nil(1)]]) (simp_all add: release_def Nil(1))
  then show ?case using Nil(2) by (intro exI [of _ ?s']) (auto simp: release_def)
next
  case (Cons x ss)
  let ?step = "step_by {t} snd_op bounded rcv_op dtx drx"
  have "\<exists>s1 r1. ?step\<^sup>*\<^sup>* s s1 \<and> pcs s1 = (pcs s)(t := Sending m tp ss r1) \<and>
      offer_loop snd_op tp m (x # ss) (r, mem s) = offer_loop snd_op tp m ss (r1, mem s1) \<and>
      returned s1 = returned s \<and> received_from s1 = received_from s \<and>
      dropped_rx s1 = dropped_rx s \<and> stamps s1 = stamps s"
  proof (cases "filter_matches (sub_filter x) tp")
    case False
    have "?step s (goto t (Sending m tp ss r) s)"
      by (rule step_byI [OF o_skip [OF Cons.prems(1) False]]) (simp_all add: Cons.prems(1))
    then show ?thesis using False
      by (intro exI [of _ "goto t (Sending m tp ss r) s"] exI [of _ r]) auto
  next
    case True
    obtain res c where res: "snd_op m (chans (mem s) ! tx x) = (res, c)" by fastforce
    let ?s1 = "goto t (after_try res m tp ss r) (record_try (tx x) m (outcome_of res) (put_chan (tx x) c s))"
    have "bus_thread_step snd_op bounded rcv_op dtx drx s ?s1"
      using Cons.prems(1) True res by (rule bus_thread_step.o_try)
    then have s1: "?step s ?s1"
      by (rule step_byI) (simp_all add: record_try_def put_chan_def Cons.prems(1) after_try_other)
    show ?thesis
    proof (cases "\<exists>y. res = Inl (Full y)")
      case no: False
      let ?r1 = "(case res of Inr u \<Rightarrow> r\<lparr>sent := sent r + 1\<rparr> | Inl e \<Rightarrow> r)"
      have "after_try res m tp ss r = Sending m tp ss ?r1"
        using no by (cases res; cases "projl res") auto
      moreover have "offer_loop snd_op tp m (x # ss) (r, mem s) = offer_loop snd_op tp m ss (?r1, mem ?s1)"
        using True res no by (cases res; cases "projl res") (auto simp: record_try_def put_chan_def)
      ultimately show ?thesis using s1
        by (intro exI [of _ ?s1] exI [of _ ?r1]) (auto simp: record_try_def put_chan_def)
    next
      case full: True
      let ?r1 = "r\<lparr>dropped := dropped r + 1\<rparr>"
      let ?s2 = "goto t (Sending m tp ss ?r1) (?s1\<lparr>mem := (mem ?s1)\<lparr>drop_count := drop_count (mem ?s1) + 1\<rparr>,
        adds := adds ?s1 + 1, views := (views ?s1)(t := adds ?s1 + 1)\<rparr>)"
      have "pcs ?s1 t = Counting m tp ss ?r1" using full by auto
      then have "?step ?s1 ?s2" by (intro step_byI [OF o_count]) simp_all
      with s1 have "?step\<^sup>*\<^sup>* s ?s2" by (meson converse_rtranclp_into_rtranclp r_into_rtranclp)
      moreover have "offer_loop snd_op tp m (x # ss) (r, mem s) = offer_loop snd_op tp m ss (?r1, mem ?s2)"
        using True res full by (auto simp: record_try_def put_chan_def)
      ultimately show ?thesis
        by (intro exI [of _ ?s2] exI [of _ ?r1]) (auto simp: record_try_def put_chan_def)
    qed
  qed
  then obtain s1 r1 where s1: "?step\<^sup>*\<^sup>* s s1" "pcs s1 = (pcs s)(t := Sending m tp ss r1)"
      "offer_loop snd_op tp m ss (r1, mem s1) = (r', b')" "returned s1 = returned s"
      "received_from s1 = received_from s" "dropped_rx s1 = dropped_rx s" "stamps s1 = stamps s"
    using Cons.prems(2) by auto
  have "pcs s1 t = Sending m tp ss r1" by (simp add: s1(2))
  note IH = Cons.IH [OF this s1(3), unfolded s1(4-7)]
  then obtain s' where "?step\<^sup>*\<^sup>* s1 s'" "mem s' = b'"
      "returned s' = returned s @ [r']" "idle_again t s1 s'" "received_from s' = received_from s"
      "dropped_rx s' = dropped_rx s" "stamps s' = stamps s"
    by blast
  moreover from this(1) s1(1) have "?step\<^sup>*\<^sup>* s s'" by simp
  ultimately show ?case using s1(2) by (intro exI [of _ s']) simp
qed

text \<open>Each call, from the point before it takes the lock.\<close>

lemma offer_alone:
  assumes "pcs s t = Waiting m tp" and "owner s = None" and "iterates order (mem s)"
    and "offer_loop snd_op tp m (map (\<lambda>sid. the (subs (mem s) sid)) order) (\<lparr>sent = 0, dropped = 0\<rparr>, mem s) = (r, b')"
  shows "\<exists>s'. (step_by {t} snd_op bounded rcv_op dtx drx)\<^sup>*\<^sup>* s s' \<and> mem s' = b' \<and>
    returned s' = returned s @ [r] \<and> idle_again t s s' \<and>
    received_from s' = received_from s \<and> dropped_rx s' = dropped_rx s \<and> stamps s' = stamps s"
proof -
  let ?step = "step_by {t} snd_op bounded rcv_op dtx drx"
  let ?ss = "map (\<lambda>sid. the (subs (mem s) sid)) order"
  let ?s1 = "goto t (Sending m tp ?ss \<lparr>sent = 0, dropped = 0\<rparr>) ((acquire t s)\<lparr>entered := entered s @ [m]\<rparr>)"
  have lock: "?step s ?s1"
    by (rule step_byI [OF bus_thread_step.o_lock [OF assms(1-3)]]) (simp_all add: acquire_def assms(1))
  have "pcs ?s1 t = Sending m tp ?ss \<lparr>sent = 0, dropped = 0\<rparr>" by simp
  moreover have "offer_loop snd_op tp m ?ss (\<lparr>sent = 0, dropped = 0\<rparr>, mem ?s1) = (r, b')"
    using assms(4) by (simp add: acquire_def)
  ultimately obtain s' where "?step\<^sup>*\<^sup>* ?s1 s'" "mem s' = b'" "returned s' = returned ?s1 @ [r]"
      "idle_again t ?s1 s'" "received_from s' = received_from ?s1" "dropped_rx s' = dropped_rx ?s1"
      "stamps s' = stamps ?s1"
    using sending_alone by blast
  moreover from lock this(1) have "?step\<^sup>*\<^sup>* s s'" by (rule converse_rtranclp_into_rtranclp)
  ultimately show ?thesis by (intro exI [of _ s']) (auto simp: acquire_def)
qed

lemma subscribe_alone:
  assumes "pcs s t = Idle" and "owner s = None" and eq: "subscribe bounded dtx pattern (mem s) = ((sid, h), b')"
  shows "\<exists>s'. (bus_thread_step snd_op bounded rcv_op dtx drx)\<^sup>*\<^sup>* s s' \<and> mem s' = b' \<and>
    returned s' = returned s \<and> idle_again t s s' \<and>
    received_from s' = received_from s \<and> dropped_rx s' = dropped_rx s"
proof -
  let ?step = "bus_thread_step snd_op bounded rcv_op dtx drx" and ?c = "bounded (capacity (mem s))"
  let ?s1 = "goto t (Registering pattern ?c) s"
  let ?s2 = "goto t (Inserting pattern ?c) (acquire t ?s1)"
  let ?s3 = "release t (?s2\<lparr>mem := insert_sub dtx pattern ?c (mem ?s2),
      since := (since ?s2)(length (chans (mem ?s2)) := length (entered ?s2))\<rparr>)"
  have "?step s ?s1" using assms(1) by (rule bus_thread_step.s_call)
  moreover have "?step ?s1 ?s2" by (rule bus_thread_step.s_lock) (simp_all add: assms(2))
  moreover have "?step ?s2 ?s3" by (rule bus_thread_step.s_return) simp
  ultimately have "?step\<^sup>*\<^sup>* s ?s3" by (meson converse_rtranclp_into_rtranclp r_into_rtranclp)
  moreover have "b' = insert_sub dtx pattern ?c (mem s)"
    using eq by (auto simp: subscribe_in_two)
  ultimately show ?thesis by (intro exI [of _ ?s3]) (auto simp: release_def acquire_def)
qed

lemma unsubscribe_alone:
  assumes "pcs s t = Idle" and "owner s = None"
  shows "\<exists>s'. (bus_thread_step snd_op bounded rcv_op dtx drx)\<^sup>*\<^sup>* s s' \<and> mem s' = unsubscribe dtx sid (mem s) \<and>
    returned s' = returned s \<and> idle_again t s s' \<and>
    received_from s' = received_from s \<and> dropped_rx s' = dropped_rx s"
proof -
  let ?step = "bus_thread_step snd_op bounded rcv_op dtx drx"
  let ?s1 = "goto t (Removing sid) s"
  let ?s2 = "goto t (Erasing sid) (acquire t ?s1)"
  let ?s3 = "release t (?s2\<lparr>mem := unsubscribe dtx sid (mem ?s2)\<rparr>)"
  have "?step s ?s1" using assms(1) by (rule bus_thread_step.u_call)
  moreover have "?step ?s1 ?s2" by (rule bus_thread_step.u_lock) (simp_all add: assms(2))
  moreover have "?step ?s2 ?s3" by (rule bus_thread_step.u_return) simp
  ultimately have "?step\<^sup>*\<^sup>* s ?s3" by (meson converse_rtranclp_into_rtranclp r_into_rtranclp)
  then show ?thesis by (intro exI [of _ ?s3]) (auto simp: release_def acquire_def)
qed

section \<open>Every call can be brought to its end\<close>

lemma finite_subs: "table_inv s \<Longrightarrow> finite (dom (subs (mem s)))"
proof -
  assume inv: "table_inv s"
  then have "inj_on (\<lambda>i. tx (the (subs (mem s) i))) (dom (subs (mem s)))"
    by (auto simp: table_inv_def inj_on_def)
  moreover have "(\<lambda>i. tx (the (subs (mem s) i))) ` dom (subs (mem s)) \<subseteq> {..<length (chans (mem s))}"
    using inv by (fastforce simp: table_inv_def)
  ultimately show ?thesis by (meson finite_lessThan finite_subset inj_on_finite)
qed

lemma can_iterate: "table_inv s \<Longrightarrow> \<exists>order. iterates order (mem s)"
  using finite_distinct_list [OF finite_subs, of s] by (auto simp: iterates_def)

lemma section_can_end:
  assumes "lock_inv s" and "owner s = Some t"
  shows "\<exists>s'. (step_by {t} snd_op bounded rcv_op dtx drx)\<^sup>*\<^sup>* s s' \<and> idle_again t s s'"
proof -
  let ?step = "step_by {t} snd_op bounded rcv_op dtx drx"
  have "in_section (pcs s t)" using assms by (simp add: lock_inv_def)
  then consider m tp ss r where "pcs s t = Sending m tp ss r" | m tp ss r where "pcs s t = Counting m tp ss r"
    | p h where "pcs s t = Inserting p h" | sid where "pcs s t = Erasing sid"
    by (cases "pcs s t") auto
  then show ?thesis
  proof cases
    case 1
    obtain r' b' where "offer_loop snd_op tp m ss (r, mem s) = (r', b')" by fastforce
    from sending_alone [OF 1 this, of bounded rcv_op dtx drx] show ?thesis by blast
  next
    case 2
    let ?s1 = "goto t (Sending m tp ss r) (s\<lparr>mem := (mem s)\<lparr>drop_count := drop_count (mem s) + 1\<rparr>,
        adds := adds s + 1, views := (views s)(t := adds s + 1)\<rparr>)"
    have step: "?step s ?s1" by (rule step_byI [OF bus_thread_step.o_count [OF 2]]) (simp_all add: 2)
    obtain r' b' where "offer_loop snd_op tp m ss (r, mem ?s1) = (r', b')" by fastforce
    moreover have "pcs ?s1 t = Sending m tp ss r" by simp
    ultimately obtain s' where s': "?step\<^sup>*\<^sup>* ?s1 s'" "idle_again t ?s1 s'"
      using sending_alone by blast
    from step s'(1) have "?step\<^sup>*\<^sup>* s s'" by (rule converse_rtranclp_into_rtranclp)
    with s'(2) show ?thesis by (intro exI [of _ s']) simp
  next
    case 3
    let ?s1 = "release t (s\<lparr>mem := insert_sub dtx p h (mem s),
          since := (since s)(length (chans (mem s)) := length (entered s))\<rparr>)"
    have "?step s ?s1" by (rule step_byI [OF bus_thread_step.s_return [OF 3]]) (simp_all add: release_def 3)
    then show ?thesis by (intro exI [of _ ?s1]) (auto simp: release_def)
  next
    case 4
    let ?s1 = "release t (s\<lparr>mem := unsubscribe dtx sid (mem s)\<rparr>)"
    have "?step s ?s1" by (rule step_byI [OF bus_thread_step.u_return [OF 4]]) (simp_all add: release_def 4)
    then show ?thesis by (intro exI [of _ ?s1]) (auto simp: release_def)
  qed
qed

context bus_over_channel begin

abbreviation sys_by :: "nat set \<Rightarrow> 'c bus_sys \<Rightarrow> 'c bus_sys \<Rightarrow> bool" where
  "sys_by T \<equiv> step_by T ch_send ch_bounded ch_recv drop_tx drop_rx"

lemma sys_steps_inv: "sys_step\<^sup>*\<^sup>* s s' \<Longrightarrow> cap_ok cap \<Longrightarrow> sys_ok cap s \<Longrightarrow> sys_ok cap s'"
  by (induction rule: rtranclp_induct) (auto intro: sys_inv_step)

lemma waiting_can_finish:
  assumes "cap_ok cap" "sys_ok cap s" "owner s = None" "pcs s t = Waiting m tp"
  shows "\<exists>s'. (sys_by {t})\<^sup>*\<^sup>* s s' \<and> idle_again t s s'"
proof -
  obtain order where it: "iterates order (mem s)" using can_iterate assms(2) by (auto simp: sys_inv_def table_ok_def)
  obtain r b' where "offer_loop ch_send tp m (map (\<lambda>sid. the (subs (mem s) sid)) order) (\<lparr>sent = 0, dropped = 0\<rparr>, mem s) = (r, b')"
    by fastforce
  from offer_alone [OF assms(4,3) it this] show ?thesis by blast
qed

lemma call_can_finish:
  assumes cap: "cap_ok cap" and inv: "sys_ok cap s" and free: "owner s = None"
  shows "\<exists>s'. (sys_by {t})\<^sup>*\<^sup>* s s' \<and> idle_again t s s'"
proof (cases "pcs s t")
  case Idle
  then have "idle_again t s s" using free by (auto simp: fun_upd_idem)
  then show ?thesis by blast
next
  case (Stamping m)
  then have wf: "wf_message m" using inv by (auto simp: sys_inv_def table_ok_def dest: message_at)
  let ?m = "stamp None m"
  let ?s1 = "goto t (Waiting ?m (topic_of ?m)) (s\<lparr>stamps := stamps s @ [timestamp_ns ?m]\<rparr>)"
  have move: "sys_step s ?s1"
    by (rule bus_thread_step.o_stamp [OF Stamping]) (simp add: topic_str_eq wf)
  have step: "sys_by {t} s ?s1" by (rule step_byI [OF move]) (simp_all add: Stamping)
  have "sys_ok cap ?s1" by (rule sys_inv_step [OF move cap inv])
  then obtain s' where s': "(sys_by {t})\<^sup>*\<^sup>* ?s1 s'" "idle_again t ?s1 s'"
    using waiting_can_finish [OF cap, of ?s1 t ?m "topic_of ?m"] free by auto
  from step s'(1) have "(sys_by {t})\<^sup>*\<^sup>* s s'" by (rule converse_rtranclp_into_rtranclp)
  with s'(2) show ?thesis by (intro exI [of _ s']) simp
next
  case (Waiting m tp)
  then show ?thesis using waiting_can_finish [OF cap inv free] by blast
next
  case (Registering p h)
  let ?s1 = "goto t (Inserting p h) (acquire t s)"
  have move: "sys_step s ?s1" by (rule bus_thread_step.s_lock [OF Registering free])
  have step: "sys_by {t} s ?s1" by (rule step_byI [OF move]) (simp_all add: acquire_def Registering)
  have "lock_inv ?s1" using sys_inv_step [OF move cap inv] by (simp add: sys_inv_def table_ok_def)
  moreover have "owner ?s1 = Some t" by (simp add: acquire_def)
  ultimately obtain s' where s': "(sys_by {t})\<^sup>*\<^sup>* ?s1 s'" "idle_again t ?s1 s'" using section_can_end by blast
  from step s'(1) have "(sys_by {t})\<^sup>*\<^sup>* s s'" by (rule converse_rtranclp_into_rtranclp)
  with s'(2) show ?thesis by (intro exI [of _ s']) (simp add: acquire_def)
next
  case (Removing sid)
  let ?s1 = "goto t (Erasing sid) (acquire t s)"
  have move: "sys_step s ?s1" by (rule bus_thread_step.u_lock [OF Removing free])
  have step: "sys_by {t} s ?s1" by (rule step_byI [OF move]) (simp_all add: acquire_def Removing)
  have "lock_inv ?s1" using sys_inv_step [OF move cap inv] by (simp add: sys_inv_def table_ok_def)
  moreover have "owner ?s1 = Some t" by (simp add: acquire_def)
  ultimately obtain s' where s': "(sys_by {t})\<^sup>*\<^sup>* ?s1 s'" "idle_again t ?s1 s'" using section_can_end by blast
  from step s'(1) have "(sys_by {t})\<^sup>*\<^sup>* s s'" by (rule converse_rtranclp_into_rtranclp)
  with s'(2) show ?thesis by (intro exI [of _ s']) (simp add: acquire_def)
qed (use inv free in \<open>auto simp: sys_inv_def table_ok_def dest: holds_lock\<close>)

text \<open>Only the caller and the thread that holds the lock have to take steps.\<close>

lemma any_call_can_finish:
  assumes cap: "cap_ok cap" and inv: "sys_ok cap s"
  shows "\<exists>s'. (sys_by {u. u = t \<or> owner s = Some u})\<^sup>*\<^sup>* s s' \<and> owner s' = None \<and>
    pcs s' = (\<lambda>u. if u = t \<or> owner s = Some u then Idle else pcs s u)"
proof -
  let ?T = "{u. u = t \<or> owner s = Some u}"
  obtain s1 where s1: "(sys_by ?T)\<^sup>*\<^sup>* s s1" "owner s1 = None"
    "pcs s1 = (\<lambda>u. if owner s = Some u then Idle else pcs s u)"
  proof (cases "owner s")
    case None
    with that [of s] show ?thesis by simp
  next
    case (Some u)
    have "lock_inv s" using inv by (simp add: sys_inv_def table_ok_def)
    from section_can_end [OF this Some] obtain s1 where s1: "(sys_by {u})\<^sup>*\<^sup>* s s1" "idle_again u s s1" by blast
    from steps_by_mono [OF s1(1), of ?T] Some have "(sys_by ?T)\<^sup>*\<^sup>* s s1" by simp
    with that s1(2) Some show ?thesis by (auto simp: fun_eq_iff)
  qed
  obtain s' where s': "(sys_by {t})\<^sup>*\<^sup>* s1 s'" "idle_again t s1 s'"
    using call_can_finish [OF cap sys_steps_inv [OF by_steps [OF s1(1)] cap inv] s1(2)] by blast
  from s1(1) steps_by_mono [OF s'(1), of ?T] have "(sys_by ?T)\<^sup>*\<^sup>* s s'" by simp
  with s1(3) s'(2) show ?thesis by (intro exI [of _ s']) (auto simp: fun_eq_iff)
qed

end

section \<open>Sequential histories\<close>

lemma offer_from_idle:
  assumes "pcs s t = Idle" and "owner s = None" and "iterates order (mem s)" and wf: "wf_message msg"
    and eq: "offer snd_op order clock msg (mem s) = Inr (r, b')"
  shows "\<exists>s'. (bus_thread_step snd_op bounded rcv_op dtx drx)\<^sup>*\<^sup>* s s' \<and> mem s' = b' \<and>
    returned s' = returned s @ [r] \<and> idle_again t s s' \<and>
    received_from s' = received_from s \<and> dropped_rx s' = dropped_rx s"
proof -
  let ?step = "bus_thread_step snd_op bounded rcv_op dtx drx" and ?m = "stamp clock msg"
  let ?s1 = "goto t (Stamping msg) s"
  let ?s2 = "goto t (Waiting ?m (topic_of msg)) (?s1\<lparr>stamps := stamps ?s1 @ [timestamp_ns ?m]\<rparr>)"
  have loop: "offer_loop snd_op (topic_of msg) ?m (map (\<lambda>sid. the (subs (mem s) sid)) order) (\<lparr>sent = 0, dropped = 0\<rparr>, mem s) = (r, b')"
    using eq wf by (simp add: offer_def topic_str_eq Let_def)
  have "?step s ?s1" using assms(1) wf by (rule bus_thread_step.o_call)
  moreover have "?step ?s1 ?s2" by (rule bus_thread_step.o_stamp) (simp_all add: topic_str_eq wf)
  ultimately have start: "?step\<^sup>*\<^sup>* s ?s2" by (meson converse_rtranclp_into_rtranclp r_into_rtranclp)
  have "pcs ?s2 t = Waiting ?m (topic_of msg)" by simp
  moreover have "owner ?s2 = None" "iterates order (mem ?s2)" using assms(2,3) by simp_all
  moreover have "offer_loop snd_op (topic_of msg) ?m (map (\<lambda>sid. the (subs (mem ?s2) sid)) order)
      (\<lparr>sent = 0, dropped = 0\<rparr>, mem ?s2) = (r, b')" using loop by simp
  ultimately obtain s' where s': "(step_by {t} snd_op bounded rcv_op dtx drx)\<^sup>*\<^sup>* ?s2 s'" "mem s' = b'"
      "returned s' = returned ?s2 @ [r]" "idle_again t ?s2 s'"
      "received_from s' = received_from ?s2" "dropped_rx s' = dropped_rx ?s2"
    using offer_alone by blast
  from start by_steps [OF s'(1)] have "?step\<^sup>*\<^sup>* s s'" by (rule rtranclp_trans)
  with s'(2-6) show ?thesis by (intro exI [of _ s']) simp
qed

lemma offer_loop_length: "length (chans (snd (offer_loop snd_op tp m ss rb))) = length (chans (snd rb))"
  by (induction ss arbitrary: rb) (auto split: sum.splits try_send_error.splits prod.splits simp: Let_def)

lemma reach_steps:
  "(bus_thread_step snd_op bounded rcv_op dtx drx)\<^sup>*\<^sup>* s s' \<Longrightarrow>
   bus_sys_reach snd_op bounded rcv_op dtx drx cap s \<Longrightarrow> bus_sys_reach snd_op bounded rcv_op dtx drx cap s'"
  by (induction rule: rtranclp_induct) (auto intro: bus_sys_reach.sys_next)

text \<open>A history of theory \<open>Bus\<close> is a run in which each call is finished before the next begins.\<close>

definition quiet_as :: "'c bus_hist \<Rightarrow> 'c bus_sys \<Rightarrow> bool" where
  "quiet_as H s \<longleftrightarrow> mem s = the_bus H \<and> returned s = results H \<and> received_from s = out H \<and>
     dropped_rx s = gone H \<and> owner s = None \<and> pcs s = (\<lambda>_. Idle)"

lemma history_is_run:
  "bus_reach snd_op bounded rcv_op dtx drx cap H \<Longrightarrow>
   \<exists>s. bus_sys_reach snd_op bounded rcv_op dtx drx cap s \<and> quiet_as H s"
proof (induction rule: bus_reach.induct)
  case reach_new
  show ?case
    by (rule exI [of _ "bus_sys_init cap"], rule conjI, rule bus_sys_reach.sys_start)
      (simp add: quiet_as_def bus_sys_init_def bus_new_def)
next
  case (reach_subscribe H pattern)
  then obtain s where s: "bus_sys_reach snd_op bounded rcv_op dtx drx cap s" "quiet_as H s" by blast
  obtain sid h b' where eq: "subscribe bounded dtx pattern (mem s) = ((sid, h), b')" by (metis prod.collapse)
  have "pcs s 0 = Idle" "owner s = None" using s(2) by (simp_all add: quiet_as_def)
  from subscribe_alone [OF this eq, of snd_op rcv_op drx] obtain s' where
    s': "(bus_thread_step snd_op bounded rcv_op dtx drx)\<^sup>*\<^sup>* s s'" "mem s' = b'" "returned s' = returned s"
      "idle_again 0 s s'" "received_from s' = received_from s" "dropped_rx s' = dropped_rx s"
    by blast
  then have "quiet_as (H\<lparr>the_bus := snd (subscribe bounded dtx pattern (the_bus H))\<rparr>) s'"
    using s(2) eq by (auto simp: quiet_as_def)
  with reach_steps [OF s'(1) s(1)] show ?case by blast
next
  case (reach_unsubscribe H sid)
  then obtain s where s: "bus_sys_reach snd_op bounded rcv_op dtx drx cap s" "quiet_as H s" by blast
  have "pcs s 0 = Idle" "owner s = None" using s(2) by (simp_all add: quiet_as_def)
  from unsubscribe_alone [OF this, of snd_op bounded rcv_op dtx drx sid] obtain s' where
    s': "(bus_thread_step snd_op bounded rcv_op dtx drx)\<^sup>*\<^sup>* s s'" "mem s' = unsubscribe dtx sid (mem s)" "returned s' = returned s"
      "idle_again 0 s s'" "received_from s' = received_from s" "dropped_rx s' = dropped_rx s"
    by blast
  then have "quiet_as (H\<lparr>the_bus := unsubscribe dtx sid (the_bus H)\<rparr>) s'"
    using s(2) by (auto simp: quiet_as_def unsubscribe_def)
  with reach_steps [OF s'(1) s(1)] show ?case by blast
next
  case (reach_offer H order msg clock r b')
  then obtain s where s: "bus_sys_reach snd_op bounded rcv_op dtx drx cap s" "quiet_as H s" by blast
  have "pcs s 0 = Idle" "owner s = None" "iterates order (mem s)" "offer snd_op order clock msg (mem s) = Inr (r, b')"
    using s(2) reach_offer by (simp_all add: quiet_as_def)
  from offer_from_idle [OF this(1-3) reach_offer(3) this(4), of bounded rcv_op dtx drx] obtain s' where
    s': "(bus_thread_step snd_op bounded rcv_op dtx drx)\<^sup>*\<^sup>* s s'" "mem s' = b'" "returned s' = returned s @ [r]"
      "idle_again 0 s s'" "received_from s' = received_from s" "dropped_rx s' = dropped_rx s"
    by blast
  then have "quiet_as (H\<lparr>the_bus := b', results := results H @ [r],
      put := (\<lambda>h. put H h @ put_by_offer snd_op (stamp clock msg) (the_bus H) h)\<rparr>) s'"
    using s(2) by (auto simp: quiet_as_def)
  with reach_steps [OF s'(1) s(1)] show ?case by blast
next
  case (reach_recv H h res c)
  then obtain s where s: "bus_sys_reach snd_op bounded rcv_op dtx drx cap s" "quiet_as H s" by blast
  let ?s' = "(put_chan h c s)\<lparr>received_from := (received_from s)(h := received_from s h @
          (case res of Inr m \<Rightarrow> [m] | Inl _ \<Rightarrow> []))\<rparr>"
  have "bus_thread_step snd_op bounded rcv_op dtx drx s ?s'"
    by (rule bus_thread_step.r_recv) (use s(2) reach_recv in \<open>simp_all add: quiet_as_def\<close>)
  then have "bus_sys_reach snd_op bounded rcv_op dtx drx cap ?s'" by (rule bus_sys_reach.sys_next [OF s(1)])
  moreover have "quiet_as (H\<lparr>the_bus := (the_bus H)\<lparr>chans := (chans (the_bus H))[h := c]\<rparr>,
      out := (out H)(h := out H h @ (case res of Inl _ \<Rightarrow> [] | Inr m \<Rightarrow> [m]))\<rparr>) ?s'"
    using s(2) by (auto simp: quiet_as_def put_chan_def)
  ultimately show ?case by blast
next
  case (reach_drop_receiver H h)
  then obtain s where s: "bus_sys_reach snd_op bounded rcv_op dtx drx cap s" "quiet_as H s" by blast
  let ?s' = "(put_chan h (drx (chans (mem s) ! h)) s)\<lparr>dropped_rx := insert h (dropped_rx s)\<rparr>"
  have "bus_thread_step snd_op bounded rcv_op dtx drx s ?s'"
    by (rule bus_thread_step.r_drop) (use s(2) reach_drop_receiver in \<open>simp_all add: quiet_as_def\<close>)
  then have "bus_sys_reach snd_op bounded rcv_op dtx drx cap ?s'" by (rule bus_sys_reach.sys_next [OF s(1)])
  moreover have "quiet_as (H\<lparr>the_bus := (the_bus H)\<lparr>chans := (chans (the_bus H))[h := drx (chans (the_bus H) ! h)]\<rparr>,
      gone := insert h (gone H)\<rparr>) ?s'"
    using s(2) by (auto simp: quiet_as_def put_chan_def)
  ultimately show ?case by blast
qed

section \<open>A run of two publishers\<close>

text \<open>
  Two threads call \<open>offer\<close>.  The first takes its time stamp first, the second the lock.
\<close>

definition ex_stamped :: "u64 \<Rightarrow> message" where
  "ex_stamped n = ex_msg\<lparr>timestamp_ns := n\<rparr>"

definition ex_loop :: "u64 \<Rightarrow> message ring_channel bus \<Rightarrow> offer_result \<times> message ring_channel bus" where
  "ex_loop n b = offer_loop rc_send (topic_of ex_msg) (ex_stamped n) [the (subs b 0)] (\<lparr>sent = 0, dropped = 0\<rparr>, b)"

definition ex_shared :: "nat \<Rightarrow> message ring_channel bus" where
  "ex_shared k = (let b = snd (subscribe rc_bounded rc_drop_tx [97, 42] (bus_new 2)) in
     if k = 0 then b else if k = 1 then snd (ex_loop 6 b) else snd (ex_loop 5 (snd (ex_loop 6 b))))"

lemma ex_shared_values:
  "fst (rc_recv (chans (ex_shared 2) ! 0)) = Inr (ex_stamped 6)"
  "fst (rc_recv (snd (rc_recv (chans (ex_shared 2) ! 0)))) = Inr (ex_stamped 5)"
  by code_simp+

lemma offer_loop_subs: "subs (snd (offer_loop snd_op tp m ss rb)) = subs (snd rb)"
  by (induction ss arbitrary: rb) (auto split: sum.splits try_send_error.splits prod.splits simp: Let_def)

lemma ex_shared_subs: "dom (subs (ex_shared 0)) = {0}" "dom (subs (ex_shared 1)) = {0}" "length (chans (ex_shared 2)) = 1"
proof -
  have zero: "subs (ex_shared 0) =
      subs (snd (subscribe rc_bounded rc_drop_tx [97, 42] (bus_new 2) :: _ \<times> message ring_channel bus))"
    and one: "subs (ex_shared 1) = subs (ex_shared 0)"
    and len: "length (chans (ex_shared 2)) = length (chans (ex_shared 0))"
    by (simp_all add: ex_shared_def ex_loop_def Let_def offer_loop_length offer_loop_subs del: offer_loop.simps)
  show "dom (subs (ex_shared 0)) = {0}" by (simp add: zero subscribe_def bus_new_def Let_def)
  with one show "dom (subs (ex_shared 1)) = {0}" by simp
  show "length (chans (ex_shared 2)) = 1"
    by (simp add: len) (simp add: ex_shared_def subscribe_def bus_new_def Let_def)
qed

abbreviation ex_sys_reach :: "message ring_channel bus_sys \<Rightarrow> bool" where
  "ex_sys_reach \<equiv> bus_sys_reach rc_send rc_bounded rc_recv rc_drop_tx rc_drop_rx 2"

lemma ex_both_stamped:
  obtains s where "ex_sys_reach s" "mem s = ex_shared 0" "owner s = None" "stamps s = [5, 6]" "returned s = []"
    "pcs s = (\<lambda>_. Idle)(1 := Waiting (ex_stamped 5) (topic_of ex_msg), 2 := Waiting (ex_stamped 6) (topic_of ex_msg))"
    "received_from s = (\<lambda>_. [])" "dropped_rx s = {}"
proof -
  let ?step = "bus_thread_step rc_send rc_bounded rc_recv rc_drop_tx rc_drop_rx"
  let ?start = "bus_sys_init 2 :: message ring_channel bus_sys"
  let ?s0 = "goto 0 (Registering [97, 42] (rc_bounded 2)) ?start"
  let ?s1 = "goto 0 (Inserting [97, 42] (rc_bounded 2)) (acquire 0 ?s0)"
  let ?s2 = "release 0 (?s1\<lparr>mem := insert_sub rc_drop_tx [97, 42] (rc_bounded 2) (mem ?s1),
      since := (since ?s1)(length (chans (mem ?s1)) := length (entered ?s1))\<rparr>)"
  let ?s3 = "goto 1 (Stamping ex_msg) ?s2"
  let ?s4 = "goto 1 (Waiting (ex_stamped 5) (topic_of ex_msg)) (?s3\<lparr>stamps := stamps ?s3 @ [5]\<rparr>)"
  let ?s5 = "goto 2 (Stamping ex_msg) ?s4"
  let ?s6 = "goto 2 (Waiting (ex_stamped 6) (topic_of ex_msg)) (?s5\<lparr>stamps := stamps ?s5 @ [6]\<rparr>)"
  have idle: "pcs ?start t = Idle" for t by (simp add: bus_sys_init_def)
  have st: "stamp (Some n) ex_msg = ex_stamped (of_nat n)" for n by (simp add: stamp_def ex_stamped_def)
  have tp: "topic_str (ex_stamped n) = Inr (topic_of ex_msg)" for n
    using topic_str_eq [of "stamp (Some (unat n)) ex_msg"] by (simp add: wf_ex_msg) (simp add: st)
  have ts: "timestamp_ns (ex_stamped n) = n" for n by (simp add: ex_stamped_def)
  note onwards = bus_sys_reach.sys_next
  have "ex_sys_reach ?start" by (rule bus_sys_reach.sys_start)
  moreover have "?step ?start ?s0"
    using bus_thread_step.s_call [OF idle, of rc_send rc_bounded rc_recv rc_drop_tx rc_drop_rx 0 "[97, 42]"]
    by (simp add: bus_sys_init_def bus_new_def)
  ultimately have "ex_sys_reach ?s0" by (rule onwards)
  moreover have "?step ?s0 ?s1" by (rule bus_thread_step.s_lock) (simp_all add: bus_sys_init_def)
  ultimately have "ex_sys_reach ?s1" by (rule onwards)
  moreover have "?step ?s1 ?s2" by (rule bus_thread_step.s_return) simp
  ultimately have "ex_sys_reach ?s2" by (rule onwards)
  moreover have "?step ?s2 ?s3"
    by (rule bus_thread_step.o_call) (simp_all add: release_def acquire_def idle wf_ex_msg)
  ultimately have "ex_sys_reach ?s3" by (rule onwards)
  moreover have "?step ?s3 ?s4"
    using bus_thread_step.o_stamp [of ?s3 1 ex_msg "Some 5" "topic_of ex_msg"] by (simp add: st tp ts)
  ultimately have "ex_sys_reach ?s4" by (rule onwards)
  moreover have "?step ?s4 ?s5"
    by (rule bus_thread_step.o_call) (simp_all add: release_def acquire_def idle wf_ex_msg)
  ultimately have "ex_sys_reach ?s5" by (rule onwards)
  moreover have "?step ?s5 ?s6"
    using bus_thread_step.o_stamp [of ?s5 2 ex_msg "Some 6" "topic_of ex_msg"] by (simp add: st tp ts)
  ultimately have "ex_sys_reach ?s6" by (rule onwards)
  moreover have "mem ?s6 = ex_shared 0"
    by (simp add: ex_shared_def Let_def subscribe_in_two release_def acquire_def bus_sys_init_def bus_new_def)
  ultimately show ?thesis
    by (rule that) (simp_all add: goto_def release_def acquire_def bus_sys_init_def fun_eq_iff)
qed

text \<open>An offer of the example, and a receive, as steps.\<close>

lemma ex_offer_alone:
  assumes "ex_sys_reach s" "mem s = b" "owner s = None" "pcs s t = Waiting (ex_stamped n) (topic_of ex_msg)"
    and "dom (subs b) = {0}"
  obtains s' where "ex_sys_reach s'" "mem s' = snd (ex_loop n b)" "returned s' = returned s @ [fst (ex_loop n b)]"
    "idle_again t s s'" "received_from s' = received_from s" "dropped_rx s' = dropped_rx s"
    "stamps s' = stamps s"
proof -
  have it: "iterates [0] (mem s)" using assms(2,5) by (simp add: iterates_def)
  have "offer_loop rc_send (topic_of ex_msg) (ex_stamped n) (map (\<lambda>sid. the (subs (mem s) sid)) [0])
      (\<lparr>sent = 0, dropped = 0\<rparr>, mem s) = (fst (ex_loop n b), snd (ex_loop n b))"
    using assms(2) by (simp add: ex_loop_def del: offer_loop.simps)
  from offer_alone [OF assms(4,3) it this, of rc_bounded rc_recv rc_drop_tx rc_drop_rx]
  show ?thesis using that reach_steps [OF by_steps assms(1)] by blast
qed

lemma ex_recv_step:
  assumes "ex_sys_reach s" "h \<notin> dropped_rx s" "rc_recv (chans (mem s) ! h) = (Inr m, c)"
    "h < length (chans (mem s))"
  obtains s' where "ex_sys_reach s'" "chans (mem s') ! h = c" "length (chans (mem s')) = length (chans (mem s))"
    "received_from s' h = received_from s h @ [m]" "stamps s' = stamps s"
    "dropped_rx s' = dropped_rx s" "owner s' = owner s" "pcs s' = pcs s" "returned s' = returned s"
proof -
  let ?s' = "(put_chan h c s)\<lparr>received_from := (received_from s)(h := received_from s h @
      (case (Inr m :: try_recv_error + message) of Inr m \<Rightarrow> [m] | Inl _ \<Rightarrow> []))\<rparr>"
  have "ex_sys_reach ?s'"
    using assms(2-4) by (intro bus_sys_reach.sys_next [OF assms(1)] bus_thread_step.r_recv)
  then show ?thesis by (rule that) (use assms(4) in \<open>simp_all add: put_chan_def\<close>)
qed

text \<open>
  Time stamps are no order of delivery: the clock is read before the lock is taken, so a thread
  can be overtaken in between, and then a subscriber sees the later stamp first.
\<close>

lemma stamps_out_of_order:
  obtains s where "ex_sys_reach s" "stamps s = [5, 6]" "map timestamp_ns (received_from s 0) = [6, 5]"
    "owner s = None" "pcs s = (\<lambda>_. Idle)" "length (returned s) = 2"
proof (rule ex_both_stamped)
  fix s
  assume s: "ex_sys_reach s" "mem s = ex_shared 0" "owner s = None" "stamps s = [5, 6]" "returned s = []"
    "pcs s = (\<lambda>_. Idle)(1 := Waiting (ex_stamped 5) (topic_of ex_msg), 2 := Waiting (ex_stamped 6) (topic_of ex_msg))"
    "received_from s = (\<lambda>_. [])" "dropped_rx s = {}"
  have "pcs s 2 = Waiting (ex_stamped 6) (topic_of ex_msg)" by (simp add: s(6))
  from ex_offer_alone [OF s(1-3) this ex_shared_subs(1)] obtain s1 where
    "ex_sys_reach s1" "mem s1 = snd (ex_loop 6 (ex_shared 0))" "returned s1 = returned s @ [fst (ex_loop 6 (ex_shared 0))]"
      "idle_again 2 s s1" "received_from s1 = received_from s" "dropped_rx s1 = dropped_rx s"
      "stamps s1 = stamps s"
    by blast
  moreover have "snd (ex_loop 6 (ex_shared 0)) = ex_shared 1" by (simp add: ex_shared_def Let_def)
  ultimately have s1: "ex_sys_reach s1" "mem s1 = ex_shared 1" "length (returned s1) = 1" "idle_again 2 s s1"
      "received_from s1 = (\<lambda>_. [])" "dropped_rx s1 = {}" "stamps s1 = [5, 6]"
    by (simp_all add: s)
  have "pcs s1 1 = Waiting (ex_stamped 5) (topic_of ex_msg)" using s1(4) by (simp add: s(6))
  with s1(4) ex_offer_alone [OF s1(1,2) _ _ ex_shared_subs(2)] obtain s2 where
    s2: "ex_sys_reach s2" "mem s2 = snd (ex_loop 5 (ex_shared 1))" "returned s2 = returned s1 @ [fst (ex_loop 5 (ex_shared 1))]"
      "idle_again 1 s1 s2" "received_from s2 = received_from s1" "dropped_rx s2 = dropped_rx s1"
      "stamps s2 = stamps s1"
    by blast
  have mem2: "mem s2 = ex_shared 2" by (simp add: s2(2) ex_shared_def Let_def)
  obtain c1 c2 where c: "rc_recv (chans (mem s2) ! 0) = (Inr (ex_stamped 6), c1)" "rc_recv c1 = (Inr (ex_stamped 5), c2)"
    using ex_shared_values mem2 by (metis prod.collapse)
  have len: "0 < length (chans (mem s2))" by (simp add: mem2 ex_shared_subs(3))
  have live: "0 \<notin> dropped_rx s2" using s1(6) s2(6) by simp
  from ex_recv_step [OF s2(1) live c(1) len] obtain s3 where
    s3: "ex_sys_reach s3" "chans (mem s3) ! 0 = c1" "length (chans (mem s3)) = length (chans (mem s2))"
      "received_from s3 0 = received_from s2 0 @ [ex_stamped 6]" "stamps s3 = stamps s2"
      "dropped_rx s3 = dropped_rx s2" "owner s3 = owner s2" "pcs s3 = pcs s2" "returned s3 = returned s2"
    by blast
  have ready: "0 \<notin> dropped_rx s3" "rc_recv (chans (mem s3) ! 0) = (Inr (ex_stamped 5), c2)"
      "0 < length (chans (mem s3))"
    using live len by (simp_all add: s3 c(2))
  from ex_recv_step [OF s3(1) ready] obtain s4 where
    s4: "ex_sys_reach s4" "received_from s4 0 = received_from s3 0 @ [ex_stamped 5]" "stamps s4 = stamps s3"
      "owner s4 = owner s3" "pcs s4 = pcs s3" "returned s4 = returned s3"
    by blast
  have "pcs s4 = (\<lambda>_. Idle)" using s1(4) s2(4) by (auto simp: s4(5) s3(8) s(6))
  moreover have "map timestamp_ns (received_from s4 0) = [6, 5]"
    by (simp add: s4(2) s3(4) s2(5) s1(5) ex_stamped_def)
  ultimately show ?thesis
    using that [OF s4(1)] s1(3,7) s2(3,4,7) by (simp add: s4 s3 s2)
qed

end
