(* ===== verification/Bus_Serial.thy ===== *)
theory Bus_Serial
  imports Bus_Sections
begin

text \<open>
  Every run of the threads of theory \<open>Bus_Threads\<close> has a history of theory \<open>Bus\<close>, in which calls
  follow each other and an offer is one step, with the same results.  While an offer is in
  progress the history has what happened before it, and receives on channels that the offer has
  already sent to wait in a list of their own; those on other channels are moved before the
  offer, which does not see the difference.
\<close>

section \<open>Actions of receivers\<close>

type_synonym 'c receiving = "'c bus \<times> (nat \<Rightarrow> message list) \<times> nat set"

definition rx_act ::
    "('c \<Rightarrow> (try_recv_error + message) \<times> 'c) \<Rightarrow> ('c \<Rightarrow> 'c) \<Rightarrow> 'c \<Rightarrow> 'c \<Rightarrow> message list \<Rightarrow> bool \<Rightarrow> bool" where
  "rx_act rcv_op drx c c' ms k \<longleftrightarrow>
     (if k then c' = drx c \<and> ms = []
      else c' = snd (rcv_op c) \<and> ms = (case fst (rcv_op c) of Inr m \<Rightarrow> [m] | Inl _ \<Rightarrow> []))"

fun touch :: "nat \<Rightarrow> 'c \<Rightarrow> message list \<Rightarrow> bool \<Rightarrow> 'c receiving \<Rightarrow> 'c receiving" where
  "touch h c ms k (b, got, dead) =
     (b\<lparr>chans := (chans b)[h := c]\<rparr>, got(h := got h @ ms), if k then insert h dead else dead)"

fun open_at :: "nat \<Rightarrow> 'c receiving \<Rightarrow> bool" where
  "open_at h (b, got, dead) \<longleftrightarrow> h < length (chans b) \<and> h \<notin> dead"

fun chan_at :: "nat \<Rightarrow> 'c receiving \<Rightarrow> 'c" where
  "chan_at h (b, got, dead) = chans b ! h"

inductive rx_step ::
    "('c \<Rightarrow> (try_recv_error + message) \<times> 'c) \<Rightarrow> ('c \<Rightarrow> 'c) \<Rightarrow> nat set \<Rightarrow> 'c receiving \<Rightarrow> 'c receiving \<Rightarrow> bool"
    for rcv_op drx T where
  "h \<in> T \<Longrightarrow> open_at h z \<Longrightarrow> rx_act rcv_op drx (chan_at h z) c ms k \<Longrightarrow> rx_step rcv_op drx T z (touch h c ms k z)"

lemma rx_step_subset: "T \<subseteq> T' \<Longrightarrow> (rx_step rcv_op drx T)\<^sup>*\<^sup>* y z \<Longrightarrow> (rx_step rcv_op drx T')\<^sup>*\<^sup>* y z"
proof -
  assume "T \<subseteq> T'"
  then have "rx_step rcv_op drx T \<le> rx_step rcv_op drx T'" 
    by (intro predicate2I) (erule rx_step.cases, simp only:, rule rx_step.intros, auto)
  then show "(rx_step rcv_op drx T)\<^sup>*\<^sup>* y z \<Longrightarrow> (rx_step rcv_op drx T')\<^sup>*\<^sup>* y z" by (meson predicate2D rtranclp_mono)
qed

text \<open>What receivers leave alone.\<close>

lemma touch_keeps:
  assumes "touch h c ms k (b, got, dead) = (b', got', dead')"
  shows "subs b' = subs b" "next_id b' = next_id b" "capacity b' = capacity b" "drop_count b' = drop_count b"
    "length (chans b') = length (chans b)"
    "g \<noteq> h \<Longrightarrow> chans b' ! g = chans b ! g \<and> got' g = got g \<and> (g \<in> dead' \<longleftrightarrow> g \<in> dead)"
  using assms by (auto split: if_splits)

lemma rx_keeps:
  assumes "(rx_step rcv_op drx T)\<^sup>*\<^sup>* (b, got, dead) (b', got', dead')"
  shows "subs b' = subs b \<and> next_id b' = next_id b \<and> capacity b' = capacity b \<and> drop_count b' = drop_count b \<and>
    length (chans b') = length (chans b) \<and>
    (\<forall>h. h \<notin> T \<longrightarrow> chans b' ! h = chans b ! h \<and> got' h = got h \<and> (h \<in> dead' \<longleftrightarrow> h \<in> dead))"
  using assms
proof (induction "(b', got', dead')" arbitrary: b' got' dead' rule: rtranclp_induct)
  case base
  then show ?case by simp
next
  case (step y)
  obtain b1 got1 dead1 where y: "y = (b1, got1, dead1)" by (cases y)
  from step(2) obtain h c ms k where "h \<in> T" "touch h c ms k (b1, got1, dead1) = (b', got', dead')"
    unfolding y by (auto elim: rx_step.cases)
  with touch_keeps [OF this(2)] step(3) [OF y] show ?case by metis
qed

text \<open>A change that does not concern the channels in \<open>T\<close> can be made before or after.\<close>

definition apart :: "nat set \<Rightarrow> ('c receiving \<Rightarrow> 'c receiving) \<Rightarrow> bool" where
  "apart T f \<longleftrightarrow> (\<forall>h\<in>T. \<forall>z. (\<forall>c ms k. f (touch h c ms k z) = touch h c ms k (f z)) \<and>
     (open_at h (f z) \<longleftrightarrow> open_at h z) \<and> chan_at h (f z) = chan_at h z)"

lemma rx_apart: "(rx_step rcv_op drx T)\<^sup>*\<^sup>* y z \<Longrightarrow> apart T f \<Longrightarrow> (rx_step rcv_op drx T)\<^sup>*\<^sup>* (f y) (f z)"
proof (induction rule: rtranclp_induct)
  case (step z z')
  from step(2) obtain h c ms k where h: "h \<in> T" "open_at h z" "rx_act rcv_op drx (chan_at h z) c ms k" "z' = touch h c ms k z"
    by (auto elim: rx_step.cases)
  then have "open_at h (f z)" "rx_act rcv_op drx (chan_at h (f z)) c ms k" "f z' = touch h c ms k (f z)"
    using step.prems unfolding apart_def by metis+
  then have "rx_step rcv_op drx T (f z) (f z')" using h(1) rx_step.intros by metis
  with step show ?case by (meson rtranclp.rtrancl_into_rtrancl)
qed simp

lemma apart_touch: "h \<notin> T \<Longrightarrow> apart T (touch h c ms k)"
proof -
  assume "h \<notin> T"
  then have "g \<noteq> h" "h \<noteq> g" if "g \<in> T" for g using that by blast+
  then show ?thesis by (auto simp: apart_def list_update_swap fun_upd_twist insert_commute intro!: bus.equality)
qed

definition set_chan :: "nat \<Rightarrow> 'c \<Rightarrow> u64 \<Rightarrow> 'c receiving \<Rightarrow> 'c receiving" where
  "set_chan h c d = (\<lambda>(b, got, dead). (b\<lparr>chans := (chans b)[h := c], drop_count := d\<rparr>, got, dead))"

lemma apart_set_chan: "h \<notin> T \<Longrightarrow> apart T (set_chan h c d)"
proof -
  assume "h \<notin> T"
  then have "g \<noteq> h" "h \<noteq> g" if "g \<in> T" for g using that by blast+
  then show ?thesis by (auto simp: apart_def set_chan_def list_update_swap intro!: bus.equality)
qed

section \<open>Receivers in a history\<close>

abbreviation receiving_of :: "'c bus_hist \<Rightarrow> 'c receiving" where
  "receiving_of H \<equiv> (the_bus H, out H, gone H)"

abbreviation receiving_in :: "'c bus_sys \<Rightarrow> 'c receiving" where
  "receiving_in s \<equiv> (mem s, received_from s, dropped_rx s)"

lemma history_touch:
  assumes "bus_reach snd_op bounded rcv_op dtx drx cap H" and "open_at h (receiving_of H)"
    and "rx_act rcv_op drx (chan_at h (receiving_of H)) c ms k"
  shows "\<exists>H'. bus_reach snd_op bounded rcv_op dtx drx cap H' \<and> results H' = results H \<and>
    receiving_of H' = touch h c ms k (receiving_of H)"
proof (cases k)
  case True
  have "h < length (chans (the_bus H))" "h \<notin> gone H" using assms(2) by simp_all
  note bus_reach.reach_drop_receiver [OF assms(1) this]
  then show ?thesis
    by (rule exI [where P = "\<lambda>H'. bus_reach _ _ _ _ _ _ H' \<and> results H' = _ \<and> _ H'", OF conjI])
      (use True assms(3) in \<open>auto simp: rx_act_def\<close>)
next
  case False
  obtain res c' where eq: "rcv_op (chans (the_bus H) ! h) = (res, c')" by fastforce
  have "h < length (chans (the_bus H))" "h \<notin> gone H" using assms(2) by simp_all
  note bus_reach.reach_recv [OF assms(1) this eq]
  then show ?thesis
    by (rule exI [where P = "\<lambda>H'. bus_reach _ _ _ _ _ _ H' \<and> results H' = _ \<and> _ H'", OF conjI]) (use False assms(3) eq in \<open>auto simp: rx_act_def\<close>)
qed

lemma history_rx:
  assumes "(rx_step rcv_op drx T)\<^sup>*\<^sup>* (receiving_of H) z" and "bus_reach snd_op bounded rcv_op dtx drx cap H"
  shows "\<exists>H'. bus_reach snd_op bounded rcv_op dtx drx cap H' \<and> results H' = results H \<and> receiving_of H' = z"
  using assms(1)
proof (induction rule: rtranclp_induct)
  case base
  then show ?case using assms(2) by blast
next
  case (step z z')
  then obtain H' where H': "bus_reach snd_op bounded rcv_op dtx drx cap H'" "results H' = results H" "receiving_of H' = z"
    by blast
  from step(2) obtain h c ms k where "open_at h z" "rx_act rcv_op drx (chan_at h z) c ms k" "z' = touch h c ms k z"
    by (auto elim: rx_step.cases)
  with history_touch [OF H'(1), unfolded H'(3)] H'(2) show ?case by metis
qed

section \<open>An offer in progress\<close>

lemma offer_loop_append:
  "offer_loop snd_op tp m (ds @ ss) rb = offer_loop snd_op tp m ss (offer_loop snd_op tp m ds rb)"
  by (induction ds arbitrary: rb) (auto split: sum.splits try_send_error.splits prod.splits simp: Let_def)

lemma bus_update_order: "b\<lparr>drop_count := d, chans := cs\<rparr> = b\<lparr>chans := cs, drop_count := d\<rparr>"
  by simp

lemma offer_loop_apart:
  "h \<notin> tx ` set (matching tp ds) \<Longrightarrow> offer_loop snd_op tp m ds (r, b) = (r1, b1) \<Longrightarrow>
   offer_loop snd_op tp m ds (r, b\<lparr>chans := (chans b)[h := c]\<rparr>) = (r1, b1\<lparr>chans := (chans b1)[h := c]\<rparr>) \<and>
   chans b1 ! h = chans b ! h"
proof (induction ds arbitrary: r b)
  case (Cons x ds)
  show ?case
  proof (cases "filter_matches (sub_filter x) tp")
    case False
    with Cons show ?thesis by simp
  next
    case True
    then have ne: "tx x \<noteq> h" "h \<noteq> tx x" and rest: "h \<notin> tx ` set (matching tp ds)" using Cons.prems(1) by auto
    obtain res c' where res: "snd_op m (chans b ! tx x) = (res, c')" by fastforce
    obtain r2 d where next_step: "offer_loop snd_op tp m (x # ds) (r, b) =
        offer_loop snd_op tp m ds (r2, b\<lparr>chans := (chans b)[tx x := c'], drop_count := d\<rparr>)"
      "offer_loop snd_op tp m (x # ds) (r, b\<lparr>chans := (chans b)[h := c]\<rparr>) =
        offer_loop snd_op tp m ds (r2, (b\<lparr>chans := (chans b)[tx x := c'], drop_count := d\<rparr>)
          \<lparr>chans := (chans (b\<lparr>chans := (chans b)[tx x := c'], drop_count := d\<rparr>))[h := c]\<rparr>)"
    proof (cases "\<exists>y. res = Inl (Full y)")
      case full: True
      show ?thesis
        by (rule that [of "r\<lparr>dropped := dropped r + 1\<rparr>" "drop_count b + 1"])
          (use True res ne full in \<open>auto simp: list_update_swap bus_update_order\<close>)
    next
      case other: False
      show ?thesis
        by (rule that [of "case res of Inr u \<Rightarrow> r\<lparr>sent := sent r + 1\<rparr> | Inl e \<Rightarrow> r" "drop_count b"])
          (use True res ne other in \<open>(cases res; cases "projl res"; auto simp: list_update_swap)+\<close>)
    qed
    from Cons.IH [OF rest Cons.prems(2) [unfolded next_step(1)]] next_step(2) ne show ?thesis by simp
  qed
qed simp

fun counted :: "u64 \<Rightarrow> 'c receiving \<Rightarrow> 'c receiving" where
  "counted d (b, got, dead) = (b\<lparr>drop_count := drop_count b + d\<rparr>, got, dead)"

fun offering :: "'c bus_pc \<Rightarrow> (message \<times> str \<times> sub list \<times> offer_result) option" where
  "offering (Sending m tp ss r) = Some (m, tp, ss, r)"
| "offering (Counting m tp ss r) = Some (m, tp, ss, r)"
| "offering p = None"

definition in_offer ::
    "(message \<Rightarrow> 'c \<Rightarrow> (message try_send_error + unit) \<times> 'c) \<Rightarrow> ('c \<Rightarrow> (try_recv_error + message) \<times> 'c) \<Rightarrow> ('c \<Rightarrow> 'c)
      \<Rightarrow> 'c bus_sys \<Rightarrow> 'c bus_hist \<Rightarrow> message \<times> str \<times> sub list \<times> offer_result \<Rightarrow> bool" where
  "in_offer snd_op rcv_op drx s H = (\<lambda>(m, tp, ss, r). \<exists>order ds b1.
     iterates order (the_bus H) \<and> map (\<lambda>sid. the (subs (the_bus H) sid)) order = ds @ ss \<and>
     offer_loop snd_op tp m ds (\<lparr>sent = 0, dropped = 0\<rparr>, the_bus H) = (r, b1) \<and>
     (rx_step rcv_op drx (tx ` set (matching tp ds)))\<^sup>*\<^sup>* (b1, out H, gone H)
       (counted (at_section pc_uncounted 0 s) (receiving_in s)))"

lemma in_offerI:
  assumes "iterates order (the_bus H)" and "map (\<lambda>sid. the (subs (the_bus H) sid)) order = ds @ ss"
    and "offer_loop snd_op tp m ds (\<lparr>sent = 0, dropped = 0\<rparr>, the_bus H) = (r, b1)"
    and "(rx_step rcv_op drx (tx ` set (matching tp ds)))\<^sup>*\<^sup>* (b1, out H, gone H)
      (counted (at_section pc_uncounted 0 s) (receiving_in s))"
  shows "in_offer snd_op rcv_op drx s H (m, tp, ss, r)"
  using assms unfolding in_offer_def by blast

definition serial ::
    "(message \<Rightarrow> 'c \<Rightarrow> (message try_send_error + unit) \<times> 'c) \<Rightarrow> ('c \<Rightarrow> (try_recv_error + message) \<times> 'c) \<Rightarrow> ('c \<Rightarrow> 'c)
      \<Rightarrow> 'c bus_sys \<Rightarrow> 'c bus_hist \<Rightarrow> bool" where
  "serial snd_op rcv_op drx s H \<longleftrightarrow> results H = returned s \<and>
     (case at_section offering None s of None \<Rightarrow> receiving_of H = receiving_in s
      | Some q \<Rightarrow> in_offer snd_op rcv_op drx s H q)"

text \<open>Steps that the history does not see.\<close>

lemma serial_same:
  assumes "serial snd_op rcv_op drx s H" and "receiving_in s' = receiving_in s" "returned s' = returned s"
    and "at_section offering None s' = at_section offering None s"
    and "at_section pc_uncounted 0 s' = at_section pc_uncounted 0 s"
  shows "serial snd_op rcv_op drx s' H"
  using assms by (simp add: serial_def in_offer_def split: option.splits prod.splits)

lemma serial_subs:
  assumes "in_offer snd_op rcv_op drx s H (m, tp, ss, r)"
  shows "subs (mem s) = subs (the_bus H)" "length (chans (mem s)) = length (chans (the_bus H))"
proof -
  from assms obtain ds b1 where
    l: "offer_loop snd_op tp m ds (\<lparr>sent = 0, dropped = 0\<rparr>, the_bus H) = (r, b1)" and
    rx: "(rx_step rcv_op drx (tx ` set (matching tp ds)))\<^sup>*\<^sup>* (b1, out H, gone H)
      (counted (at_section pc_uncounted 0 s) (receiving_in s))"
    unfolding in_offer_def by blast
  from offer_loop_subs [of snd_op tp m ds "(\<lparr>sent = 0, dropped = 0\<rparr>, the_bus H)"]
    offer_loop_length [of snd_op tp m ds "(\<lparr>sent = 0, dropped = 0\<rparr>, the_bus H)"]
  have "subs b1 = subs (the_bus H)" "length (chans b1) = length (chans (the_bus H))" by (simp_all add: l)
  with rx_keeps [OF rx [simplified]]
  show "subs (mem s) = subs (the_bus H)" "length (chans (mem s)) = length (chans (the_bus H))" by simp_all
qed

text \<open>Receivers act.\<close>

lemma serial_rx:
  assumes reach: "bus_reach snd_op bounded rcv_op dtx drx cap H" and serial: "serial snd_op rcv_op drx s H"
    and act: "open_at h (receiving_in s)" "rx_act rcv_op drx (chan_at h (receiving_in s)) c ms k"
    and s': "receiving_in s' = touch h c ms k (receiving_in s)" "returned s' = returned s"
      "at_section offering None s' = at_section offering None s"
      "at_section pc_uncounted 0 s' = at_section pc_uncounted 0 s"
  shows "\<exists>H'. bus_reach snd_op bounded rcv_op dtx drx cap H' \<and> serial snd_op rcv_op drx s' H'"
proof (cases "at_section offering None s")
  case None
  then have "receiving_of H = receiving_in s" "results H = returned s" using serial by (simp_all add: serial_def)
  with history_touch [OF reach] act obtain H' where
    "bus_reach snd_op bounded rcv_op dtx drx cap H'" "results H' = returned s" "receiving_of H' = receiving_in s'"
    unfolding s' by metis
  then show ?thesis using None s' by (auto simp: serial_def)
next
  case (Some q)
  obtain m tp ss r where q: "q = (m, tp, ss, r)" by (cases q)
  have res: "results H = returned s" and "in_offer snd_op rcv_op drx s H (m, tp, ss, r)"
    using serial Some q by (simp_all add: serial_def)
  then obtain order ds b1 where it: "iterates order (the_bus H)" "map (\<lambda>sid. the (subs (the_bus H) sid)) order = ds @ ss"
      and loop: "offer_loop snd_op tp m ds (\<lparr>sent = 0, dropped = 0\<rparr>, the_bus H) = (r, b1)"
      and rx: "(rx_step rcv_op drx (tx ` set (matching tp ds)))\<^sup>*\<^sup>* (b1, out H, gone H)
        (counted (at_section pc_uncounted 0 s) (receiving_in s))"
    unfolding in_offer_def by blast
  let ?T = "tx ` set (matching tp ds)" and ?d = "at_section pc_uncounted 0 s"
  have counted: "counted ?d (receiving_in s') = touch h c ms k (counted ?d (receiving_in s))"
    "open_at h (counted ?d (receiving_in s))" "chan_at h (counted ?d (receiving_in s)) = chan_at h (receiving_in s)"
    using act unfolding s' by (simp_all add: bus_update_order)
  show ?thesis
  proof (cases "h \<in> ?T")
    case True
    with counted act have "rx_step rcv_op drx ?T (counted ?d (receiving_in s)) (counted ?d (receiving_in s'))"
      using rx_step.intros by metis
    with rx have "(rx_step rcv_op drx ?T)\<^sup>*\<^sup>* (b1, out H, gone H) (counted ?d (receiving_in s'))"
      by (rule rtranclp.rtrancl_into_rtrancl)
    with it loop have "in_offer snd_op rcv_op drx s' H (m, tp, ss, r)" unfolding in_offer_def s'(4) by blast
    then show ?thesis using reach res Some q s'(2,3) by (auto simp: serial_def)
  next
    case False
    note away = offer_loop_apart [OF False loop]
    have len: "length (chans b1) = length (chans (the_bus H))"
      using offer_loop_length [of snd_op tp m ds "(\<lparr>sent = 0, dropped = 0\<rparr>, the_bus H)"] loop by simp
    have "open_at h (receiving_of H)" "chan_at h (receiving_of H) = chan_at h (receiving_in s)"
      using rx_keeps [OF rx [simplified]] False act(1) away len by simp_all
    with act(2) obtain H' where H': "bus_reach snd_op bounded rcv_op dtx drx cap H'" "results H' = returned s"
        "receiving_of H' = touch h c ms k (receiving_of H)"
      using history_touch [OF reach, of h c ms k] res by metis
    then have bus: "the_bus H' = (the_bus H)\<lparr>chans := (chans (the_bus H))[h := c]\<rparr>" by simp
    have "(rx_step rcv_op drx ?T)\<^sup>*\<^sup>* (touch h c ms k (b1, out H, gone H)) (counted ?d (receiving_in s'))"
      unfolding counted(1) by (rule rx_apart [OF rx apart_touch [OF False]])
    moreover have "touch h c ms k (b1, out H, gone H) = (b1\<lparr>chans := (chans b1)[h := c]\<rparr>, out H', gone H')"
      using H'(3) by simp
    ultimately have "(rx_step rcv_op drx ?T)\<^sup>*\<^sup>* (b1\<lparr>chans := (chans b1)[h := c]\<rparr>, out H', gone H') (counted ?d (receiving_in s'))"
      by simp
    moreover have "iterates order (the_bus H')" "map (\<lambda>sid. the (subs (the_bus H') sid)) order = ds @ ss"
      using it by (simp_all add: bus iterates_def)
    moreover have "offer_loop snd_op tp m ds (\<lparr>sent = 0, dropped = 0\<rparr>, the_bus H') = (r, b1\<lparr>chans := (chans b1)[h := c]\<rparr>)"
      using away by (simp add: bus)
    ultimately have "in_offer snd_op rcv_op drx s' H' (m, tp, ss, r)"
      unfolding in_offer_def s'(4) by blast
    then show ?thesis using H'(1,2) Some q s'(2,3) by (auto simp: serial_def)
  qed
qed

text \<open>The offer goes on, subscription by subscription.\<close>

lemma serial_skip:
  assumes "in_offer snd_op rcv_op drx s H (m, tp, x # ss, r)" and "\<not> filter_matches (sub_filter x) tp"
    and "receiving_in s' = receiving_in s" "at_section pc_uncounted 0 s' = at_section pc_uncounted 0 s"
  shows "in_offer snd_op rcv_op drx s' H (m, tp, ss, r)"
proof -
  from assms(1) obtain order ds b1 where *: "iterates order (the_bus H)"
      "map (\<lambda>sid. the (subs (the_bus H) sid)) order = ds @ x # ss"
      "offer_loop snd_op tp m ds (\<lparr>sent = 0, dropped = 0\<rparr>, the_bus H) = (r, b1)"
      "(rx_step rcv_op drx (tx ` set (matching tp ds)))\<^sup>*\<^sup>* (b1, out H, gone H)
        (counted (at_section pc_uncounted 0 s) (receiving_in s))"
    unfolding in_offer_def by blast
  show ?thesis
    by (rule in_offerI [of order _ "ds @ [x]"]) (use * assms(2-4) in \<open>simp_all add: offer_loop_append\<close>)
qed

lemma serial_try:
  fixes s s' :: "'c bus_sys"
  assumes offer: "in_offer snd_op rcv_op drx s H (m, tp, x # ss, r)" and match: "filter_matches (sub_filter x) tp"
    and table: "table_inv s" and send: "snd_op m (chans (mem s) ! tx x) = (res, c)"
    and s: "at_section pc_uncounted 0 s = 0" "p = (after_try res m tp ss r :: 'c bus_pc)"
    and s': "at_section pc_uncounted 0 s' = pc_uncounted p"
      "receiving_in s' = set_chan (tx x) c (drop_count (mem s)) (receiving_in s)"
  shows "in_offer snd_op rcv_op drx s' H (m, tp, ss, pc_result p)"
proof -
  let ?zero = "\<lparr>sent = 0, dropped = 0\<rparr>"
  from offer obtain order ds b1 where it: "iterates order (the_bus H)"
      and order: "map (\<lambda>sid. the (subs (the_bus H) sid)) order = ds @ x # ss"
      and loop: "offer_loop snd_op tp m ds (?zero, the_bus H) = (r, b1)"
      and rx: "(rx_step rcv_op drx (tx ` set (matching tp ds)))\<^sup>*\<^sup>* (b1, out H, gone H) (receiving_in s)"
    unfolding in_offer_def s(1) by auto
  let ?T = "tx ` set (matching tp ds)"
  have subs: "subs (mem s) = subs (the_bus H)" using serial_subs(1) [OF offer] .
  have "inj_on (\<lambda>sid. tx (the (subs (mem s) sid))) (set order)"
    using table it subs by (auto simp: table_inv_def inj_on_def iterates_def dom_def)
  then have "distinct (map tx (ds @ x # ss))"
    using it unfolding order [symmetric] subs by (simp add: distinct_map iterates_def comp_def)
  then have new: "tx x \<notin> ?T" by auto
  have same: "chans b1 ! tx x = chans (mem s) ! tx x" using rx_keeps [OF rx] new by simp
  define d where "d = drop_count (mem s) + pc_uncounted p"
  let ?b = "b1\<lparr>chans := (chans b1)[tx x := c], drop_count := d\<rparr>"
  have "drop_count b1 = drop_count (mem s)" using rx_keeps [OF rx] by simp
  then have loop': "offer_loop snd_op tp m (ds @ [x]) (?zero, the_bus H) = (pc_result p, ?b)"
    unfolding offer_loop_append loop s(2) d_def
    by (cases res; cases "projl res") (auto simp: match send same)
  have "(rx_step rcv_op drx ?T)\<^sup>*\<^sup>* (?b, out H, gone H) (set_chan (tx x) c d (receiving_in s))"
    using rx_apart [OF rx apart_set_chan [OF new, of c d]] by (simp add: set_chan_def)
  also have "set_chan (tx x) c d (receiving_in s) = counted (at_section pc_uncounted 0 s') (receiving_in s')"
    unfolding s' d_def by (simp add: set_chan_def)
  finally have rx': "(rx_step rcv_op drx (tx ` set (matching tp (ds @ [x]))))\<^sup>*\<^sup>* (?b, out H, gone H)
      (counted (at_section pc_uncounted 0 s') (receiving_in s'))"
    by (rule rx_step_subset [rotated]) auto
  show ?thesis by (rule in_offerI [OF it _ loop' rx']) (simp add: order)
qed

section \<open>Every step\<close>

lemma at_own: "owner s = Some t \<Longrightarrow> at_section f z s = f (pcs s t)"
  by (simp add: at_section_def)

lemma at_none: "owner s = None \<Longrightarrow> at_section f z s = z"
  by (simp add: at_section_def)

lemma in_section_offering: "\<not> in_section p \<Longrightarrow> offering p = None \<and> pc_uncounted p = 0"
  by (cases p) simp_all

lemma offering_after [simp]: "offering (after_try res m tp ss r :: 'c bus_pc) =
    Some (m, tp, ss, pc_result (after_try res m tp ss r :: 'c bus_pc))"
  by (cases "(res, m, tp, ss, r)" rule: after_try.cases) simp_all

lemma quiet_history:
  assumes "serial snd_op rcv_op drx s H" and "at_section offering None s = None"
  shows "receiving_of H = receiving_in s" "results H = returned s"
  using assms by (simp_all add: serial_def)

lemma quiet_serial:
  assumes "receiving_of H = receiving_in s" "results H = returned s" "at_section offering None s = None"
  shows "serial snd_op rcv_op drx s H"
  using assms by (simp add: serial_def)

lemma serial_return:
  assumes reach: "bus_reach snd_op bounded rcv_op dtx drx cap H"
    and offer: "in_offer snd_op rcv_op drx s H (m, tp, [], r)" and res: "results H = returned s"
    and zero: "at_section pc_uncounted 0 s = 0" and wf: "wf_message m" "tp = topic_of m"
  shows "\<exists>H'. bus_reach snd_op bounded rcv_op dtx drx cap H' \<and> receiving_of H' = receiving_in s \<and> results H' = returned s @ [r]"
proof -
  let ?zero = "\<lparr>sent = 0, dropped = 0\<rparr>"
  from offer obtain order ds b1 where it: "iterates order (the_bus H)"
      and order: "map (\<lambda>sid. the (subs (the_bus H) sid)) order = ds"
      and loop: "offer_loop snd_op tp m ds (?zero, the_bus H) = (r, b1)"
      and rx: "(rx_step rcv_op drx (tx ` set (matching tp ds)))\<^sup>*\<^sup>* (b1, out H, gone H) (receiving_in s)"
    unfolding in_offer_def zero by auto
  let ?clock = "Some (unat (timestamp_ns m))"
  have m: "stamp ?clock m = m" by (simp add: stamp_def)
  then have "offer snd_op order ?clock m (the_bus H) = Inr (r, b1)"
    using loop order wf by (simp add: offer_def topic_str_eq)
  note bus_reach.reach_offer [OF reach it wf(1) this]
  then obtain H1 where H1: "bus_reach snd_op bounded rcv_op dtx drx cap H1" "results H1 = results H @ [r]"
      "receiving_of H1 = (b1, out H, gone H)"
    by (rule that) simp_all
  from history_rx [of rcv_op drx _ H1, unfolded H1(3), OF rx H1(1)] show ?thesis using H1(2) res by metis
qed

lemma with_history:
  "bus_reach snd_op bounded rcv_op dtx drx cap H \<Longrightarrow> serial snd_op rcv_op drx s H \<Longrightarrow>
   \<exists>H'. bus_reach snd_op bounded rcv_op dtx drx cap H' \<and> serial snd_op rcv_op drx s H'"
  by blast

lemma serial_step:
  "bus_thread_step snd_op bounded rcv_op dtx drx s s' \<Longrightarrow> table_ok bounded cap s \<Longrightarrow>
   bus_reach snd_op bounded rcv_op dtx drx cap H \<Longrightarrow> serial snd_op rcv_op drx s H \<Longrightarrow>
   \<exists>H'. bus_reach snd_op bounded rcv_op dtx drx cap H' \<and> serial snd_op rcv_op drx s' H'"
proof (induction rule: bus_thread_step.induct)
  case (o_lock s t m tp order)
  let ?ss = "map (\<lambda>sid. the (subs (mem s) sid)) order" and ?zero = "\<lparr>sent = 0, dropped = 0\<rparr>"
  let ?s' = "goto t (Sending m tp ?ss ?zero) ((acquire t s)\<lparr>entered := entered s @ [m]\<rparr>)"
  have H: "receiving_of H = receiving_in s" using quiet_history [OF o_lock.prems(3)] o_lock(2) by (simp add: at_none)
  have "counted (at_section pc_uncounted 0 ?s') (receiving_in ?s') = receiving_of H"
    using H by (simp add: action_defs at_section_def)
  then have rx: "(rx_step rcv_op drx (tx ` set (matching tp [])))\<^sup>*\<^sup>* (receiving_of H)
      (counted (at_section pc_uncounted 0 ?s') (receiving_in ?s'))"
    by (simp only: rtranclp.rtrancl_refl)
  have "in_offer snd_op rcv_op drx ?s' H (m, tp, ?ss, ?zero)"
    by (rule in_offerI [OF _ _ _ rx]) (use o_lock(3) H in simp_all)
  with o_lock.prems(2,3) show ?case
    by (intro exI [of _ H]) (auto simp: serial_def at_section_def action_defs)
next
  case (o_skip s t m tp x ss r)
  have own: "owner s = Some t" using o_skip by (auto simp: table_ok_def dest: holds_lock)
  then have "in_offer snd_op rcv_op drx s H (m, tp, x # ss, r)" "results H = returned s"
    using o_skip.prems(3) o_skip(1) by (simp_all add: serial_def at_own)
  from serial_skip [OF this(1) o_skip(2), of "goto t (Sending m tp ss r) s"] this(2) show ?case
    using o_skip.prems(2) o_skip(1) own by (intro exI [of _ H]) (simp add: serial_def at_own)
next
  case (o_try s t m tp x ss r res c)
  have own: "owner s = Some t" using o_try by (auto simp: table_ok_def dest: holds_lock)
  then have offer: "in_offer snd_op rcv_op drx s H (m, tp, x # ss, r)" "results H = returned s"
    using o_try.prems(3) o_try(1) by (simp_all add: serial_def at_own)
  have "table_inv s" using o_try.prems(1) by (simp add: table_ok_def)
  from serial_try [OF offer(1) o_try(2) this o_try(3) _ refl,
      of "goto t (after_try res m tp ss r) (record_try (tx x) m (outcome_of res) (put_chan (tx x) c s))"]
  show ?case using o_try.prems(2) o_try(1) own offer(2)
    by (intro exI [of _ H]) (auto simp: serial_def at_own record_try_def put_chan_def set_chan_def intro!: bus.equality)
next
  case (o_count s t m tp ss r)
  have own: "owner s = Some t" using o_count by (auto simp: table_ok_def dest: holds_lock)
  then show ?case using o_count.prems(2,3) o_count(1)
    by (intro exI [of _ H]) (simp add: serial_def at_own in_offer_def)
next
  case (o_return s t m tp r)
  have own: "owner s = Some t" and wf: "wf_message m" "tp = topic_of m"
    using o_return by (auto simp: table_ok_def dest: holds_lock message_at)
  then have "in_offer snd_op rcv_op drx s H (m, tp, [], r)" "results H = returned s"
    using o_return.prems(3) o_return(1) by (simp_all add: serial_def at_own)
  with serial_return [OF o_return.prems(2) this _ wf] obtain H' where
    "bus_reach snd_op bounded rcv_op dtx drx cap H'" "receiving_of H' = receiving_in s" "results H' = returned s @ [r]"
    using own o_return(1) by (auto simp: at_own)
  then show ?case by (intro exI [of _ H'] conjI quiet_serial) (simp_all add: release_def at_none)
next
  case (s_return s t pattern c)
  have own: "owner s = Some t" using s_return by (auto simp: table_ok_def dest: holds_lock)
  then have H: "receiving_of H = receiving_in s" "results H = returned s"
    using quiet_history [OF s_return.prems(3)] s_return(1) by (simp_all add: at_own)
  have "pc_pends (pcs s t) = Some c" using s_return(1) by simp
  then have "c = bounded (capacity (mem s))" using s_return.prems(1) by (auto simp: table_ok_def made_inv_def)
  then show ?case using H
    by (intro with_history [OF bus_reach.reach_subscribe [OF s_return.prems(2), of pattern]] quiet_serial)
      (simp_all add: subscribe_in_two release_def at_none)
next
  case (u_return s t sid)
  have own: "owner s = Some t" using u_return by (auto simp: table_ok_def dest: holds_lock)
  then have H: "receiving_of H = receiving_in s" "results H = returned s"
    using quiet_history [OF u_return.prems(3)] u_return(1) by (simp_all add: at_own)
  then show ?case
    by (intro with_history [OF bus_reach.reach_unsubscribe [OF u_return.prems(2), of sid]] quiet_serial)
      (simp_all add: release_def at_none)
next
  case (r_recv h s res c)
  show ?case
    by (rule serial_rx [OF r_recv.prems(2,3), where h = h and c = c and k = False and
          ms = "case res of Inr m \<Rightarrow> [m] | Inl _ \<Rightarrow> []"])
      (use r_recv(1-3) in \<open>simp_all add: rx_act_def put_chan_def at_section_def split: option.split\<close>)
next
  case (r_drop h s)
  show ?case
    by (rule serial_rx [OF r_drop.prems(2,3), where h = h and c = "drx (chans (mem s) ! h)" and k = True and ms = "[]"])
      (use r_drop(1,2) in \<open>simp_all add: rx_act_def put_chan_def at_section_def split: option.split\<close>)
qed (rule exI, rule conjI, assumption, erule serial_same;
    force simp: at_section_def action_defs table_ok_def dest: holds_lock no_lock split: option.splits)+

lemma run_is_history:
  "bus_sys_reach snd_op bounded rcv_op dtx drx cap s \<Longrightarrow>
   \<exists>H. bus_reach snd_op bounded rcv_op dtx drx cap H \<and> serial snd_op rcv_op drx s H"
proof (induction rule: bus_sys_reach.induct)
  case sys_start
  show ?case
    by (rule with_history [OF bus_reach.reach_new]) (simp add: quiet_serial bus_sys_init_def at_none)
next
  case (sys_next s s')
  then show ?case using serial_step reach_table_ok by blast
qed

end
