(* ===== verification/Bus_Concurrent.thy ===== *)
theory Bus_Concurrent
  imports Bus_Serial
begin

text \<open>
  What holds of the bus however many threads use it: that nothing goes wrong, what subscribers
  receive, what the drop counter says, that no call is stuck, and that theory \<open>Bus\<close>, where an
  offer is one step, has the same outcomes.
\<close>

section \<open>Consequences of the invariants\<close>

lemma table_wf_bus:
  "table_inv s \<Longrightarrow> chans_inv queued ch_cap rx_alive ok cap s \<Longrightarrow> wf_bus ok (mem s)"
  by (auto simp: table_inv_def chans_inv_def chan_inv_at_def wf_bus_def list_all_length Let_def)

lemma offer_section:
  assumes "lock_inv s" "section_inv s" "message_inv s" and "pcs s t = Sending m tp (x # ss) r"
  shows "x \<in> ran (subs (mem s))" "wf_message m" "tp = topic_of m"
  using assms holds_lock(1) [OF assms(4,1)] by (auto simp: section_inv_def at_section_def dest: message_at)

lemma same_section: "lock_inv s \<Longrightarrow> in_section (pcs s t) \<Longrightarrow> in_section (pcs s t') \<Longrightarrow> t = t'"
  by (simp add: lock_inv_def)

lemma received_in_order:
  assumes "table_inv s" "tried_inv s" "chans_inv queued ch_cap rx_alive ok cap s"
  shows "subseq (received_from s h) (entered s)"
proof (cases "h < length (chans (mem s))")
  case True
  then have "prefix (received_from s h) (taken s h)"
    using assms(3) by (simp add: chans_inv_def chan_inv_at_def Let_def)
  then have "subseq (received_from s h) (taken s h)" by (rule prefix_imp_subseq)
  moreover have "subseq (taken s h) (map fst (tried s h))"
    by (simp add: taken_def subseq_map)
  moreover have "subseq (map fst (tried s h)) (entered s)" using assms(2) by (simp add: tried_inv_def)
  ultimately show ?thesis by (meson subseq_order.trans)
next
  case False
  then show ?thesis using assms(1) by (simp add: table_inv_def)
qed

lemma tried_when_free:
  "tried_inv s \<Longrightarrow> owner s = None \<Longrightarrow> subs (mem s) sid = Some x \<Longrightarrow>
   map fst (tried s (tx x)) = filter (\<lambda>m. filter_matches (sub_filter x) (topic_of m)) (drop (since s (tx x)) (entered s))"
  by (auto dest: tried_at simp: offered_to_def at_section_def)

lemma count_when_free:
  "count_inv s \<Longrightarrow> owner s = None \<Longrightarrow> drop_count (mem s) = sum_list (map dropped (returned s))"
proof -
  assume "count_inv s" "owner s = None"
  then have "drop_count (mem s) + 0 = sum_list (map dropped (returned s)) +
      dropped (at_section pc_result \<lparr>sent = 0, dropped = 0\<rparr> s)"
    by (metis count_inv_def at_none)
  moreover have "dropped (at_section pc_result \<lparr>sent = 0, dropped = 0\<rparr> s) = 0" using \<open>owner s = None\<close> by (simp add: at_none)
  ultimately show ?thesis by simp
qed

section \<open>Reading the drop counter\<close>

text \<open>What a thread has seen of the counter never goes back, and a load appends what it then sees.\<close>

lemma views_grow:
  "bus_thread_step snd_op bounded rcv_op dtx drx s s' \<Longrightarrow> view_inv s \<Longrightarrow> views s t \<le> views s' t"
  by (induction rule: bus_thread_step.induct) (auto simp: view_inv_def action_defs le_SucI)

lemma load_step:
  "bus_thread_step snd_op bounded rcv_op dtx drx s s' \<Longrightarrow> loads s' t \<noteq> loads s t \<Longrightarrow>
   \<exists>k. loads s' t = loads s t @ [of_nat k] \<and> views s t \<le> k \<and> k \<le> adds s \<and> views s' t = k"
  by (induction rule: bus_thread_step.induct) (auto simp: action_defs split: if_splits)

definition loads_inv :: "'c bus_sys \<Rightarrow> bool" where
  "loads_inv s \<longleftrightarrow> (\<forall>t. \<exists>ks. loads s t = map of_nat ks \<and> sorted ks \<and> (\<forall>k\<in>set ks. k \<le> views s t))"

lemma loads_inv_step:
  assumes "bus_thread_step snd_op bounded rcv_op dtx drx s s'" and "view_inv s" and "loads_inv s"
  shows "loads_inv s'"
  unfolding loads_inv_def
proof
  fix t
  obtain ks where ks: "loads s t = map of_nat ks" "sorted ks" "\<forall>k\<in>set ks. k \<le> views s t"
    using assms(3) unfolding loads_inv_def by blast
  have grow: "views s t \<le> views s' t" by (rule views_grow [OF assms(1,2)])
  show "\<exists>ks. loads s' t = map of_nat ks \<and> sorted ks \<and> (\<forall>k\<in>set ks. k \<le> views s' t)"
  proof (cases "loads s' t = loads s t")
    case True
    with ks grow show ?thesis by (intro exI [of _ ks]) auto
  next
    case False
    from load_step [OF assms(1) this] obtain k where
      "loads s' t = loads s t @ [of_nat k]" "views s t \<le> k" "views s' t = k" by blast
    with ks show ?thesis by (intro exI [of _ "ks @ [k]"]) (auto simp: sorted_append)
  qed
qed

lemma reach_loads: "bus_sys_reach snd_op bounded rcv_op dtx drx cap s \<Longrightarrow> loads_inv s"
proof (induction rule: bus_sys_reach.induct)
  case (sys_next s s')
  then show ?case using loads_inv_step table_ok_parts(7) [OF reach_table_ok] by blast
qed (simp add: loads_inv_def bus_sys_init_def)

section \<open>An example\<close>

lemma ex_in_section:
  obtains s x where "ex_sys_reach s" "pcs s 2 = Sending (ex_stamped 6) (topic_of ex_msg) [x] \<lparr>sent = 0, dropped = 0\<rparr>"
    "pcs s 1 = Waiting (ex_stamped 5) (topic_of ex_msg)"
proof (rule ex_both_stamped)
  fix s
  assume s: "ex_sys_reach s" "mem s = ex_shared 0" "owner s = None"
    "pcs s = (\<lambda>_. Idle)(1 := Waiting (ex_stamped 5) (topic_of ex_msg), 2 := Waiting (ex_stamped 6) (topic_of ex_msg))"
  have "iterates [0] (mem s)" using ex_shared_subs(1) s(2) by (simp add: iterates_def)
  moreover have "pcs s 2 = Waiting (ex_stamped 6) (topic_of ex_msg)" by (simp add: s(4))
  ultimately have "bus_thread_step rc_send rc_bounded rc_recv rc_drop_tx rc_drop_rx s
      (goto 2 (Sending (ex_stamped 6) (topic_of ex_msg) (map (\<lambda>sid. the (subs (mem s) sid)) [0]) \<lparr>sent = 0, dropped = 0\<rparr>)
        ((acquire 2 s)\<lparr>entered := entered s @ [ex_stamped 6]\<rparr>))"
    using s(3) by (intro bus_thread_step.o_lock)
  from bus_sys_reach.sys_next [OF s(1) this] show ?thesis
    by (rule that) (simp_all add: s(4) goto_def acquire_def)
qed

lemma two_ok: "is_power_of_two 2"
  by code_simp

section \<open>Properties\<close>

text \<open>
  C6: However many threads use the bus, at most one of them holds the lock; the subscription an
  offer is about to send to is in the table and its channel exists and is in order, even though
  other threads subscribe, unsubscribe and receive meanwhile; and the topic of the message can
  be read, as the offer's own check has found.
\<close>

theorem bus_threads_safe:
  assumes "bus_over_channel ch_send queued ch_cap rx_alive ch_ok ch_bounded ch_recv tx_alive drop_tx drop_rx cap_ok"
    and "cap_ok cap" and "bus_sys_reach ch_send ch_bounded ch_recv drop_tx drop_rx cap s"
  shows "(\<forall>t t'. in_section (pcs s t) \<and> in_section (pcs s t') \<longrightarrow> t = t') \<and>
    (\<forall>t m tp x ss r. pcs s t = Sending m tp (x # ss) r \<longrightarrow>
       x \<in> ran (subs (mem s)) \<and> tx x < length (chans (mem s)) \<and> ch_ok (chans (mem s) ! tx x) \<and>
       wf_message m \<and> topic_str m = Inr tp) \<and>
    wf_bus ch_ok (mem s)"
proof -
  from bus_over_channel.sys_reach_inv [OF assms] have ok: "table_ok ch_bounded cap s"
    and chans: "chans_inv queued ch_cap rx_alive ch_ok cap s" by (simp_all add: sys_inv_def)
  note inv = table_ok_parts [OF ok]
  have wf: "wf_bus ch_ok (mem s)" by (rule table_wf_bus [OF inv(3) chans])
  then have live: "tx x < length (chans (mem s)) \<and> ch_ok (chans (mem s) ! tx x)" if "x \<in> ran (subs (mem s))" for x
    using that by (auto simp: ran_def dest: wf_bus_tx wf_bus_chan)
  show ?thesis
    using wf live offer_section [OF inv(1,4,2)] same_section [OF inv(1)] by (auto simp: topic_str_eq)
qed

theorem bus_threads_safe_witness:
  "\<exists>s x. ex_sys_reach s \<and> pcs s 2 = Sending (ex_stamped 6) (topic_of ex_msg) [x] \<lparr>sent = 0, dropped = 0\<rparr> \<and>
     rc_ok (chans (mem s) ! tx x) \<and> \<not> in_section (pcs s 1)"
proof (rule ex_in_section)
  fix s x
  assume s: "ex_sys_reach s" "pcs s 2 = Sending (ex_stamped 6) (topic_of ex_msg) [x] \<lparr>sent = 0, dropped = 0\<rparr>"
    "pcs s 1 = Waiting (ex_stamped 5) (topic_of ex_msg)"
  from bus_threads_safe [OF ring_axioms two_ok s(1)] s(2)
  have "rc_ok (chans (mem s) ! tx x)" by blast
  with s show ?thesis by (intro exI [of _ s] exI [of _ x]) (simp del: One_nat_def)
qed

text \<open>
  C7: All subscribers see messages in one order, the order in which their offers took the lock:
  what a receiver has returned is a subsequence of it.  Between calls that hold the lock, each
  live subscription has been tried with exactly the messages that match its filter among those
  since it was made, and what its channel has taken is what the receiver has returned followed
  by what is queued, until the receiver is dropped.
\<close>

theorem bus_threads_delivery:
  assumes "bus_over_channel ch_send queued ch_cap rx_alive ch_ok ch_bounded ch_recv tx_alive drop_tx drop_rx cap_ok"
    and "cap_ok cap" and "bus_sys_reach ch_send ch_bounded ch_recv drop_tx drop_rx cap s"
  shows "subseq (received_from s h) (entered s) \<and>
    (\<forall>sid x. owner s = None \<and> subs (mem s) sid = Some x \<longrightarrow>
       map fst (tried s (tx x)) =
         filter (\<lambda>m. filter_matches (sub_filter x) (topic_of m)) (drop (since s (tx x)) (entered s))) \<and>
    (h < length (chans (mem s)) \<and> h \<notin> dropped_rx s \<longrightarrow>
       map fst (filter (\<lambda>e. snd e = Taken) (tried s h)) = received_from s h @ queued (chans (mem s) ! h))"
proof -
  from bus_over_channel.sys_reach_inv [OF assms] have ok: "table_ok ch_bounded cap s"
    and chans: "chans_inv queued ch_cap rx_alive ch_ok cap s" by (simp_all add: sys_inv_def)
  note inv = table_ok_parts [OF ok]
  from chans have "h < length (chans (mem s)) \<and> h \<notin> dropped_rx s \<longrightarrow>
      taken s h = received_from s h @ queued (chans (mem s) ! h)"
    by (simp add: chans_inv_def chan_inv_at_def Let_def)
  then show ?thesis
    unfolding taken_def using received_in_order [OF inv(3,5) chans] tried_when_free [OF inv(5)] by blast
qed

theorem bus_threads_delivery_witness:
  "\<exists>s. ex_sys_reach s \<and> map timestamp_ns (received_from s 0) = [6, 5] \<and> stamps s = [5, 6] \<and>
     subseq (received_from s 0) (entered s)"
proof (rule stamps_out_of_order)
  fix s
  assume s: "ex_sys_reach s" "stamps s = [5, 6]" "map timestamp_ns (received_from s 0) = [6, 5]"
  from bus_threads_delivery [OF ring_axioms two_ok s(1), of 0]
  have "subseq (received_from s 0) (entered s)" by (rule conjunct1)
  with s show ?thesis by (intro exI [of _ s]) simp
qed

text \<open>
  C15: The drop counter has counted, modulo \<open>2 ^ 64\<close>, every increment of every thread; whenever no
  call holds the lock it is the sum of the \<open>dropped\<close> counts that all offers have returned.  A
  thread inside a critical section has seen every increment.  A thread that reads the counter
  without the lock gets a value it once had, after some number of increments that is neither more
  than have happened nor less than the thread has seen; what a thread has seen never goes back, so
  the values it reads one after another belong to numbers of increments in ascending order.
\<close>

theorem bus_threads_drop_count:
  assumes "bus_sys_reach snd_op bounded rcv_op dtx drx cap s"
  shows "drop_count (mem s) = of_nat (adds s) \<and>
    (owner s = None \<longrightarrow> drop_count (mem s) = sum_list (map dropped (returned s))) \<and>
    (\<forall>t. views s t \<le> adds s) \<and> (\<forall>t. in_section (pcs s t) \<longrightarrow> views s t = adds s) \<and>
    (\<forall>t. \<exists>ks. loads s t = map of_nat ks \<and> sorted ks \<and> (\<forall>k\<in>set ks. k \<le> views s t)) \<and>
    (\<forall>t s'. bus_thread_step snd_op bounded rcv_op dtx drx s s' \<longrightarrow> views s t \<le> views s' t \<and>
       (loads s' t \<noteq> loads s t \<longrightarrow>
         (\<exists>k. loads s' t = loads s t @ [of_nat k] \<and> views s t \<le> k \<and> k \<le> adds s \<and> views s' t = k)))"
proof -
  note inv = table_ok_parts [OF reach_table_ok [OF assms]]
  have seen: "views s t = adds s" if "in_section (pcs s t)" for t
    using inv(7) owner_iff [OF inv(1) that] by (simp add: view_inv_def)
  show ?thesis
  proof (intro conjI)
    show "drop_count (mem s) = of_nat (adds s)" using inv(6) by (simp add: count_inv_def)
    show "owner s = None \<longrightarrow> drop_count (mem s) = sum_list (map dropped (returned s))"
      using count_when_free [OF inv(6)] by blast
    show "\<forall>t. views s t \<le> adds s" using inv(7) by (simp add: view_inv_def)
    show "\<forall>t. in_section (pcs s t) \<longrightarrow> views s t = adds s" using seen by blast
    show "\<forall>t. \<exists>ks. loads s t = map of_nat ks \<and> sorted ks \<and> (\<forall>k\<in>set ks. k \<le> views s t)"
      using reach_loads [OF assms] by (simp add: loads_inv_def)
    show "\<forall>t s'. bus_thread_step snd_op bounded rcv_op dtx drx s s' \<longrightarrow> views s t \<le> views s' t \<and>
       (loads s' t \<noteq> loads s t \<longrightarrow>
         (\<exists>k. loads s' t = loads s t @ [of_nat k] \<and> views s t \<le> k \<and> k \<le> adds s \<and> views s' t = k))"
      using views_grow [OF _ inv(7)] load_step by blast
  qed
qed

text \<open>After two offers a third thread reads the counter.\<close>

theorem bus_threads_drop_count_witness:
  "\<exists>s k. ex_sys_reach s \<and> length (returned s) = 2 \<and> read_drop_count (mem s) = sum_list (map dropped (returned s)) \<and>
     loads s 3 \<noteq> [] \<and> last (loads s 3) = of_nat k \<and> k \<le> adds s"
proof (rule stamps_out_of_order)
  fix s
  assume s: "ex_sys_reach s" "owner s = None" "pcs s = (\<lambda>_. Idle)" "length (returned s) = 2"
  let ?s' = "s\<lparr>views := (views s)(3 := adds s), loads := (loads s)(3 := loads s 3 @ [of_nat (adds s)])\<rparr>"
  note here = bus_threads_drop_count [OF s(1)]
  have "views s 3 \<le> adds s" using here by blast
  then have step: "bus_thread_step rc_send rc_bounded rc_recv rc_drop_tx rc_drop_rx s ?s'"
    using s(3) by (intro bus_thread_step.d_load) simp_all
  have "loads ?s' 3 \<noteq> loads s 3" by simp
  with here step obtain k where k: "loads ?s' 3 = loads s 3 @ [of_nat k]" "k \<le> adds s" by blast
  have "ex_sys_reach ?s'" by (rule bus_sys_reach.sys_next [OF s(1) step])
  moreover have "drop_count (mem s) = sum_list (map dropped (returned s))" using here s(2) by blast
  then have "read_drop_count (mem ?s') = sum_list (map dropped (returned ?s'))" by (simp add: read_drop_count_def)
  ultimately show ?thesis using s(4) k by (intro exI [of _ ?s'] exI [of _ k]) simp
qed

text \<open>
  C16: No call is ever stuck: from every state that the threads can reach, whichever of them holds
  the lock, any thread's call can be brought to its end by steps of that thread and of the one
  that holds the lock alone, with the lock free afterwards; no other thread takes a step, and no
  receiver has to receive anything.
\<close>

theorem bus_calls_can_finish:
  assumes "bus_over_channel ch_send queued ch_cap rx_alive ch_ok ch_bounded ch_recv tx_alive drop_tx drop_rx cap_ok"
    and "cap_ok cap" and "bus_sys_reach ch_send ch_bounded ch_recv drop_tx drop_rx cap s"
  shows "\<exists>s'. (\<lambda>a b. bus_thread_step ch_send ch_bounded ch_recv drop_tx drop_rx a b \<and>
        (\<exists>u. (u = t \<or> owner s = Some u) \<and> pcs b u \<noteq> pcs a u \<and> (\<forall>v. v \<noteq> u \<longrightarrow> pcs b v = pcs a v)))\<^sup>*\<^sup>* s s' \<and>
    owner s' = None \<and> pcs s' = (\<lambda>u. if u = t \<or> owner s = Some u then Idle else pcs s u) \<and>
    received_from s' = received_from s \<and> dropped_rx s' = dropped_rx s"
proof -
  let ?T = "{u. u = t \<or> owner s = Some u}"
  have steps: "step_by ?T ch_send ch_bounded ch_recv drop_tx drop_rx =
      (\<lambda>a b. bus_thread_step ch_send ch_bounded ch_recv drop_tx drop_rx a b \<and>
        (\<exists>u. (u = t \<or> owner s = Some u) \<and> pcs b u \<noteq> pcs a u \<and> (\<forall>v. v \<noteq> u \<longrightarrow> pcs b v = pcs a v)))"
    unfolding step_by_def Bex_def mem_Collect_eq ..
  obtain s' where s': "(step_by ?T ch_send ch_bounded ch_recv drop_tx drop_rx)\<^sup>*\<^sup>* s s'" "owner s' = None"
      "pcs s' = (\<lambda>u. if u = t \<or> owner s = Some u then Idle else pcs s u)"
    using bus_over_channel.any_call_can_finish [OF assms(1,2) bus_over_channel.sys_reach_inv [OF assms], of t]
    by (elim exE conjE) (rule that)
  show ?thesis unfolding steps [symmetric]
    using s' steps_by_receivers [OF s'(1)] by (intro exI [of _ s'] conjI) simp_all
qed

theorem bus_calls_can_finish_witness:
  "\<exists>s s'. ex_sys_reach s \<and> in_section (pcs s 2) \<and> pcs s 1 \<noteq> Idle \<and>
     (bus_thread_step rc_send rc_bounded rc_recv rc_drop_tx rc_drop_rx)\<^sup>*\<^sup>* s s' \<and> pcs s' 1 = Idle"
proof (rule ex_in_section)
  fix s x
  assume s: "ex_sys_reach s" "pcs s 2 = Sending (ex_stamped 6) (topic_of ex_msg) [x] \<lparr>sent = 0, dropped = 0\<rparr>"
    "pcs s 1 = Waiting (ex_stamped 5) (topic_of ex_msg)"
  from bus_calls_can_finish [OF ring_axioms two_ok s(1), of 1] obtain s' where
    run: "(\<lambda>a b. bus_thread_step rc_send rc_bounded rc_recv rc_drop_tx rc_drop_rx a b \<and>
        (\<exists>u. (u = 1 \<or> owner s = Some u) \<and> pcs b u \<noteq> pcs a u \<and> (\<forall>v. v \<noteq> u \<longrightarrow> pcs b v = pcs a v)))\<^sup>*\<^sup>* s s'"
    and idle: "pcs s' = (\<lambda>u. if u = 1 \<or> owner s = Some u then Idle else pcs s u)"
    by (elim exE conjE) (rule that)
  from run have "(bus_thread_step rc_send rc_bounded rc_recv rc_drop_tx rc_drop_rx)\<^sup>*\<^sup>* s s'"
    by (rule rtranclp_mono [THEN predicate2D, rotated]) blast
  with s idle show ?thesis by (intro exI [of _ s] exI [of _ s']) (simp del: One_nat_def)
qed

text \<open>
  C5: Taking an offer as one step loses no outcome and adds none: the buses, returned results,
  received messages and dropped receivers that runs of the threads lead to, at moments when no
  call holds the lock, are exactly those of the histories in which calls follow one another.
\<close>

theorem bus_runs_are_histories:
  "{(mem s, returned s, received_from s, dropped_rx s) | s.
      bus_sys_reach snd_op bounded rcv_op dtx drx cap s \<and> owner s = None} =
   {(the_bus H, results H, out H, gone H) | H. bus_reach snd_op bounded rcv_op dtx drx cap H}"
proof (intro equalityI subsetI)
  fix z
  assume "z \<in> {(mem s, returned s, received_from s, dropped_rx s) | s.
      bus_sys_reach snd_op bounded rcv_op dtx drx cap s \<and> owner s = None}"
  then obtain s where s: "z = (mem s, returned s, received_from s, dropped_rx s)"
    "bus_sys_reach snd_op bounded rcv_op dtx drx cap s" "owner s = None" by blast
  from run_is_history [OF s(2)] obtain H where "bus_reach snd_op bounded rcv_op dtx drx cap H"
    "serial snd_op rcv_op drx s H" by blast
  with quiet_history [OF this(2) at_none [OF s(3)]] s(1)
  show "z \<in> {(the_bus H, results H, out H, gone H) | H. bus_reach snd_op bounded rcv_op dtx drx cap H}"
    by (intro CollectI exI [of _ H]) simp
next
  fix z
  assume "z \<in> {(the_bus H, results H, out H, gone H) | H. bus_reach snd_op bounded rcv_op dtx drx cap H}"
  then obtain H where "z = (the_bus H, results H, out H, gone H)" "bus_reach snd_op bounded rcv_op dtx drx cap H" by blast
  moreover from history_is_run [OF this(2)] obtain s where
    "bus_sys_reach snd_op bounded rcv_op dtx drx cap s" "quiet_as H s" by blast
  ultimately show "z \<in> {(mem s, returned s, received_from s, dropped_rx s) | s.
      bus_sys_reach snd_op bounded rcv_op dtx drx cap s \<and> owner s = None}"
    by (intro CollectI exI [of _ s]) (simp add: quiet_as_def)
qed

end
