(* ===== verification/Log_File.thy ===== *)
theory Log_File
  imports Message
begin

text \<open>
  What the writers of \<open>crates/persist\<close> use of the operating system: a log file with its
  contents and the part of them that \<open>sync_data\<close> has made durable, the \<open>write\<close> system call on
  a descriptor opened for appending, and a positioned write.  How each call turns out is a
  parameter of the operations that make it.
\<close>

section \<open>Outcomes\<close>

datatype io_error = Os nat | WriteZero

datatype write_error = Io io_error | Panicked panic

text \<open>The reply of a \<open>write\<close> call: an error number, or the number of bytes accepted.\<close>

datatype wreply = Failed nat | Wrote nat

definition EINTR :: nat where
  "EINTR = 4"

section \<open>Files\<close>

record log_file =
  content :: "u8 list"
  durable :: "u8 list"
  nwrites :: nat

text \<open>An append-mode \<open>write\<close>: the \<open>n\<close>-th one on this file turns out as \<open>os n\<close> says.\<close>

definition append_write :: "(nat \<Rightarrow> wreply) \<Rightarrow> u8 list \<Rightarrow> log_file \<Rightarrow> (nat + nat) \<times> log_file" where
  "append_write os bs f =
     (case os (nwrites f) of
        Failed e \<Rightarrow> (Inl e, f\<lparr>nwrites := nwrites f + 1\<rparr>)
      | Wrote k \<Rightarrow> (Inr (min k (length bs)),
          f\<lparr>content := content f @ take k bs, nwrites := nwrites f + 1\<rparr>))"

text \<open>A positioned write fills a gap with zeros; writing no bytes changes nothing.\<close>

definition pwrite :: "nat \<Rightarrow> u8 list \<Rightarrow> u8 list \<Rightarrow> u8 list" where
  "pwrite off bs file =
     (if bs = [] then file
      else take off file @ replicate (off - length file) 0 @ bs @ drop (off + length bs) file)"

text \<open>\<open>File::sync_data\<close>: on success everything written so far is durable.\<close>

definition sync_data :: "nat option \<Rightarrow> log_file \<Rightarrow> (write_error + unit) \<times> log_file" where
  "sync_data failure f =
     (case failure of
        Some e \<Rightarrow> (Inl (Io (Os e)), f)
      | None \<Rightarrow> (Inr (), f\<lparr>durable := content f\<rparr>))"

lemma length_pwrite: "length (pwrite off bs file) = (if bs = [] then length file else max (length file) (off + length bs))"
  by (auto simp: pwrite_def min_def max_def)

lemma pwrite_Nil [simp]: "pwrite off [] file = file"
  by (simp add: pwrite_def)

lemma pwrite_covers: "off \<le> length f \<Longrightarrow> off + length bs \<le> length (pwrite off bs f)"
  by (simp add: length_pwrite)

lemma pwrite_end: "pwrite (length file) bs file = file @ bs"
  by (simp add: pwrite_def)

lemma pwrite_pwrite:
  "off \<le> length file \<Longrightarrow> pwrite (off + length as) bs (pwrite off as file) = pwrite off (as @ bs) file"
  by (auto simp: pwrite_def min_def add_ac)

lemma pwrite_prefix: "pre = take off file \<Longrightarrow> off \<le> length file \<Longrightarrow>
    pwrite off bs file = pre @ bs @ drop (off + length bs) file"
  by (simp add: pwrite_def)

text \<open>Writes to disjoint ranges inside the file commute.\<close>

lemma nth_pwrite:
  "off \<le> length file \<Longrightarrow> i < max (length file) (off + length bs) \<Longrightarrow>
   pwrite off bs file ! i = (if off \<le> i \<and> i < off + length bs then bs ! (i - off) else file ! i)"
  by (auto simp: pwrite_def nth_append min_def)

section \<open>Records\<close>

definition encode_all :: "message list \<Rightarrow> u8 list" where
  "encode_all ms = concat (map encode ms)"

text \<open>The record with index \<open>i\<close>, at byte offset \<open>64 * i\<close>.\<close>

definition record_at :: "nat \<Rightarrow> u8 list \<Rightarrow> u8 list" where
  "record_at i log = take 64 (drop (64 * i) log)"

lemma encode_all_simps [simp]:
  "encode_all [] = []" "encode_all (m # ms) = encode m @ encode_all ms"
  "encode_all (ms @ ns) = encode_all ms @ encode_all ns"
  by (simp_all add: encode_all_def)

lemma length_encode_all: "list_all wf_message ms \<Longrightarrow> length (encode_all ms) = 64 * length ms"
  by (induction ms) auto

lemma encode_all_concat: "encode_all (concat mss) = concat (map encode_all mss)"
  by (induction mss) auto

lemma record_at_encode_all:
  "list_all wf_message ms \<Longrightarrow> i < length ms \<Longrightarrow> record_at i (encode_all ms) = encode (ms ! i)"
proof (induction ms arbitrary: i)
  case (Cons m ms)
  then show ?case by (cases i) (auto simp: record_at_def)
qed simp

lemma from_bytes_record:
  "list_all wf_message ms \<Longrightarrow> i < length ms \<Longrightarrow>
   from_bytes (record_at i (encode_all ms)) = Inr (ms ! i)"
  by (simp add: record_at_encode_all from_bytes_eq decode_encode list_all_length)

section \<open>An example\<close>

definition ex_message :: message where
  "ex_message = \<lparr>timestamp_ns = 0, topic = pad_to 32 [112], payload = pad_to 24 [1]\<rparr>"

definition ex_file :: log_file where
  "ex_file = \<lparr>content = [], durable = [], nwrites = 0\<rparr>"

lemma ex_message_wf: "wf_message ex_message"
  by (simp add: wf_message_def ex_message_def)

end
