(* ===== verification/Message_Writer.thy ===== *)
theory Message_Writer
  imports Log_File
begin

text \<open>
  The trait \<open>MessageWriter\<close> of \<open>crates/persist/src/lib.rs\<close> as a contract: \<open>write_batch\<close> and
  \<open>sync\<close> are its methods, \<open>written\<close> the bytes the writer has put into its log so far and
  \<open>saved\<close> those of them a crash would leave, and \<open>ok\<close> says that the writer and what it runs
  on work as they should.  A \<open>write_batch\<close> that never returns is \<open>None\<close>.
\<close>

locale message_writer =
  fixes write_batch :: "message list \<Rightarrow> 'w \<Rightarrow> ((write_error + nat) \<times> 'w) option"
    and sync :: "'w \<Rightarrow> (write_error + unit) \<times> 'w"
    and written :: "'w \<Rightarrow> u8 list"
    and saved :: "'w \<Rightarrow> u8 list"
    and ok :: "'w \<Rightarrow> bool"
  assumes write_ok: "ok w \<Longrightarrow> list_all wf_message ms \<Longrightarrow>
      length (written w) + 64 * length ms < 2 ^ 63 \<Longrightarrow>
      \<exists>w'. write_batch ms w = Some (Inr (length ms), w') \<and> ok w' \<and>
        written w' = written w @ encode_all ms"
    and sync_ok: "ok w \<Longrightarrow> \<exists>w'. sync w = (Inr (), w') \<and> ok w' \<and> written w' = written w \<and>
      saved w' = written w"

text \<open>Several batches one after the other, up to the first that fails.\<close>

fun write_batches ::
    "(message list \<Rightarrow> 'w \<Rightarrow> ((write_error + nat) \<times> 'w) option) \<Rightarrow> message list list \<Rightarrow> 'w
      \<Rightarrow> ((write_error + nat) \<times> 'w) option" where
  "write_batches wb [] w = Some (Inr 0, w)"
| "write_batches wb (ms # mss) w =
     (case wb ms w of
        None \<Rightarrow> None
      | Some (Inl e, w') \<Rightarrow> Some (Inl e, w')
      | Some (Inr n, w') \<Rightarrow>
          (case write_batches wb mss w' of
             Some (Inr n', w'') \<Rightarrow> Some (Inr (n + n'), w'')
           | r \<Rightarrow> r))"

context message_writer begin

lemma write_batches_ok:
  "ok w \<Longrightarrow> list_all wf_message (concat mss) \<Longrightarrow>
   length (written w) + 64 * length (concat mss) < 2 ^ 63 \<Longrightarrow>
   \<exists>w'. write_batches write_batch mss w = Some (Inr (length (concat mss)), w') \<and> ok w' \<and>
     written w' = written w @ encode_all (concat mss)"
proof (induction mss arbitrary: w)
  case Nil
  then show ?case by simp
next
  case (Cons ms mss)
  then have len: "length (encode_all ms) = 64 * length ms" by (simp add: length_encode_all)
  obtain w1 where w1: "write_batch ms w = Some (Inr (length ms), w1)" "ok w1"
      "written w1 = written w @ encode_all ms"
    using write_ok [of w ms] Cons.prems by auto
  obtain w' where "write_batches write_batch mss w1 = Some (Inr (length (concat mss)), w')" "ok w'"
      "written w' = written w1 @ encode_all (concat mss)"
    using Cons.IH [of w1] w1 Cons.prems len by auto
  with w1 show ?case by simp
qed

text \<open>After any batches the record with index \<open>i\<close> reads back as the \<open>i\<close>-th message given.\<close>

lemma records_readable:
  assumes "ok w" "written w = []" "list_all wf_message (concat mss)" "64 * length (concat mss) < 2 ^ 63"
  shows "\<exists>w1 w2. write_batches write_batch mss w = Some (Inr (length (concat mss)), w1) \<and>
    sync w1 = (Inr (), w2) \<and> length (saved w2) = 64 * length (concat mss) \<and>
    (\<forall>i<length (concat mss). from_bytes (record_at i (saved w2)) = Inr (concat mss ! i))"
proof -
  obtain w1 where w1: "write_batches write_batch mss w = Some (Inr (length (concat mss)), w1)" "ok w1"
      "written w1 = encode_all (concat mss)"
    using write_batches_ok [of w mss] assms by auto
  obtain w2 where "sync w1 = (Inr (), w2)" "saved w2 = written w1"
    using sync_ok [OF w1(2)] by auto
  then show ?thesis
    using w1 assms(3) from_bytes_record [OF assms(3)] length_encode_all [OF assms(3)] by auto
qed

end

end
