(* ===== verification/Std_Writer.thy ===== *)
theory Std_Writer
  imports Message_Writer
begin

text \<open>
  \<open>StdWriter\<close> of \<open>crates/persist/src/lib.rs\<close>: a \<open>BufWriter\<close> of \<open>STD_BUF_CAP\<close> bytes over a file
  opened for appending.  The buffer is that of the standard library: a record goes into the
  buffer when it fits, else the buffer is written out first; writing out repeats the \<open>write\<close>
  call until the buffer is empty, retries an interrupted call, gives up at any other error or
  at a call that accepts nothing, and keeps what was not written.  A record is far smaller than
  the buffer, so the path around the buffer is never taken.
\<close>

section \<open>State and operations\<close>

definition std_buf_cap :: nat where
  "std_buf_cap = 512 * 1024"

record std_writer =
  wbuf :: "u8 list"
  std_file :: log_file

definition std_create :: "nat option \<Rightarrow> log_file \<Rightarrow> write_error + std_writer" where
  "std_create failure f =
     (case failure of Some e \<Rightarrow> Inl (Io (Os e)) | None \<Rightarrow> Inr \<lparr>wbuf = [], std_file = f\<rparr>)"

text \<open>One \<open>write\<close> call on the buffer, and what comes after it.\<close>

datatype flush_next = Again | Stop io_error

definition flush_step :: "(nat \<Rightarrow> wreply) \<Rightarrow> std_writer \<Rightarrow> flush_next \<times> std_writer" where
  "flush_step os w =
     (case append_write os (wbuf w) (std_file w) of
        (Inl e, f) \<Rightarrow> (if e = EINTR then Again else Stop (Os e), w\<lparr>std_file := f\<rparr>)
      | (Inr n, f) \<Rightarrow>
          (if n = 0 then (Stop WriteZero, w\<lparr>std_file := f\<rparr>)
           else (Again, w\<lparr>wbuf := drop n (wbuf w), std_file := f\<rparr>)))"

partial_function (option) flush_buf ::
    "(nat \<Rightarrow> wreply) \<Rightarrow> std_writer \<Rightarrow> ((write_error + unit) \<times> std_writer) option" where
  "flush_buf os w =
     (if wbuf w = [] then Some (Inr (), w)
      else (case fst (flush_step os w) of
              Stop e \<Rightarrow> Some (Inl (Io e), snd (flush_step os w))
            | Again \<Rightarrow> flush_buf os (snd (flush_step os w))))"

definition write_all :: "(nat \<Rightarrow> wreply) \<Rightarrow> u8 list \<Rightarrow> std_writer
    \<Rightarrow> ((write_error + unit) \<times> std_writer) option" where
  "write_all os bs w =
     (if length bs \<le> std_buf_cap - length (wbuf w) then Some (Inr (), w\<lparr>wbuf := wbuf w @ bs\<rparr>)
      else (case flush_buf os w of
              None \<Rightarrow> None
            | Some (Inl e, w') \<Rightarrow> Some (Inl e, w')
            | Some (Inr _, w') \<Rightarrow> Some (Inr (), w'\<lparr>wbuf := wbuf w' @ bs\<rparr>)))"

fun write_records :: "(nat \<Rightarrow> wreply) \<Rightarrow> message list \<Rightarrow> std_writer
    \<Rightarrow> ((write_error + unit) \<times> std_writer) option" where
  "write_records os [] w = Some (Inr (), w)"
| "write_records os (m # ms) w =
     (case to_bytes m of
        Inl p \<Rightarrow> Some (Inl (Panicked p), w)
      | Inr bs \<Rightarrow>
          (case write_all os bs w of
             None \<Rightarrow> None
           | Some (Inl e, w') \<Rightarrow> Some (Inl e, w')
           | Some (Inr _, w') \<Rightarrow> write_records os ms w'))"

definition std_write_batch :: "(nat \<Rightarrow> wreply) \<Rightarrow> message list \<Rightarrow> std_writer
    \<Rightarrow> ((write_error + nat) \<times> std_writer) option" where
  "std_write_batch os ms w =
     (case write_records os ms w of
        None \<Rightarrow> None
      | Some (Inl e, w') \<Rightarrow> Some (Inl e, w')
      | Some (Inr _, w') \<Rightarrow>
          (case flush_buf os w' of
             None \<Rightarrow> None
           | Some (Inl e, w'') \<Rightarrow> Some (Inl e, w'')
           | Some (Inr _, w'') \<Rightarrow> Some (Inr (length ms), w'')))"

definition std_sync :: "nat option \<Rightarrow> std_writer \<Rightarrow> (write_error + unit) \<times> std_writer" where
  "std_sync failure w =
     (case sync_data failure (std_file w) of (r, f) \<Rightarrow> (r, w\<lparr>std_file := f\<rparr>))"

section \<open>Nothing is lost or reordered, whatever the system calls do\<close>

text \<open>The bytes handed to the writer, in the file or still in the buffer.\<close>

definition std_bytes :: "std_writer \<Rightarrow> u8 list" where
  "std_bytes w = content (std_file w) @ wbuf w"

lemma flush_step_bytes: "std_bytes (snd (flush_step os w)) = std_bytes w"
  by (auto simp: flush_step_def append_write_def std_bytes_def min_def split: wreply.split)

lemma flush_buf_bytes:
  assumes "flush_buf os w = Some (r, w')"
  shows "std_bytes w' = std_bytes w \<and> (r = Inr () \<longrightarrow> wbuf w' = [])"
proof -
  have "\<forall>r w'. y = (r, w') \<longrightarrow> std_bytes w' = std_bytes w \<and> (r = Inr () \<longrightarrow> wbuf w' = [])"
    if "flush_buf os w = Some y" for y
  proof (rule flush_buf.raw_induct [OF _ that, where P = "\<lambda>os w y. \<forall>r w'. y = (r, w') \<longrightarrow>
      std_bytes w' = std_bytes w \<and> (r = Inr () \<longrightarrow> wbuf w' = [])"])
    fix f :: "(nat \<Rightarrow> wreply) \<Rightarrow> std_writer \<Rightarrow> ((write_error + unit) \<times> std_writer) option" and os w y
    assume IH: "\<And>os w y. f os w = Some y \<Longrightarrow>
        \<forall>r w'. y = (r, w') \<longrightarrow> std_bytes w' = std_bytes w \<and> (r = Inr () \<longrightarrow> wbuf w' = [])"
      and eq: "(if wbuf w = [] then Some (Inr (), w)
      else (case fst (flush_step os w) of
              Stop e \<Rightarrow> Some (Inl (Io e), snd (flush_step os w))
            | Again \<Rightarrow> f os (snd (flush_step os w)))) = Some y"
    show "\<forall>r w'. y = (r, w') \<longrightarrow> std_bytes w' = std_bytes w \<and> (r = Inr () \<longrightarrow> wbuf w' = [])"
      using eq IH [of os "snd (flush_step os w)" y] flush_step_bytes [of os w]
      by (auto split: if_splits flush_next.splits)
  qed
  with assms show ?thesis by blast
qed

lemma write_all_bytes:
  "write_all os bs w = Some (r, w') \<Longrightarrow>
   (r = Inr () \<longrightarrow> std_bytes w' = std_bytes w @ bs) \<and> (r \<noteq> Inr () \<longrightarrow> std_bytes w' = std_bytes w)"
  using flush_buf_bytes [of os w]
  by (auto simp: write_all_def std_bytes_def split: if_splits option.splits sum.splits)

lemma write_records_bytes:
  "write_records os ms w = Some (r, w') \<Longrightarrow> list_all wf_message ms \<Longrightarrow>
   (r = Inr () \<longrightarrow> std_bytes w' = std_bytes w @ encode_all ms) \<and>
   (\<exists>k\<le>length ms. std_bytes w' = std_bytes w @ encode_all (take k ms))"
proof (induction os ms w rule: write_records.induct)
  case (1 os w)
  then show ?case by simp
next
  case (2 os m ms w)
  then have bs: "to_bytes m = Inr (encode m)" by (simp add: to_bytes_eq)
  obtain r1 w1 where wa: "write_all os (encode m) w = Some (r1, w1)"
    using 2(2) bs by (auto split: option.splits)
  show ?case
  proof (cases r1)
    case (Inl e)
    then have "std_bytes w' = std_bytes w" "r \<noteq> Inr ()"
      using 2(2) bs wa write_all_bytes [OF wa] by auto
    then show ?thesis by (auto intro: exI [of _ 0])
  next
    case (Inr u)
    then have w1: "std_bytes w1 = std_bytes w @ encode m" and rec: "write_records os ms w1 = Some (r, w')"
      using 2(2) bs wa write_all_bytes [OF wa] by auto
    then have IH: "r = Inr () \<longrightarrow> std_bytes w' = std_bytes w1 @ encode_all ms"
        "\<exists>k\<le>length ms. std_bytes w' = std_bytes w1 @ encode_all (take k ms)"
      using 2(1) [OF bs wa _ _ rec] Inr 2(3) by (cases u; auto)+
    from IH(2) obtain k where "k \<le> length ms" "std_bytes w' = std_bytes w @ encode_all (take (Suc k) (m # ms))"
      using w1 by auto
    then have "\<exists>k\<le>length (m # ms). std_bytes w' = std_bytes w @ encode_all (take k (m # ms))"
      by (intro exI [of _ "Suc k"]) simp
    with IH(1) w1 show ?thesis by simp
  qed
qed

lemma std_write_batch_bytes:
  assumes "std_write_batch os ms w = Some (r, w')" and "list_all wf_message ms"
  shows "\<exists>k\<le>length ms. std_bytes w' = std_bytes w @ encode_all (take k ms) \<and>
    (case r of Inl _ \<Rightarrow> True | Inr n \<Rightarrow> n = length ms \<and> k = length ms \<and> wbuf w' = [])"
proof -
  obtain r1 w1 where wr: "write_records os ms w = Some (r1, w1)"
    using assms(1) by (auto simp: std_write_batch_def split: option.splits)
  note rec = write_records_bytes [OF wr assms(2)]
  show ?thesis
  proof (cases r1)
    case (Inl e)
    then show ?thesis using assms(1) rec wr by (auto simp: std_write_batch_def)
  next
    case (Inr u)
    obtain r2 w2 where fl: "flush_buf os w1 = Some (r2, w2)"
      using assms(1) wr Inr by (auto simp: std_write_batch_def split: option.splits)
    then have "w' = w2" "std_bytes w' = std_bytes w @ encode_all ms"
      using flush_buf_bytes [OF fl] assms(1) rec wr Inr
      by (auto simp: std_write_batch_def split: sum.splits)
    then show ?thesis
      using flush_buf_bytes [OF fl] assms(1) wr Inr fl
      by (intro exI [of _ "length ms"]) (auto simp: std_write_batch_def split: sum.splits)
  qed
qed

section \<open>Flushing ends\<close>

definition not_always_interrupted :: "(nat \<Rightarrow> wreply) \<Rightarrow> bool" where
  "not_always_interrupted os \<longleftrightarrow> (\<forall>n. \<exists>m\<ge>n. os m \<noteq> Failed EINTR)"

lemma flush_step_cases:
  assumes "wbuf w \<noteq> []"
  obtains (interrupted) w1 where "os (nwrites (std_file w)) = Failed EINTR" "flush_step os w = (Again, w1)"
      "wbuf w1 = wbuf w" "nwrites (std_file w1) = Suc (nwrites (std_file w))"
    | (stops) e w1 where "flush_step os w = (Stop e, w1)"
    | (less) w1 where "flush_step os w = (Again, w1)" "length (wbuf w1) < length (wbuf w)"
proof (cases "os (nwrites (std_file w))")
  case (Failed e)
  then show ?thesis
    by (cases "e = EINTR") (auto simp: flush_step_def append_write_def intro: interrupted stops)
next
  case (Wrote k)
  then show ?thesis
    using assms by (cases "k = 0") (auto simp: flush_step_def append_write_def intro: less stops)
qed

lemma flush_buf_returns:
  assumes "not_always_interrupted os"
  shows "\<exists>y. flush_buf os w = Some y"
proof (induction "length (wbuf w)" arbitrary: w rule: less_induct)
  case less
  obtain m where m: "nwrites (std_file w) \<le> m" "os m \<noteq> Failed EINTR"
    using assms unfolding not_always_interrupted_def by blast
  have "\<exists>y. flush_buf os v = Some y"
    if "length (wbuf v) = length (wbuf w)" "nwrites (std_file v) \<le> m" for v
    using that
  proof (induction "m - nwrites (std_file v)" arbitrary: v rule: less_induct)
    case (less v)
    show ?case
    proof (cases "wbuf v = []")
      case True
      then show ?thesis by (simp add: flush_buf.simps)
    next
      case False
      show ?thesis
      proof (cases rule: flush_step_cases [OF False, where os = os])
        case (1 v1)
        then have "nwrites (std_file v) < m" using less.prems(2) m(2) by (metis le_neq_implies_less)
        with 1 less.hyps [of v1] less.prems False show ?thesis
          by (simp add: flush_buf.simps [of os v])
      next
        case (2 e v1)
        with False show ?thesis by (simp add: flush_buf.simps [of os v])
      next
        case (3 v1)
        with \<open>length (wbuf v) = length (wbuf w)\<close> have "\<exists>y. flush_buf os v1 = Some y"
          using \<open>\<And>w'. length (wbuf w') < length (wbuf w) \<Longrightarrow> \<exists>y. flush_buf os w' = Some y\<close> by simp
        with 3 False show ?thesis by (simp add: flush_buf.simps [of os v])
      qed
    qed
  qed
  with m show ?case by blast
qed

lemma write_all_returns: "not_always_interrupted os \<Longrightarrow> \<exists>y. write_all os bs w = Some y"
  using flush_buf_returns [of os w] by (auto simp: write_all_def split: sum.splits)

lemma write_records_returns: "not_always_interrupted os \<Longrightarrow> \<exists>y. write_records os ms w = Some y"
proof (induction os ms w rule: write_records.induct)
  case (2 os m ms w)
  show ?case
  proof (cases "to_bytes m")
    case (Inr bs)
    obtain r w1 where "write_all os bs w = Some (r, w1)"
      using write_all_returns [OF 2(2)] by fastforce
    with 2(1) [OF Inr this] 2(2) Inr show ?thesis by (cases r) auto
  qed simp
qed simp

lemma std_write_batch_returns: "not_always_interrupted os \<Longrightarrow> \<exists>y. std_write_batch os ms w = Some y"
proof -
  assume os: "not_always_interrupted os"
  obtain r w1 where w1: "write_records os ms w = Some (r, w1)"
    using write_records_returns [OF os] by fastforce
  obtain r2 w2 where "flush_buf os w1 = Some (r2, w2)"
    using flush_buf_returns [OF os] by fastforce
  with w1 show ?thesis by (auto simp: std_write_batch_def split: sum.split)
qed

section \<open>When no call fails\<close>

text \<open>Every call accepts something, though perhaps not all.\<close>

definition accepts_some :: "(nat \<Rightarrow> wreply) \<Rightarrow> bool" where
  "accepts_some os \<longleftrightarrow> (\<forall>n. \<exists>k>0. os n = Wrote k)"

lemma flush_step_accepts:
  assumes "accepts_some os" "wbuf w \<noteq> []"
  obtains w1 where "flush_step os w = (Again, w1)" "length (wbuf w1) < length (wbuf w)"
proof -
  obtain k where "k > 0" "os (nwrites (std_file w)) = Wrote k"
    using assms(1) unfolding accepts_some_def by blast
  with assms(2) that show ?thesis by (auto simp: flush_step_def append_write_def)
qed

lemma flush_buf_accepts:
  assumes "accepts_some os"
  shows "\<exists>w'. flush_buf os w = Some (Inr (), w')"
proof (induction "length (wbuf w)" arbitrary: w rule: less_induct)
  case less
  show ?case
  proof (cases "wbuf w = []")
    case False
    then obtain w1 where w1: "flush_step os w = (Again, w1)" "length (wbuf w1) < length (wbuf w)"
      by (rule flush_step_accepts [OF assms])
    with less [of w1] False show ?thesis by (simp add: flush_buf.simps [of os w])
  qed (simp add: flush_buf.simps)
qed

lemma write_all_accepts: "accepts_some os \<Longrightarrow> \<exists>w'. write_all os bs w = Some (Inr (), w')"
  using flush_buf_accepts [of os w] by (auto simp: write_all_def)

lemma write_records_accepts:
  "accepts_some os \<Longrightarrow> list_all wf_message ms \<Longrightarrow> \<exists>w'. write_records os ms w = Some (Inr (), w')"
proof (induction ms arbitrary: w)
  case (Cons m ms)
  obtain w1 where "write_all os (encode m) w = Some (Inr (), w1)"
    using write_all_accepts [OF Cons.prems(1)] by blast
  with Cons show ?case by (simp add: to_bytes_eq)
qed simp

lemma std_write_batch_accepts:
  assumes "accepts_some os" and "list_all wf_message ms"
  shows "\<exists>w'. std_write_batch os ms w = Some (Inr (length ms), w') \<and> wbuf w' = [] \<and>
    content (std_file w') = std_bytes w @ encode_all ms"
proof -
  obtain w1 where "write_records os ms w = Some (Inr (), w1)"
    using write_records_accepts [OF assms] by blast
  moreover obtain w' where "flush_buf os w1 = Some (Inr (), w')"
    using flush_buf_accepts [OF assms(1)] by blast
  ultimately have eq: "std_write_batch os ms w = Some (Inr (length ms), w')"
    by (simp add: std_write_batch_def)
  with std_write_batch_bytes [OF eq assms(2)] show ?thesis by (auto simp: std_bytes_def)
qed

section \<open>System calls\<close>

text \<open>Every call accepts all it is given.\<close>

definition accepts_all :: "(nat \<Rightarrow> wreply) \<Rightarrow> bool" where
  "accepts_all os \<longleftrightarrow> (\<forall>n. \<exists>k\<ge>std_buf_cap. os n = Wrote k)"

lemma flush_buf_all:
  assumes "accepts_all os" and "length (wbuf w) \<le> std_buf_cap"
  shows "\<exists>w'. flush_buf os w = Some (Inr (), w') \<and> wbuf w' = [] \<and>
    nwrites (std_file w') = nwrites (std_file w) + (if wbuf w = [] then 0 else 1)"
proof (cases "wbuf w = []")
  case False
  obtain k where k: "k \<ge> std_buf_cap" "os (nwrites (std_file w)) = Wrote k"
    using assms(1) unfolding accepts_all_def by blast
  let ?w' = "w\<lparr>wbuf := [], std_file := snd (append_write os (wbuf w) (std_file w))\<rparr>"
  have "flush_step os w = (Again, ?w')"
    using k False assms(2) by (auto simp: flush_step_def append_write_def)
  then have "flush_buf os w = Some (Inr (), ?w')"
    using False by (simp add: flush_buf.simps)
  with k False show ?thesis by (simp add: append_write_def)
qed (simp add: flush_buf.simps)

text \<open>A buffer of records: \<open>b\<close> of them, at most 8192; every write call takes 8192 of them away.\<close>

lemma write_records_all:
  "accepts_all os \<Longrightarrow> list_all wf_message ms \<Longrightarrow> length (wbuf w) = 64 * b \<Longrightarrow> b \<le> 8192 \<Longrightarrow>
   \<exists>w' b'. write_records os ms w = Some (Inr (), w') \<and> length (wbuf w') = 64 * b' \<and> b' \<le> 8192 \<and>
     (0 < b + length ms \<longrightarrow> 0 < b') \<and>
     8192 * nwrites (std_file w') + b' = 8192 * nwrites (std_file w) + b + length ms"
proof (induction ms arbitrary: w b)
  case Nil
  then show ?case by auto
next
  case (Cons m ms)
  have "\<exists>w1 b1. write_all os (encode m) w = Some (Inr (), w1) \<and> length (wbuf w1) = 64 * b1 \<and>
      b1 \<le> 8192 \<and> 0 < b1 \<and>
      8192 * nwrites (std_file w1) + b1 = 8192 * nwrites (std_file w) + b + 1"
  proof (cases "b = 8192")
    case True
    then have "length (wbuf w) \<le> std_buf_cap" "wbuf w \<noteq> []"
      using Cons.prems(3) by (auto simp: std_buf_cap_def)
    with flush_buf_all [OF Cons.prems(1), of w] obtain w' where
      "flush_buf os w = Some (Inr (), w')" "wbuf w' = []"
      "nwrites (std_file w') = nwrites (std_file w) + 1" by auto
    then show ?thesis
      using True Cons.prems by (intro exI [of _ "w'\<lparr>wbuf := encode m\<rparr>"] exI [of _ 1])
        (auto simp: write_all_def std_buf_cap_def)
  next
    case False
    then show ?thesis
      using Cons.prems by (intro exI [of _ "w\<lparr>wbuf := wbuf w @ encode m\<rparr>"] exI [of _ "b + 1"])
        (auto simp: write_all_def std_buf_cap_def)
  qed
  then obtain w1 b1 where w1: "write_all os (encode m) w = Some (Inr (), w1)" "length (wbuf w1) = 64 * b1"
      "b1 \<le> 8192" "0 < b1" "8192 * nwrites (std_file w1) + b1 = 8192 * nwrites (std_file w) + b + 1"
    by blast
  obtain w' b' where "write_records os ms w1 = Some (Inr (), w')" "length (wbuf w') = 64 * b'" "b' \<le> 8192"
      "0 < b1 + length ms \<longrightarrow> 0 < b'"
      "8192 * nwrites (std_file w') + b' = 8192 * nwrites (std_file w1) + b1 + length ms"
    using Cons.IH [OF Cons.prems(1) _ w1(2,3)] Cons.prems(2) by auto
  with w1 Cons.prems(2) show ?case by (auto simp: to_bytes_eq)
qed

lemma std_write_batch_calls:
  assumes "accepts_all os" and "list_all wf_message ms" and "wbuf w = []"
  shows "\<exists>w'. std_write_batch os ms w = Some (Inr (length ms), w') \<and>
    nwrites (std_file w') = nwrites (std_file w) + (length ms + 8191) div 8192"
proof -
  obtain w1 b where w1: "write_records os ms w = Some (Inr (), w1)" "length (wbuf w1) = 64 * b" "b \<le> 8192"
      "0 < length ms \<longrightarrow> 0 < b"
      "8192 * nwrites (std_file w1) + b = 8192 * nwrites (std_file w) + length ms"
    using write_records_all [OF assms(1,2), of w 0] assms(3) by auto
  obtain w' where w': "flush_buf os w1 = Some (Inr (), w')"
      "nwrites (std_file w') = nwrites (std_file w1) + (if wbuf w1 = [] then 0 else 1)"
    using flush_buf_all [OF assms(1), of w1] w1(2,3) by (auto simp: std_buf_cap_def)
  have "b = 0 \<longleftrightarrow> wbuf w1 = []" using w1(2) by auto
  then have "nwrites (std_file w') = nwrites (std_file w) + (length ms + 8191) div 8192"
    using w1(3-5) w'(2) by auto
  with w1(1) w'(1) show ?thesis by (simp add: std_write_batch_def)
qed

section \<open>The writer as a \<open>MessageWriter\<close>\<close>

text \<open>A writer together with the system it runs on and the length its file had at the start.\<close>

record std_world =
  sw_os :: "nat \<Rightarrow> wreply"
  sw_sync :: "nat option"
  sw_base :: nat
  sw_writer :: std_writer

definition std_batch :: "message list \<Rightarrow> std_world \<Rightarrow> ((write_error + nat) \<times> std_world) option" where
  "std_batch ms W = map_option (apsnd (\<lambda>w. W\<lparr>sw_writer := w\<rparr>)) (std_write_batch (sw_os W) ms (sw_writer W))"

definition std_sync_world :: "std_world \<Rightarrow> (write_error + unit) \<times> std_world" where
  "std_sync_world W = apsnd (\<lambda>w. W\<lparr>sw_writer := w\<rparr>) (std_sync (sw_sync W) (sw_writer W))"

definition std_written :: "std_world \<Rightarrow> u8 list" where
  "std_written W = drop (sw_base W) (content (std_file (sw_writer W)))"

definition std_saved :: "std_world \<Rightarrow> u8 list" where
  "std_saved W = drop (sw_base W) (durable (std_file (sw_writer W)))"

definition std_ok :: "std_world \<Rightarrow> bool" where
  "std_ok W \<longleftrightarrow> accepts_some (sw_os W) \<and> sw_sync W = None \<and> wbuf (sw_writer W) = [] \<and>
     sw_base W \<le> length (content (std_file (sw_writer W)))"

interpretation stdw: message_writer std_batch std_sync_world std_written std_saved std_ok
proof
  fix W :: std_world and ms
  assume ok: "std_ok W"
  show "\<exists>W'. std_batch ms W = Some (Inr (length ms), W') \<and> std_ok W' \<and>
      std_written W' = std_written W @ encode_all ms" if "list_all wf_message ms"
    using std_write_batch_accepts [of "sw_os W" ms "sw_writer W"] ok that
    by (auto simp: std_ok_def std_batch_def std_written_def std_bytes_def)
  show "\<exists>W'. std_sync_world W = (Inr (), W') \<and> std_ok W' \<and> std_written W' = std_written W \<and>
      std_saved W' = std_written W"
    using ok by (auto simp: std_sync_world_def std_sync_def sync_data_def std_ok_def std_written_def std_saved_def)
qed

section \<open>Properties\<close>

text \<open>
  C11: Whatever the system calls return, a \<open>write_batch\<close> that returns leaves in the file and the
  buffer together what was there before followed by the first messages of the batch, each whole
  and in order; when it returns \<open>Ok\<close> it returns the batch length, the buffer is empty and the
  file holds the whole batch.
\<close>

theorem std_write_batch_safe:
  assumes "std_write_batch os ms w = Some (r, w')" and "list_all wf_message ms"
  shows "\<exists>k\<le>length ms. content (std_file w') @ wbuf w' =
      content (std_file w) @ wbuf w @ encode_all (take k ms) \<and>
    (case r of Inl _ \<Rightarrow> True | Inr n \<Rightarrow> n = length ms \<and> k = length ms \<and> wbuf w' = [])"
  using std_write_batch_bytes [OF assms] by (simp add: std_bytes_def)

text \<open>A system whose second call fails for lack of space after a first one that is short.\<close>

definition disk_full :: "nat \<Rightarrow> wreply" where
  "disk_full n = (if n = 0 then Wrote 70 else Failed 28)"

definition ex_std :: std_writer where
  "ex_std = \<lparr>wbuf = [], std_file = ex_file\<rparr>"

lemma disk_full_batch:
  "\<exists>w'. std_write_batch disk_full [ex_message, ex_message] ex_std = Some (Inl (Io (Os 28)), w') \<and>
     length (content (std_file w')) = 70 \<and> length (wbuf w') = 58"
proof -
  define bs where "bs = encode ex_message @ encode ex_message"
  let ?w1 = "ex_std\<lparr>wbuf := bs\<rparr>"
  let ?w2 = "\<lparr>wbuf = drop 70 bs, std_file = \<lparr>content = take 70 bs, durable = [], nwrites = Suc 0\<rparr>\<rparr>"
  let ?w3 = "\<lparr>wbuf = drop 70 bs, std_file = \<lparr>content = take 70 bs, durable = [], nwrites = 2\<rparr>\<rparr>"
  have len: "length bs = 128" by (simp add: bs_def ex_message_wf)
  have wr: "write_records disk_full [ex_message, ex_message] ex_std = Some (Inr (), ?w1)"
    by (simp add: bs_def to_bytes_eq ex_message_wf write_all_def std_buf_cap_def ex_std_def)
  have s1: "flush_step disk_full ?w1 = (Again, ?w2)"
    using len by (simp add: flush_step_def append_write_def disk_full_def ex_std_def ex_file_def)
  have s2: "flush_step disk_full ?w2 = (Stop (Os 28), ?w3)"
    by (simp add: flush_step_def append_write_def disk_full_def EINTR_def)
  have "bs \<noteq> []" and ne2: "wbuf ?w2 \<noteq> []" using len by auto
  then have "flush_buf disk_full ?w1 = flush_buf disk_full ?w2"
    by (simp add: flush_buf.simps [of disk_full ?w1] s1)
  also have "\<dots> = Some (Inl (Io (Os 28)), ?w3)"
    using ne2 by (simp add: flush_buf.simps [of disk_full ?w2] s2)
  finally show ?thesis using wr len by (simp add: std_write_batch_def)
qed

theorem std_write_batch_safe_witness:
  "\<exists>w' k. std_write_batch disk_full [ex_message, ex_message] ex_std = Some (Inl (Io (Os 28)), w') \<and>
     length (content (std_file w')) = 70 \<and>
     content (std_file w') @ wbuf w' = encode_all (take k [ex_message, ex_message])"
proof -
  obtain w' where w': "std_write_batch disk_full [ex_message, ex_message] ex_std = Some (Inl (Io (Os 28)), w')"
      "length (content (std_file w')) = 70"
    using disk_full_batch by blast
  from std_write_batch_safe [OF w'(1)] have
    "\<exists>k. content (std_file w') @ wbuf w' = encode_all (take k [ex_message, ex_message])"
    by (auto simp: ex_message_wf ex_std_def ex_file_def)
  with w' show ?thesis by blast
qed

text \<open>
  \<open>write_batch\<close> returns unless every \<open>write\<close> call from some point on is interrupted.
\<close>

lemma std_write_batch_terminates:
  assumes "\<And>n. \<exists>m\<ge>n. os m \<noteq> Failed EINTR"
  shows "\<exists>r w'. std_write_batch os ms w = Some (r, w')"
  using std_write_batch_returns [of os ms w] assms by (auto simp: not_always_interrupted_def)

lemma std_write_batch_terminates_example:
  "\<exists>r w'. std_write_batch (\<lambda>n. if even n then Failed EINTR else Wrote 3) [ex_message] ex_std = Some (r, w')"
proof (rule std_write_batch_terminates)
  fix n :: nat
  show "\<exists>m\<ge>n. (if even m then Failed EINTR else Wrote 3) \<noteq> Failed EINTR"
    by (rule exI [of _ "2 * n + 1"]) simp
qed

text \<open>
  When every \<open>write\<close> call accepts what it is given, a batch of \<open>n\<close> messages takes
  \<open>n / 8192\<close> calls, rounded up: one for every batch size the benchmarks use.
\<close>

lemma std_write_batch_syscalls:
  assumes "\<And>n. \<exists>k\<ge>std_buf_cap. os n = Wrote k" and "list_all wf_message ms" and "wbuf w = []"
  shows "\<exists>w'. std_write_batch os ms w = Some (Inr (length ms), w') \<and>
    nwrites (std_file w') = nwrites (std_file w) + (length ms + 8191) div 8192"
  by (rule std_write_batch_calls) (use assms in \<open>simp_all add: accepts_all_def\<close>)

lemma std_write_batch_syscalls_example:
  "\<exists>w'. std_write_batch (\<lambda>n. Wrote 600000) (replicate 4096 ex_message) ex_std = Some (Inr 4096, w') \<and>
     nwrites (std_file w') = 1"
proof -
  have "\<exists>k\<ge>std_buf_cap. Wrote 600000 = Wrote k" by (simp add: std_buf_cap_def)
  moreover have "list_all wf_message (replicate 4096 ex_message)"
    by (simp add: list_all_length ex_message_wf)
  ultimately show ?thesis
    using std_write_batch_syscalls [of "\<lambda>n. Wrote 600000" "replicate 4096 ex_message" ex_std]
    by (simp add: ex_std_def ex_file_def)
qed

end
