(* ===== verification/Uring.thy ===== *)
theory Uring
  imports Message_Writer "HOL-Library.Multiset"
begin

text \<open>
  An \<open>io_uring\<close> as the writers of \<open>crates/persist\<close> use it.  The crate and the kernel are not
  part of the repository: \<open>kern\<close>, a parameter of every operation that enters the kernel, says
  for each call whether it is refused or which outstanding writes complete, in which order and
  with which results; \<open>uring_contract\<close> states what the documentation promises of it.  The
  queues between the program and the kernel are part of the model, because what a failed
  batch leaves in them meets the next one.
\<close>

section \<open>State\<close>

text \<open>A write of a buffer's bytes at a file offset.\<close>

record write_op =
  op_off :: u64
  op_buf :: "u8 list"

text \<open>
  \<open>sq\<close> holds the writes pushed and not yet submitted, \<open>inflight\<close> those submitted and not yet
  complete, \<open>cq\<close> the results of complete ones that the program has not looked at.
\<close>

record uring =
  sq :: "write_op list"
  inflight :: "write_op list"
  cq :: "int list"
  entries :: nat
  enters :: nat

datatype enter_reply = Refused nat | Entered "(write_op \<times> int) list"

type_synonym uring_kernel = "nat \<Rightarrow> nat \<Rightarrow> nat \<Rightarrow> write_op list \<Rightarrow> enter_reply"

text \<open>
  The call with number \<open>n\<close>, asked to wait for \<open>want\<close> completions while \<open>held\<close> are unread and the
  writes \<open>ops\<close> are outstanding: only outstanding writes complete, none writes more than its
  buffer, and enough complete to make up the number asked for.
\<close>

definition uring_contract :: "uring_kernel \<Rightarrow> bool" where
  "uring_contract kern \<longleftrightarrow>
     (\<forall>n want held ops comps. kern n want held ops = Entered comps \<longrightarrow>
        mset (map fst comps) \<subseteq># mset ops \<and>
        (\<forall>(op, res)\<in>set comps. res \<le> int (length (op_buf op))) \<and>
        min (want - held) (length ops) \<le> length comps)"

text \<open>Every call goes through and every completed write writes its whole buffer.\<close>

definition full_writes :: "uring_kernel \<Rightarrow> bool" where
  "full_writes kern \<longleftrightarrow>
     (\<forall>n want held ops. \<exists>comps. kern n want held ops = Entered comps \<and>
        (\<forall>(op, res)\<in>set comps. res = int (length (op_buf op))))"

section \<open>Operations\<close>

text \<open>\<open>push(..).expect(..)\<close> for one write after the other.\<close>

fun push_all :: "write_op list \<Rightarrow> uring \<Rightarrow> (write_error + unit) \<times> uring" where
  "push_all [] u = (Inr (), u)"
| "push_all (op # ops) u =
     (if length (sq u) < entries u then push_all ops (u\<lparr>sq := sq u @ [op]\<rparr>)
      else (Inl (Panicked Unwrapped), u))"

definition apply_completion :: "write_op \<times> int \<Rightarrow> u8 list \<Rightarrow> u8 list" where
  "apply_completion c file = pwrite (unat (op_off (fst c))) (take (nat (snd c)) (op_buf (fst c))) file"

definition submit_and_wait ::
    "uring_kernel \<Rightarrow> nat \<Rightarrow> uring \<Rightarrow> log_file \<Rightarrow> (write_error + unit) \<times> uring \<times> log_file" where
  "submit_and_wait kern want u f =
     (case kern (enters u) want (length (cq u)) (inflight u @ sq u) of
        Refused e \<Rightarrow> (Inl (Io (Os e)), u\<lparr>enters := enters u + 1\<rparr>, f)
      | Entered comps \<Rightarrow>
          (Inr (),
           u\<lparr>sq := [], inflight := fold remove1 (map fst comps) (inflight u @ sq u),
             cq := cq u @ map snd comps, enters := enters u + 1\<rparr>,
           f\<lparr>content := fold apply_completion comps (content f)\<rparr>))"

text \<open>
  The loop over \<open>completion()\<close>: the iterator takes each result it yields off the queue; an early
  return at a negative one leaves the rest there.
\<close>

fun drain_completions :: "int list \<Rightarrow> (write_error + unit) \<times> int list" where
  "drain_completions [] = (Inr (), [])"
| "drain_completions (res # rest) =
     (if res < 0 then (Inl (Io (Os (nat (- res)))), rest) else drain_completions rest)"

text \<open>A ring with nothing queued, in flight or unread.\<close>

definition quiet_ring :: "uring \<Rightarrow> bool" where
  "quiet_ring u \<longleftrightarrow> sq u = [] \<and> inflight u = [] \<and> cq u = []"

section \<open>Positioned writes in any order\<close>

definition byte_at :: "u8 list \<Rightarrow> nat \<Rightarrow> u8" where
  "byte_at f i = (if i < length f then f ! i else 0)"

lemma byte_at_pwrite:
  "byte_at (pwrite off bs f) i = (if off \<le> i \<and> i < off + length bs then bs ! (i - off) else byte_at f i)"
  by (auto simp: byte_at_def pwrite_def nth_append min_def)

lemma file_eqI: "length f = length g \<Longrightarrow> (\<And>i. byte_at f i = byte_at g i) \<Longrightarrow> f = g"
  by (intro nth_equalityI) (auto simp: byte_at_def split: if_splits, metis)

lemma pwrite_commute:
  assumes "o1 + length b1 \<le> o2 \<or> o2 + length b2 \<le> o1"
  shows "pwrite o1 b1 (pwrite o2 b2 f) = pwrite o2 b2 (pwrite o1 b1 f)"
  by (rule file_eqI) (use assms in \<open>auto simp: length_pwrite byte_at_pwrite\<close>)

text \<open>Two writes that overlap nowhere, or are the same write.\<close>

definition apart :: "write_op \<Rightarrow> write_op \<Rightarrow> bool" where
  "apart a b \<longleftrightarrow> a = b \<or> unat (op_off a) + length (op_buf a) \<le> unat (op_off b) \<or>
     unat (op_off b) + length (op_buf b) \<le> unat (op_off a)"

definition full_result :: "write_op \<Rightarrow> write_op \<times> int" where
  "full_result op = (op, int (length (op_buf op)))"

lemma apply_full: "apply_completion (full_result op) = pwrite (unat (op_off op)) (op_buf op)"
  by (auto simp: apply_completion_def full_result_def)

lemma apply_any_order:
  assumes "mset (map fst comps) = mset ops" and "\<forall>(op, res)\<in>set comps. res = int (length (op_buf op))"
    and "\<forall>a\<in>set ops. \<forall>b\<in>set ops. apart a b"
  shows "fold apply_completion comps = fold (\<lambda>op. pwrite (unat (op_off op)) (op_buf op)) ops"
proof -
  have "map (full_result \<circ> fst) comps = comps"
    using assms(2) by (intro map_idI) (auto simp: full_result_def)
  then have "fold apply_completion comps = fold apply_completion (map (full_result \<circ> fst) comps)"
    by simp
  also have "\<dots> = fold (\<lambda>op. pwrite (unat (op_off op)) (op_buf op)) (map fst comps)"
    by (simp add: fold_map comp_def apply_full)
  also have "\<dots> = fold (\<lambda>op. pwrite (unat (op_off op)) (op_buf op)) ops"
  proof (rule fold_multiset_equiv)
    fix a b
    assume "a \<in> set (map fst comps)" "b \<in> set (map fst comps)"
    then have "apart a b" using assms(3) mset_eq_setD [OF assms(1)] by blast
    then show "pwrite (unat (op_off a)) (op_buf a) \<circ> pwrite (unat (op_off b)) (op_buf b) =
        pwrite (unat (op_off b)) (op_buf b) \<circ> pwrite (unat (op_off a)) (op_buf a)"
      by (auto simp: apart_def fun_eq_iff pwrite_commute)
  qed (rule assms(1))
  finally show ?thesis .
qed

text \<open>Records of 64 bytes one after the other.\<close>

definition record_ops :: "u64 \<Rightarrow> u8 list list \<Rightarrow> write_op list" where
  "record_ops off bufs = map (\<lambda>i. \<lparr>op_off = off + of_nat i * 64, op_buf = bufs ! i\<rparr>) [0..<length bufs]"

lemma length_record_ops [simp]: "length (record_ops off bufs) = length bufs"
  by (simp add: record_ops_def)

lemma record_op_off:
  assumes "unat off + 64 * n < 2 ^ 64" "i \<le> n"
  shows "unat (off + of_nat i * 64 :: u64) = unat off + 64 * i"
proof -
  have "unat off + 64 * i < 2 ^ 64" using assms by linarith
  then have "unat (of_nat (unat off + 64 * i) :: u64) = unat off + 64 * i"
    by (subst unat_of_nat) simp
  moreover have "(of_nat (unat off + 64 * i) :: u64) = off + of_nat i * 64" by simp
  ultimately show ?thesis by metis
qed

lemma record_ops_apart:
  assumes "unat off + 64 * length bufs < 2 ^ 64" and "\<forall>b\<in>set bufs. length b = 64"
    and "a \<in> set (record_ops off bufs)" "b \<in> set (record_ops off bufs)"
  shows "apart a b"
proof -
  obtain i j where a: "i < length bufs" "a = \<lparr>op_off = off + of_nat i * 64, op_buf = bufs ! i\<rparr>"
    and b: "j < length bufs" "b = \<lparr>op_off = off + of_nat j * 64, op_buf = bufs ! j\<rparr>"
    using assms(3,4) by (auto simp: record_ops_def)
  have "unat (op_off a) = unat off + 64 * i" "unat (op_off b) = unat off + 64 * j"
    using a b record_op_off [OF assms(1)] by simp_all
  moreover have "length (op_buf a) = 64" "length (op_buf b) = 64"
    using a b assms(2) by simp_all
  ultimately show ?thesis
    unfolding apart_def using a b by (cases i j rule: linorder_cases) auto
qed

lemma fold_record_ops:
  assumes "unat off + 64 * length bufs < 2 ^ 64" and "\<forall>b\<in>set bufs. length b = 64"
    and "unat off \<le> length f"
  shows "fold (\<lambda>op. pwrite (unat (op_off op)) (op_buf op)) (record_ops off bufs) f =
    pwrite (unat off) (concat bufs) f"
proof -
  have "fold (\<lambda>op. pwrite (unat (op_off op)) (op_buf op)) (take n (record_ops off bufs)) f =
      pwrite (unat off) (concat (take n bufs)) f" if "n \<le> length bufs" for n
    using that
  proof (induction n)
    case (Suc n)
    let ?op = "\<lparr>op_off = off + of_nat n * 64, op_buf = bufs ! n\<rparr> :: write_op"
    have "take (Suc n) (record_ops off bufs) = take n (record_ops off bufs) @ [?op]"
      using Suc.prems by (simp add: take_Suc_conv_app_nth record_ops_def)
    moreover have "length (concat (take n bufs)) = 64 * n"
      using assms(2) Suc.prems length_concat_map_const [of "take n bufs" "\<lambda>b. b" 64]
      by (auto dest: in_set_takeD)
    moreover have "unat (op_off ?op) = unat off + 64 * n"
      using record_op_off [OF assms(1), of n] Suc.prems by simp
    moreover have "concat (take (Suc n) bufs) = concat (take n bufs) @ bufs ! n"
      using Suc.prems by (simp add: take_Suc_conv_app_nth)
    ultimately show ?case
      using Suc pwrite_pwrite [OF assms(3), of "concat (take n bufs)" "bufs ! n"] by simp
  qed simp
  from this [of "length bufs"] show ?thesis by (simp add: record_ops_def)
qed

section \<open>What one round through the ring does\<close>

lemma push_all_room:
  "length (sq u) + length ops \<le> entries u \<Longrightarrow> push_all ops u = (Inr (), u\<lparr>sq := sq u @ ops\<rparr>)"
  by (induction ops u rule: push_all.induct) auto

lemma drain_nonneg: "\<forall>res\<in>set rs. 0 \<le> res \<Longrightarrow> drain_completions rs = (Inr (), [])"
  by (induction rs) auto

lemma drain_Inr_iff: "fst (drain_completions rs) = Inr () \<longleftrightarrow> (\<forall>res\<in>set rs. 0 \<le> res)"
  by (induction rs) auto

lemma drain_Inr_rest: "drain_completions rs = (Inr (), rest) \<Longrightarrow> rest = []"
  by (induction rs) (auto split: if_splits)

lemma fold_remove1_mset: "mset (fold remove1 xs ys) = mset ys - mset xs"
  by (induction xs arbitrary: ys) (simp_all add: diff_diff_add_mset [symmetric])

text \<open>All writes are complete once as many completions as there are writes are waited for.\<close>

lemma contract_complete:
  assumes "uring_contract kern" and "kern n (length ops) 0 ops = Entered comps"
  shows "mset (map fst comps) = mset ops"
proof -
  have sub: "mset (map fst comps) \<subseteq># mset ops" "length ops \<le> length comps"
    using assms unfolding uring_contract_def by fastforce+
  then show ?thesis
    by (metis leD length_map mset_subset_size size_mset subset_mset.le_imp_less_or_eq)
qed

text \<open>
  A kernel that answers its \<open>n\<close>-th call as \<open>script n\<close> says: refused, or every outstanding write
  completes, the newest first, each with the result given.
\<close>

definition scripted :: "(nat \<Rightarrow> (write_op \<Rightarrow> int) option) \<Rightarrow> uring_kernel" where
  "scripted script n want held ops =
     (case script n of
        None \<Rightarrow> Refused 16
      | Some res \<Rightarrow> Entered (map (\<lambda>op. (op, res op)) (rev ops)))"

lemma scripted_contract:
  "(\<And>n res op. script n = Some res \<Longrightarrow> res op \<le> int (length (op_buf op))) \<Longrightarrow> uring_contract (scripted script)"
  unfolding uring_contract_def scripted_def by (auto simp: comp_def multiset.map_comp split: option.splits)

definition all_written :: "write_op \<Rightarrow> int" where
  "all_written op = int (length (op_buf op))"

lemma scripted_full: "(\<And>n. script n = Some all_written) \<Longrightarrow> full_writes (scripted script)"
  by (auto simp: full_writes_def scripted_def all_written_def)

definition good_kernel :: uring_kernel where
  "good_kernel = scripted (\<lambda>n. Some all_written)"

lemma good_kernel_ok: "uring_contract good_kernel" "full_writes good_kernel"
  unfolding good_kernel_def by (auto intro!: scripted_contract scripted_full simp: all_written_def)

section \<open>Batches\<close>

lemma chunks_wf:
  "0 < d \<Longrightarrow> list_all wf_message ms \<Longrightarrow> c \<in> set (chunks d ms) \<Longrightarrow> length c \<le> d \<and> list_all wf_message c"
  using chunks_sizes [of d c ms] concat_chunks [of d ms]
  by (metis UN_I list_all_iff set_concat)

lemma length_chunks: "0 < d \<Longrightarrow> length (chunks d xs) = (length xs + d - 1) div d"
proof (induction d xs rule: chunks.induct)
  case (1 d xs)
  show ?case
  proof (cases "xs = []")
    case False
    with 1 have "length (chunks d xs) = Suc ((length xs - d + d - 1) div d)" by (simp add: chunks_step)
    also have "\<dots> = (length xs + d - 1) div d"
    proof (cases "d \<le> length xs")
      case True
      then have "length xs + d - 1 = (length xs - 1) + d" "length xs - d + d - 1 = length xs - 1"
        using 1(2) by simp_all
      then show ?thesis using 1(2) by (metis Suc_eq_plus1 div_add_self2 less_numeral_extra(3))
    next
      case lt: False
      then have "(length xs + d - 1) div d = 1"
        using 1(2) False by (intro div_nat_eqI) (auto simp: neq_Nil_conv)
      then show ?thesis using lt 1(2) by simp
    qed
    finally show ?thesis .
  qed (use 1 in simp)
qed

lemma take_pwrite:
  "off \<le> length f \<Longrightarrow> take (off + length bs) (pwrite off bs f) = take off f @ bs"
  by (auto simp: pwrite_def min_def)

end
