(* ===== verification/Uring_Writer.thy ===== *)
theory Uring_Writer
  imports Uring
begin

text \<open>
  \<open>UringWriter\<close> of \<open>crates/persist/src/lib.rs\<close>: a batch is cut into chunks of at most
  \<open>ring_depth\<close> messages, each chunk is pushed as one write per record at consecutive offsets,
  submitted and waited for in one call, and its completions are checked before the offset is
  advanced.  The byte buffers of a chunk live until the end of its round.
\<close>

section \<open>State and operations\<close>

record uring_writer =
  u_ring :: uring
  u_file :: log_file
  u_offset :: u64
  u_depth :: u32

text \<open>The replies of opening the file and of \<open>IoUring::new\<close>, with the entries it gives, are parameters.\<close>

definition uring_create ::
    "nat option \<Rightarrow> (u32 \<Rightarrow> nat + nat) \<Rightarrow> u32 \<Rightarrow> log_file \<Rightarrow> write_error + uring_writer" where
  "uring_create failure ring_new depth f =
     (case failure of
        Some e \<Rightarrow> Inl (Io (Os e))
      | None \<Rightarrow>
          (case ring_new depth of
             Inl e \<Rightarrow> Inl (Io (Os e))
           | Inr n \<Rightarrow> Inr \<lparr>u_ring = \<lparr>sq = [], inflight = [], cq = [], entries = n, enters = 0\<rparr>,
               u_file = f, u_offset = 0, u_depth = depth\<rparr>))"

fun collect_bytes :: "message list \<Rightarrow> panic + u8 list list" where
  "collect_bytes [] = Inr []"
| "collect_bytes (m # ms) =
     and_then (to_bytes m) (\<lambda>b. and_then (collect_bytes ms) (\<lambda>bs. Inr (b # bs)))"

definition uring_chunk ::
    "uring_kernel \<Rightarrow> message list \<Rightarrow> uring_writer \<Rightarrow> (write_error + unit) \<times> uring_writer" where
  "uring_chunk kern chunk w =
     (case collect_bytes chunk of
        Inl p \<Rightarrow> (Inl (Panicked p), w)
      | Inr bufs \<Rightarrow>
          (case push_all (record_ops (u_offset w) bufs) (u_ring w) of
             (Inl e, u) \<Rightarrow> (Inl e, w\<lparr>u_ring := u\<rparr>)
           | (Inr _, u) \<Rightarrow>
               (case submit_and_wait kern (length chunk) u (u_file w) of
                  (Inl e, u', f) \<Rightarrow> (Inl e, w\<lparr>u_ring := u', u_file := f\<rparr>)
                | (Inr _, u', f) \<Rightarrow>
                    (case drain_completions (cq u') of
                       (Inl e, rest) \<Rightarrow> (Inl e, w\<lparr>u_ring := u'\<lparr>cq := rest\<rparr>, u_file := f\<rparr>)
                     | (Inr _, rest) \<Rightarrow>
                         (Inr (), w\<lparr>u_ring := u'\<lparr>cq := rest\<rparr>, u_file := f,
                            u_offset := u_offset w + of_nat (length chunk) * 64\<rparr>)))))"

fun uring_loop ::
    "uring_kernel \<Rightarrow> message list list \<Rightarrow> nat \<Rightarrow> uring_writer \<Rightarrow> (write_error + nat) \<times> uring_writer" where
  "uring_loop kern [] written w = (Inr written, w)"
| "uring_loop kern (chunk # cs) written w =
     (case uring_chunk kern chunk w of
        (Inl e, w') \<Rightarrow> (Inl e, w')
      | (Inr _, w') \<Rightarrow> uring_loop kern cs (written + length chunk) w')"

definition uring_write_batch ::
    "uring_kernel \<Rightarrow> message list \<Rightarrow> uring_writer \<Rightarrow> (write_error + nat) \<times> uring_writer" where
  "uring_write_batch kern ms w =
     (let depth = unat (u_depth w) in
      if depth = 0 then (Inl (Panicked AssertFailed), w)
      else uring_loop kern (chunks depth ms) 0 w)"

definition uring_sync :: "nat option \<Rightarrow> uring_writer \<Rightarrow> (write_error + unit) \<times> uring_writer" where
  "uring_sync failure w = (case sync_data failure (u_file w) of (r, f) \<Rightarrow> (r, w\<lparr>u_file := f\<rparr>))"

section \<open>One chunk\<close>

lemma collect_bytes_eq: "list_all wf_message ms \<Longrightarrow> collect_bytes ms = Inr (map encode ms)"
  by (induction ms) (simp_all add: to_bytes_eq)

text \<open>The writes a chunk pushes.\<close>

abbreviation chunk_ops :: "uring_writer \<Rightarrow> message list \<Rightarrow> write_op list" where
  "chunk_ops w chunk \<equiv> record_ops (u_offset w) (map encode chunk)"

text \<open>With the ring quiet before, a chunk's outcome is that of the kernel's one reply.\<close>

lemma uring_chunk_quiet:
  assumes "quiet_ring (u_ring w)" and "length chunk \<le> entries (u_ring w)" and "list_all wf_message chunk"
  shows "uring_chunk kern chunk w =
    (case kern (enters (u_ring w)) (length chunk) 0 (chunk_ops w chunk) of
       Refused e \<Rightarrow> (Inl (Io (Os e)),
         w\<lparr>u_ring := (u_ring w)\<lparr>sq := chunk_ops w chunk, enters := enters (u_ring w) + 1\<rparr>\<rparr>)
     | Entered comps \<Rightarrow>
         (let u = (u_ring w)\<lparr>inflight := fold remove1 (map fst comps) (chunk_ops w chunk),
                     cq := snd (drain_completions (map snd comps)), enters := enters (u_ring w) + 1\<rparr>;
              f = (u_file w)\<lparr>content := fold apply_completion comps (content (u_file w))\<rparr> in
          (fst (drain_completions (map snd comps)),
           if fst (drain_completions (map snd comps)) = Inr ()
           then w\<lparr>u_ring := u, u_file := f, u_offset := u_offset w + of_nat (length chunk) * 64\<rparr>
           else w\<lparr>u_ring := u, u_file := f\<rparr>)))"
  using assms
  by (auto simp: uring_chunk_def collect_bytes_eq push_all_room quiet_ring_def submit_and_wait_def Let_def
      split: enter_reply.split sum.split prod.split)

lemma uring_chunk_contract:
  assumes "uring_contract kern" and quiet: "quiet_ring (u_ring w)"
    and "length chunk \<le> entries (u_ring w)" and "list_all wf_message chunk"
    and eq: "uring_chunk kern chunk w = (r, w')"
  shows "entries (u_ring w') = entries (u_ring w) \<and> u_depth w' = u_depth w \<and> inflight (u_ring w') = [] \<and>
    enters (u_ring w') = enters (u_ring w) + 1 \<and>
    (case r of
       Inr _ \<Rightarrow> quiet_ring (u_ring w') \<and> u_offset w' = u_offset w + of_nat (length chunk) * 64
     | Inl e \<Rightarrow> u_offset w' = u_offset w \<and>
         (sq (u_ring w') = [] \<or>
          u_file w' = u_file w \<and> cq (u_ring w') = [] \<and> sq (u_ring w') = chunk_ops w chunk))"
proof (cases "kern (enters (u_ring w)) (length chunk) 0 (chunk_ops w chunk)")
  case (Refused e)
  then show ?thesis
    using eq quiet uring_chunk_quiet [OF quiet assms(3,4), of kern] by (auto simp: quiet_ring_def)
next
  case (Entered comps)
  have "kern (enters (u_ring w)) (length (chunk_ops w chunk)) 0 (chunk_ops w chunk) = Entered comps"
    using Entered by simp
  from contract_complete [OF assms(1) this]
  have none: "fold remove1 (map fst comps) (chunk_ops w chunk) = []"
    using fold_remove1_mset [of "map fst comps" "chunk_ops w chunk"] by simp
  show ?thesis
    using eq quiet uring_chunk_quiet [OF quiet assms(3,4), of kern] Entered none
      drain_Inr_rest [of "map snd comps" "snd (drain_completions (map snd comps))"]
    by (cases "drain_completions (map snd comps)") (auto simp: quiet_ring_def Let_def split: sum.split if_splits)
qed

lemma uring_chunk_full:
  assumes "uring_contract kern" and full: "full_writes kern" and quiet: "quiet_ring (u_ring w)"
    and "length chunk \<le> entries (u_ring w)" and wf: "list_all wf_message chunk"
    and off: "unat (u_offset w) \<le> length (content (u_file w))" "unat (u_offset w) + 64 * length chunk < 2 ^ 64"
  shows "\<exists>w'. uring_chunk kern chunk w = (Inr (), w') \<and> quiet_ring (u_ring w') \<and>
    entries (u_ring w') = entries (u_ring w) \<and> u_depth w' = u_depth w \<and>
    enters (u_ring w') = enters (u_ring w) + 1 \<and>
    unat (u_offset w') = unat (u_offset w) + 64 * length chunk \<and>
    durable (u_file w') = durable (u_file w) \<and>
    content (u_file w') = pwrite (unat (u_offset w)) (encode_all chunk) (content (u_file w))"
proof -
  let ?ops = "chunk_ops w chunk"
  obtain comps where comps: "kern (enters (u_ring w)) (length ?ops) 0 ?ops = Entered comps"
      "\<forall>(op, res)\<in>set comps. res = int (length (op_buf op))"
    using full unfolding full_writes_def by blast
  have same: "mset (map fst comps) = mset ?ops" by (rule contract_complete [OF assms(1) comps(1)])
  have nonneg: "\<forall>res\<in>set (map snd comps). 0 \<le> res" using comps(2) by auto
  have len: "\<forall>b\<in>set (map encode chunk). length b = 64" using wf by (auto simp: list_all_iff)
  have bound: "unat (u_offset w) + 64 * length (map encode chunk) < 2 ^ 64" using off(2) by simp
  have "fold apply_completion comps = fold (\<lambda>op. pwrite (unat (op_off op)) (op_buf op)) ?ops"
    using record_ops_apart [OF bound len] by (intro apply_any_order [OF same comps(2)]) blast
  then have "fold apply_completion comps (content (u_file w)) =
      pwrite (unat (u_offset w)) (encode_all chunk) (content (u_file w))"
    using fold_record_ops [OF bound len off(1)] by (simp add: encode_all_def)
  moreover have "fold remove1 (map fst comps) ?ops = []"
    using fold_remove1_mset [of "map fst comps" ?ops] same by simp
  moreover have "unat (u_offset w + of_nat (length chunk) * 64) = unat (u_offset w) + 64 * length chunk"
    by (rule record_op_off [OF off(2)]) simp
  ultimately show ?thesis
    using uring_chunk_quiet [OF quiet assms(4) wf, of kern] comps(1) drain_nonneg [OF nonneg] quiet
    by (auto simp: quiet_ring_def Let_def)
qed

section \<open>A batch\<close>

lemma offset_add: "(off :: u64) + of_nat a * 64 + of_nat b * 64 = off + of_nat (a + b) * 64"
  by (simp add: algebra_simps)

text \<open>The loop stops after whole chunks: \<open>j\<close> of them went through, and the one after them failed, if any.\<close>

lemma uring_loop_contract:
  "uring_contract kern \<Longrightarrow> quiet_ring (u_ring w) \<Longrightarrow>
   \<forall>c\<in>set cs. length c \<le> entries (u_ring w) \<and> list_all wf_message c \<Longrightarrow>
   uring_loop kern cs n w = (r, w') \<Longrightarrow>
   inflight (u_ring w') = [] \<and>
   (\<exists>j\<le>length cs. u_offset w' = u_offset w + of_nat (length (concat (take j cs))) * 64 \<and>
     (case r of
        Inr n' \<Rightarrow> n' = n + length (concat cs) \<and> j = length cs \<and> enters (u_ring w') = enters (u_ring w) + j \<and>
          quiet_ring (u_ring w')
      | Inl e \<Rightarrow> j < length cs \<and> enters (u_ring w') = enters (u_ring w) + j + 1 \<and>
          (sq (u_ring w') = [] \<or> cq (u_ring w') = [] \<and> sq (u_ring w') = chunk_ops w' (cs ! j))))"
proof (induction kern cs n w rule: uring_loop.induct)
  case (1 kern n w)
  then show ?case by (auto simp: quiet_ring_def)
next
  case (2 kern c cs n w)
  obtain r1 w1 where c: "uring_chunk kern c w = (r1, w1)" by fastforce
  have chunk: "entries (u_ring w1) = entries (u_ring w)" "inflight (u_ring w1) = []"
    "enters (u_ring w1) = enters (u_ring w) + 1"
    "case r1 of
       Inr _ \<Rightarrow> quiet_ring (u_ring w1) \<and> u_offset w1 = u_offset w + of_nat (length c) * 64
     | Inl e \<Rightarrow> u_offset w1 = u_offset w \<and>
         (sq (u_ring w1) = [] \<or>
          u_file w1 = u_file w \<and> cq (u_ring w1) = [] \<and> sq (u_ring w1) = chunk_ops w c)"
    using uring_chunk_contract [OF 2(2,3) _ _ c] 2(4) by auto
  show ?case
  proof (cases r1)
    case (Inl e)
    then have "r = Inl e" "w' = w1" using 2(5) c by simp_all
    with Inl chunk show ?thesis by (auto intro: exI [of _ 0])
  next
    case (Inr u)
    then have rest: "uring_loop kern cs (n + length c) w1 = (r, w')" using 2(5) c by (cases u) simp
    have fits: "\<forall>c\<in>set cs. length c \<le> entries (u_ring w1) \<and> list_all wf_message c"
      using 2(4) chunk(1) by auto
    have "quiet_ring (u_ring w1)" using Inr chunk(4) by simp
    from 2(1) [OF c [symmetric] Inr 2(2) this fits rest] obtain j where
      j: "j \<le> length cs" "u_offset w' = u_offset w1 + of_nat (length (concat (take j cs))) * 64"
      and out: "inflight (u_ring w') = []" "case r of
        Inr n' \<Rightarrow> n' = n + length c + length (concat cs) \<and> j = length cs \<and> enters (u_ring w') = enters (u_ring w1) + j \<and>
          quiet_ring (u_ring w')
      | Inl e \<Rightarrow> j < length cs \<and> enters (u_ring w') = enters (u_ring w1) + j + 1 \<and>
          (sq (u_ring w') = [] \<or> cq (u_ring w') = [] \<and> sq (u_ring w') = chunk_ops w' (cs ! j))"
      by blast
    have "u_offset w' = u_offset w + of_nat (length (concat (take (Suc j) (c # cs)))) * 64"
      using j(2) Inr chunk(4) offset_add [of "u_offset w" "length c"] by simp
    then show ?thesis
      using j(1) out chunk(3) by (intro conjI exI [of _ "Suc j"]) (auto split: sum.splits)
  qed
qed

lemma uring_loop_full:
  "uring_contract kern \<Longrightarrow> full_writes kern \<Longrightarrow> quiet_ring (u_ring w) \<Longrightarrow>
   \<forall>c\<in>set cs. length c \<le> entries (u_ring w) \<and> list_all wf_message c \<Longrightarrow>
   unat (u_offset w) \<le> length (content (u_file w)) \<Longrightarrow>
   unat (u_offset w) + 64 * length (concat cs) < 2 ^ 64 \<Longrightarrow>
   \<exists>w'. uring_loop kern cs n w = (Inr (n + length (concat cs)), w') \<and> quiet_ring (u_ring w') \<and>
     entries (u_ring w') = entries (u_ring w) \<and> u_depth w' = u_depth w \<and>
     enters (u_ring w') = enters (u_ring w) + length cs \<and>
     unat (u_offset w') = unat (u_offset w) + 64 * length (concat cs) \<and>
     durable (u_file w') = durable (u_file w) \<and>
     content (u_file w') = pwrite (unat (u_offset w)) (encode_all (concat cs)) (content (u_file w))"
proof (induction cs arbitrary: n w)
  case Nil
  then show ?case by simp
next
  case (Cons c cs)
  have wf: "list_all wf_message c" "length c \<le> entries (u_ring w)" using Cons.prems(4) by auto
  have len: "length (encode_all c) = 64 * length c" by (rule length_encode_all [OF wf(1)])
  obtain w1 where w1: "uring_chunk kern c w = (Inr (), w1)" "quiet_ring (u_ring w1)"
      "entries (u_ring w1) = entries (u_ring w)" "u_depth w1 = u_depth w"
      "enters (u_ring w1) = enters (u_ring w) + 1"
      "unat (u_offset w1) = unat (u_offset w) + 64 * length c"
      "durable (u_file w1) = durable (u_file w)"
      "content (u_file w1) = pwrite (unat (u_offset w)) (encode_all c) (content (u_file w))"
    using uring_chunk_full [OF Cons.prems(1-3) wf(2,1) Cons.prems(5)] Cons.prems(6) by auto
  have "\<exists>w'. uring_loop kern cs (n + length c) w1 = (Inr (n + length c + length (concat cs)), w') \<and>
     quiet_ring (u_ring w') \<and>
     entries (u_ring w') = entries (u_ring w1) \<and> u_depth w' = u_depth w1 \<and>
     enters (u_ring w') = enters (u_ring w1) + length cs \<and>
     unat (u_offset w') = unat (u_offset w1) + 64 * length (concat cs) \<and>
     durable (u_file w') = durable (u_file w1) \<and>
     content (u_file w') = pwrite (unat (u_offset w1)) (encode_all (concat cs)) (content (u_file w1))"
    using Cons.prems w1 len by (intro Cons.IH) (auto simp: length_pwrite)
  then obtain w' where "uring_loop kern cs (n + length c) w1 = (Inr (n + length c + length (concat cs)), w')"
     "quiet_ring (u_ring w')" "entries (u_ring w') = entries (u_ring w1)" "u_depth w' = u_depth w1"
     "enters (u_ring w') = enters (u_ring w1) + length cs"
     "unat (u_offset w') = unat (u_offset w1) + 64 * length (concat cs)"
     "durable (u_file w') = durable (u_file w1)"
     "content (u_file w') = pwrite (unat (u_offset w1)) (encode_all (concat cs)) (content (u_file w1))"
    by blast
  then show ?case
    using w1 len pwrite_pwrite [OF Cons.prems(5), of "encode_all c" "encode_all (concat cs)"]
    by (intro exI [of _ w']) simp
qed

lemma uring_batch_full:
  assumes "uring_contract kern" "full_writes kern" "quiet_ring (u_ring w)"
    and "0 < unat (u_depth w)" "unat (u_depth w) \<le> entries (u_ring w)" and "list_all wf_message ms"
    and "unat (u_offset w) \<le> length (content (u_file w))" "unat (u_offset w) + 64 * length ms < 2 ^ 64"
  shows "\<exists>w'. uring_write_batch kern ms w = (Inr (length ms), w') \<and> quiet_ring (u_ring w') \<and>
     entries (u_ring w') = entries (u_ring w) \<and> u_depth w' = u_depth w \<and>
     enters (u_ring w') = enters (u_ring w) + (length ms + unat (u_depth w) - 1) div unat (u_depth w) \<and>
     unat (u_offset w') = unat (u_offset w) + 64 * length ms \<and>
     durable (u_file w') = durable (u_file w) \<and>
     content (u_file w') = pwrite (unat (u_offset w)) (encode_all ms) (content (u_file w))"
proof -
  have "\<forall>c\<in>set (chunks (unat (u_depth w)) ms). length c \<le> entries (u_ring w) \<and> list_all wf_message c"
    using chunks_wf [OF assms(4,6)] assms(5) by fastforce
  from uring_loop_full [OF assms(1-3) this assms(7), of 0] assms(4,8) show ?thesis
    by (simp add: uring_write_batch_def Let_def concat_chunks length_chunks)
qed

section \<open>The writer as a \<open>MessageWriter\<close>\<close>

record uring_world =
  uw_kernel :: uring_kernel
  uw_sync :: "nat option"
  uw_writer :: uring_writer

definition uring_batch :: "message list \<Rightarrow> uring_world \<Rightarrow> ((write_error + nat) \<times> uring_world) option" where
  "uring_batch ms W =
     Some (apsnd (\<lambda>w. W\<lparr>uw_writer := w\<rparr>) (uring_write_batch (uw_kernel W) ms (uw_writer W)))"

definition uring_sync_world :: "uring_world \<Rightarrow> (write_error + unit) \<times> uring_world" where
  "uring_sync_world W = apsnd (\<lambda>w. W\<lparr>uw_writer := w\<rparr>) (uring_sync (uw_sync W) (uw_writer W))"

text \<open>What the writer has written is the file up to its offset.\<close>

definition uring_written :: "uring_world \<Rightarrow> u8 list" where
  "uring_written W = take (unat (u_offset (uw_writer W))) (content (u_file (uw_writer W)))"

definition uring_saved :: "uring_world \<Rightarrow> u8 list" where
  "uring_saved W = take (unat (u_offset (uw_writer W))) (durable (u_file (uw_writer W)))"

definition uring_ready :: "uring_writer \<Rightarrow> bool" where
  "uring_ready w \<longleftrightarrow> quiet_ring (u_ring w) \<and> 0 < unat (u_depth w) \<and> unat (u_depth w) \<le> entries (u_ring w) \<and>
     unat (u_offset w) \<le> length (content (u_file w))"

definition uring_ok :: "uring_world \<Rightarrow> bool" where
  "uring_ok W \<longleftrightarrow> uring_contract (uw_kernel W) \<and> full_writes (uw_kernel W) \<and> uw_sync W = None \<and>
     uring_ready (uw_writer W)"

interpretation urw: message_writer uring_batch uring_sync_world uring_written uring_saved uring_ok
proof
  fix W :: uring_world and ms
  assume ok: "uring_ok W"
  let ?w = "uw_writer W"
  show "\<exists>W'. uring_batch ms W = Some (Inr (length ms), W') \<and> uring_ok W' \<and>
      uring_written W' = uring_written W @ encode_all ms"
    if ms: "list_all wf_message ms" and len: "length (uring_written W) + 64 * length ms < 2 ^ 63"
  proof -
    have off: "unat (u_offset ?w) \<le> length (content (u_file ?w))"
      using ok by (simp add: uring_ok_def uring_ready_def)
    then have "unat (u_offset ?w) + 64 * length ms < 2 ^ 64" using len by (simp add: uring_written_def)
    then obtain w' where w': "uring_write_batch (uw_kernel W) ms ?w = (Inr (length ms), w')"
        "quiet_ring (u_ring w')" "entries (u_ring w') = entries (u_ring ?w)" "u_depth w' = u_depth ?w"
        "unat (u_offset w') = unat (u_offset ?w) + length (encode_all ms)"
        "content (u_file w') = pwrite (unat (u_offset ?w)) (encode_all ms) (content (u_file ?w))"
      using uring_batch_full [of "uw_kernel W" ?w ms] ok ms off
      by (auto simp: uring_ok_def uring_ready_def length_encode_all)
    then show ?thesis
      using ok off take_pwrite [OF off, of "encode_all ms"]
      by (auto simp: uring_batch_def uring_ok_def uring_ready_def uring_written_def length_pwrite)
  qed
  show "\<exists>W'. uring_sync_world W = (Inr (), W') \<and> uring_ok W' \<and> uring_written W' = uring_written W \<and>
      uring_saved W' = uring_written W"
    using ok by (auto simp: uring_sync_world_def uring_sync_def sync_data_def uring_ok_def uring_ready_def
        uring_written_def uring_saved_def)
qed

section \<open>Properties\<close>

text \<open>
  C12: When every submitted write completes in full, in whatever order, \<open>write_batch\<close> returns the
  batch length, the file holds the encoded batch at the writer's offset and is otherwise
  unchanged, the offset is past it, and the batch took one submission per \<open>ring_depth\<close> messages,
  rounded up.
\<close>

theorem uring_write_batch_ok:
  assumes "uring_contract kern" "full_writes kern" "uring_ready w" "list_all wf_message ms"
    and "unat (u_offset w) + 64 * length ms < 2 ^ 64"
  shows "\<exists>w'. uring_write_batch kern ms w = (Inr (length ms), w') \<and> uring_ready w' \<and>
    unat (u_offset w') = unat (u_offset w) + 64 * length ms \<and>
    content (u_file w') = pwrite (unat (u_offset w)) (encode_all ms) (content (u_file w)) \<and>
    enters (u_ring w') = enters (u_ring w) + (length ms + unat (u_depth w) - 1) div unat (u_depth w)"
  using uring_batch_full [of kern w ms] assms
    pwrite_covers [of "unat (u_offset w)" "content (u_file w)" "encode_all ms"]
  by (auto simp: uring_ready_def length_encode_all)

definition ex_uring :: uring_writer where
  "ex_uring = \<lparr>u_ring = \<lparr>sq = [], inflight = [], cq = [], entries = 2, enters = 0\<rparr>,
     u_file = ex_file, u_offset = 0, u_depth = 2\<rparr>"

lemma ex_uring_ready: "uring_ready ex_uring"
  by (simp add: uring_ready_def ex_uring_def quiet_ring_def)

theorem uring_write_batch_ok_witness:
  "\<exists>w'. uring_write_batch good_kernel [ex_message, ex_message, ex_message] ex_uring = (Inr 3, w') \<and>
     content (u_file w') = encode_all [ex_message, ex_message, ex_message] \<and> enters (u_ring w') = 2"
proof -
  have "list_all wf_message [ex_message, ex_message, ex_message]" by (simp add: ex_message_wf)
  moreover have "content (u_file ex_uring) = []" "unat (u_offset ex_uring) = 0" "enters (u_ring ex_uring) = 0"
      "unat (u_depth ex_uring) = 2"
    by (simp_all add: ex_uring_def ex_file_def)
  ultimately show ?thesis
    using uring_write_batch_ok [OF good_kernel_ok ex_uring_ready, of "[ex_message, ex_message, ex_message]"]
      pwrite_end [of "[]"]
    by (auto simp: ex_message_wf)
qed

text \<open>
  C20: Whatever the results of the writes, a batch on a quiet ring leaves none of its writes in
  flight, so no completed batch is still being read by the kernel.  The offset advances over
  whole chunks only: with \<open>Ok\<close> over all of them, and the ring is quiet; with an error over the
  chunks before the one that failed, which is the last that was submitted.  After an error either
  nothing is queued, or the submission was refused and the writes of the chunk that failed are
  still queued although their buffers are gone.
\<close>

theorem uring_write_batch_safe:
  assumes "uring_contract kern" and "uring_ready w" and "list_all wf_message ms"
    and "uring_write_batch kern ms w = (r, w')" and "cs = chunks (unat (u_depth w)) ms"
  shows "inflight (u_ring w') = [] \<and>
    (\<exists>j\<le>length cs. u_offset w' = u_offset w + of_nat (length (concat (take j cs))) * 64 \<and>
      (case r of
         Inr n \<Rightarrow> n = length ms \<and> j = length cs \<and> concat cs = ms \<and> enters (u_ring w') = enters (u_ring w) + j \<and>
           quiet_ring (u_ring w')
       | Inl e \<Rightarrow> j < length cs \<and> enters (u_ring w') = enters (u_ring w) + j + 1 \<and>
           (sq (u_ring w') = [] \<or> sq (u_ring w') = record_ops (u_offset w') (map encode (cs ! j)))))"
proof -
  have d: "0 < unat (u_depth w)" and q: "quiet_ring (u_ring w)"
    using assms(2) by (simp_all add: uring_ready_def)
  have fits: "\<forall>c\<in>set cs. length c \<le> entries (u_ring w) \<and> list_all wf_message c"
    unfolding assms(5) using chunks_wf [OF d assms(3)] assms(2) by (fastforce simp: uring_ready_def)
  have "uring_loop kern cs 0 w = (r, w')"
    using assms(4,5) d by (simp add: uring_write_batch_def Let_def)
  note loop = uring_loop_contract [OF assms(1) q fits this]
  have ms: "concat cs = ms" unfolding assms(5) by (rule concat_chunks [OF d])
  show ?thesis using loop unfolding ms by (cases r) auto
qed

definition full_disk_kernel :: uring_kernel where
  "full_disk_kernel = scripted (\<lambda>n. if n = 0 then Some (\<lambda>_. - 28) else Some all_written)"

lemma full_disk_contract: "uring_contract full_disk_kernel"
  unfolding full_disk_kernel_def by (rule scripted_contract) (auto simp: all_written_def split: if_splits)

lemma full_disk_leftover:
  "\<exists>w'. uring_write_batch full_disk_kernel [ex_message, ex_message] ex_uring = (Inl (Io (Os 28)), w') \<and>
     cq (u_ring w') = [- 28] \<and> sq (u_ring w') = [] \<and> inflight (u_ring w') = [] \<and> u_offset w' = 0 \<and>
     u_depth w' = 2 \<and> entries (u_ring w') = 2"
proof -
  have "chunks 2 [ex_message, ex_message] = [[ex_message, ex_message]]" by (simp add: chunks_step)
  then show ?thesis
    by (simp add: uring_write_batch_def uring_chunk_quiet ex_uring_def quiet_ring_def ex_message_wf
        full_disk_kernel_def scripted_def Let_def record_ops_def)
qed

theorem uring_write_batch_safe_witness:
  "\<exists>w'. uring_write_batch full_disk_kernel [ex_message, ex_message] ex_uring = (Inl (Io (Os 28)), w') \<and>
     inflight (u_ring w') = [] \<and> u_offset w' = 0 \<and> enters (u_ring w') = 1"
proof -
  obtain w' where w': "uring_write_batch full_disk_kernel [ex_message, ex_message] ex_uring = (Inl (Io (Os 28)), w')"
    using full_disk_leftover by blast
  have "list_all wf_message [ex_message, ex_message]" by (simp add: ex_message_wf)
  note safe = uring_write_batch_safe [OF full_disk_contract ex_uring_ready this w' refl]
  have cs: "chunks (unat (u_depth ex_uring)) [ex_message, ex_message] = [[ex_message, ex_message]]"
    by (simp add: ex_uring_def chunks_step)
  from safe have "u_offset w' = u_offset ex_uring \<and> enters (u_ring w') = enters (u_ring ex_uring) + 1"
    unfolding cs by auto
  with safe w' show ?thesis by (simp add: ex_uring_def)
qed

lemma uring_batch_first:
  assumes "0 < unat (u_depth w)" "ms \<noteq> []" "uring_chunk kern (take (unat (u_depth w)) ms) w = (Inl e, w')"
  shows "uring_write_batch kern ms w = (Inl e, w')"
  using assms by (simp add: uring_write_batch_def Let_def chunks_step)

lemma push_all_full:
  "length (sq u) \<le> entries u \<Longrightarrow> entries u < length (sq u) + length ops \<Longrightarrow> fst (push_all ops u) = Inl (Panicked Unwrapped)"
  by (induction ops u rule: push_all.induct) auto

text \<open>
  C40: A refused submission.  \<open>write_batch\<close> returns the error, but the writes of its first chunk
  stay queued while the byte buffers they point to are freed on return; nothing was written.
  The next batch whose first chunk does not fit beside them panics.
\<close>

theorem uring_refused_submission:
  assumes "uring_ready w" "list_all wf_message ms" "ms \<noteq> []"
    and "kern (enters (u_ring w)) (length (take (unat (u_depth w)) ms)) 0
           (record_ops (u_offset w) (map encode (take (unat (u_depth w)) ms))) = Refused e"
  shows "\<exists>w'. uring_write_batch kern ms w = (Inl (Io (Os e)), w') \<and>
    sq (u_ring w') = record_ops (u_offset w) (map encode (take (unat (u_depth w)) ms)) \<and>
    u_file w' = u_file w \<and> u_offset w' = u_offset w \<and>
    (\<forall>kern' ms'. list_all wf_message ms' \<longrightarrow>
       entries (u_ring w) < length (take (unat (u_depth w)) ms) + length (take (unat (u_depth w)) ms') \<longrightarrow>
       fst (uring_write_batch kern' ms' w') = Inl (Panicked Unwrapped))"
proof -
  let ?d = "unat (u_depth w)" and ?c = "take (unat (u_depth w)) ms"
  have d: "0 < ?d" "?d \<le> entries (u_ring w)" and q: "quiet_ring (u_ring w)"
    using assms(1) by (simp_all add: uring_ready_def)
  have wf: "list_all wf_message ?c"
    using assms(2) by (auto simp: list_all_iff dest: in_set_takeD)
  define w' where "w' = w\<lparr>u_ring := (u_ring w)\<lparr>sq := chunk_ops w ?c, enters := enters (u_ring w) + 1\<rparr>\<rparr>"
  have "uring_chunk kern ?c w = (Inl (Io (Os e)), w')"
    using uring_chunk_quiet [OF q _ wf, of kern] d assms(4) by (simp add: w'_def)
  then have res: "uring_write_batch kern ms w = (Inl (Io (Os e)), w')"
    by (rule uring_batch_first [OF d(1) assms(3)])
  have "fst (uring_write_batch kern' ms' w') = Inl (Panicked Unwrapped)"
    if "list_all wf_message ms'" and full: "entries (u_ring w) < length ?c + length (take ?d ms')" for kern' ms'
  proof -
    let ?c' = "take ?d ms'"
    have w': "u_depth w' = u_depth w" by (simp add: w'_def)
    have ne: "ms' \<noteq> []" using full d(2) by (auto simp: min_def split: if_splits)
    have "list_all wf_message ?c'" using that(1) by (auto simp: list_all_iff dest: in_set_takeD)
    then have "collect_bytes ?c' = Inr (map encode ?c')" by (rule collect_bytes_eq)
    moreover have "fst (push_all (chunk_ops w' ?c') (u_ring w')) = Inl (Panicked Unwrapped)"
      using full d(2) by (intro push_all_full) (simp_all add: w'_def)
    ultimately have "fst (uring_chunk kern' ?c' w') = Inl (Panicked Unwrapped)"
      by (cases "push_all (chunk_ops w' ?c') (u_ring w')") (simp add: uring_chunk_def)
    then obtain v where "uring_chunk kern' (take (unat (u_depth w')) ms') w' = (Inl (Panicked Unwrapped), v)"
      using w' by (metis prod.collapse)
    from uring_batch_first [OF _ ne this] d(1) w' show ?thesis by simp
  qed
  with res show ?thesis by (auto simp: w'_def)
qed

theorem uring_refused_submission_witness:
  "\<exists>w'. uring_write_batch (\<lambda>_ _ _ _. Refused 16) [ex_message, ex_message] ex_uring = (Inl (Io (Os 16)), w') \<and>
     length (sq (u_ring w')) = 2 \<and>
     fst (uring_write_batch good_kernel [ex_message] w') = Inl (Panicked Unwrapped)"
proof -
  have wf: "list_all wf_message [ex_message, ex_message]" "list_all wf_message [ex_message]"
    by (simp_all add: ex_message_wf)
  have u: "unat (u_depth ex_uring) = 2" "entries (u_ring ex_uring) = 2" by (simp_all add: ex_uring_def)
  from uring_refused_submission [OF ex_uring_ready wf(1), of "\<lambda>_ _ _ _. Refused 16" 16] obtain w' where
    "uring_write_batch (\<lambda>_ _ _ _. Refused 16) [ex_message, ex_message] ex_uring = (Inl (Io (Os 16)), w')"
    "sq (u_ring w') = record_ops (u_offset ex_uring) (map encode (take 2 [ex_message, ex_message]))"
    "\<forall>kern' ms'. list_all wf_message ms' \<longrightarrow> 2 < length [ex_message, ex_message] + length (take 2 ms') \<longrightarrow>
       fst (uring_write_batch kern' ms' w') = Inl (Panicked Unwrapped)"
    by (auto simp: u)
  with wf(2) show ?thesis by auto
qed

text \<open>
  A stale completion.  When an earlier batch has returned at its first failed write and left
  the completions behind it unread, the next batch reports such a leftover error as its own,
  although all of its writes succeed, and its offset does not advance.
\<close>

lemma uring_stale_completion:
  assumes "full_writes kern" and "sq (u_ring w) = []" "inflight (u_ring w) = []"
    and "cq (u_ring w) = res # rest" and "res < 0"
    and "0 < unat (u_depth w)" "unat (u_depth w) \<le> entries (u_ring w)" and "list_all wf_message ms" "ms \<noteq> []"
  shows "\<exists>w'. uring_write_batch kern ms w = (Inl (Io (Os (nat (- res)))), w') \<and> u_offset w' = u_offset w"
proof -
  let ?c = "take (unat (u_depth w)) ms"
  have wf: "list_all wf_message ?c"
    using assms(8) by (auto simp: list_all_iff dest: in_set_takeD)
  obtain comps where
    "kern (enters (u_ring w)) (length ?c) (length (cq (u_ring w))) (chunk_ops w ?c) = Entered comps"
    using assms(1) unfolding full_writes_def by blast
  then have "\<exists>w'. uring_chunk kern ?c w = (Inl (Io (Os (nat (- res)))), w') \<and> u_offset w' = u_offset w"
    using assms(2-5,7) wf
    by (auto simp: uring_chunk_def collect_bytes_eq push_all_room submit_and_wait_def)
  with uring_batch_first [OF assms(6,9)] show ?thesis by blast
qed

lemma uring_stale_completion_example:
  "\<exists>w1 w2. uring_write_batch full_disk_kernel [ex_message, ex_message] ex_uring = (Inl (Io (Os 28)), w1) \<and>
     uring_write_batch good_kernel [ex_message] w1 = (Inl (Io (Os 28)), w2) \<and> u_offset w2 = 0"
proof -
  obtain w1 where w1: "uring_write_batch full_disk_kernel [ex_message, ex_message] ex_uring = (Inl (Io (Os 28)), w1)"
      "cq (u_ring w1) = [- 28]" "sq (u_ring w1) = []" "inflight (u_ring w1) = []" "u_offset w1 = 0"
      "u_depth w1 = 2" "entries (u_ring w1) = 2"
    using full_disk_leftover by blast
  have "list_all wf_message [ex_message]" by (simp add: ex_message_wf)
  with uring_stale_completion [OF good_kernel_ok(2) w1(3,4,2)] w1 show ?thesis by auto
qed

definition short_kernel :: uring_kernel where
  "short_kernel = scripted (\<lambda>n. Some (\<lambda>op. min 10 (int (length (op_buf op)))))"

text \<open>
  A short write goes unnoticed: on a kernel that keeps its documented contract but writes only
  the first ten bytes, \<open>write_batch\<close> returns \<open>Ok\<close> and advances the offset by the whole record.
\<close>

lemma uring_short_write_unnoticed:
  "uring_contract short_kernel \<and>
   (\<exists>w'. uring_write_batch short_kernel [ex_message] ex_uring = (Inr 1, w') \<and>
      content (u_file w') = take 10 (encode ex_message) \<and> u_offset w' = 64)"
proof
  show "uring_contract short_kernel"
    unfolding short_kernel_def by (rule scripted_contract) auto
  have "chunks 2 [ex_message] = [[ex_message]]" by (simp add: chunks_step)
  then show "\<exists>w'. uring_write_batch short_kernel [ex_message] ex_uring = (Inr 1, w') \<and>
      content (u_file w') = take 10 (encode ex_message) \<and> u_offset w' = 64"
    by (simp add: uring_write_batch_def uring_chunk_quiet ex_uring_def quiet_ring_def ex_message_wf
        short_kernel_def scripted_def Let_def record_ops_def apply_completion_def ex_file_def pwrite_end [of "[]", simplified])
qed

end
