(* ===== verification/Uring_Fixed.thy ===== *)
theory Uring_Fixed
  imports Uring
begin

text \<open>
  \<open>UringFixedWriter\<close> of \<open>crates/persist/src/lib.rs\<close>: the records of a chunk are packed into one
  registered buffer that lives as long as the writer, and the chunk is written by a single
  operation from its start.  The length of that operation is a 32-bit number.
\<close>

section \<open>State and operations\<close>

record fixed_writer =
  x_ring :: uring
  x_file :: log_file
  x_offset :: u64
  x_buf :: "u8 list"
  x_cap :: usize

text \<open>The replies of opening the file, \<open>IoUring::new(8)\<close> and \<open>register_buffers\<close> are parameters.\<close>

definition fixed_create ::
    "nat option \<Rightarrow> (u32 \<Rightarrow> nat + nat) \<Rightarrow> nat option \<Rightarrow> usize \<Rightarrow> log_file \<Rightarrow> write_error + fixed_writer" where
  "fixed_create failure ring_new register_failure cap f =
     (if \<not> 0 < cap then Inl (Panicked AssertFailed)
      else (case failure of
        Some e \<Rightarrow> Inl (Io (Os e))
      | None \<Rightarrow>
          (case ring_new 8 of
             Inl e \<Rightarrow> Inl (Io (Os e))
           | Inr n \<Rightarrow>
               (let buf = replicate (unat (cap * 64)) 0 in
                case register_failure of
                  Some e \<Rightarrow> Inl (Io (Os e))
                | None \<Rightarrow> Inr \<lparr>x_ring = \<lparr>sq = [], inflight = [], cq = [], entries = n, enters = 0\<rparr>,
                    x_file = f, x_offset = 0, x_buf = buf, x_cap = cap\<rparr>))))"

text \<open>Packing: record \<open>i\<close> goes to bytes \<open>i * 64\<close> to \<open>(i + 1) * 64\<close> of the buffer.\<close>

fun pack :: "nat \<Rightarrow> message list \<Rightarrow> u8 list \<Rightarrow> panic + u8 list" where
  "pack i [] buf = Inr buf"
| "pack i (m # ms) buf =
     and_then (to_bytes m) (\<lambda>b.
     and_then (copy_from_slice buf (i * 64) ((i + 1) * 64) b) (\<lambda>buf'.
     pack (i + 1) ms buf'))"

definition fixed_chunk ::
    "uring_kernel \<Rightarrow> message list \<Rightarrow> fixed_writer \<Rightarrow> (write_error + unit) \<times> fixed_writer" where
  "fixed_chunk kern chunk w =
     (case pack 0 chunk (x_buf w) of
        Inl p \<Rightarrow> (Inl (Panicked p), w)
      | Inr buf \<Rightarrow>
          (let len = of_nat (length chunk * 64) :: u32;
               op = \<lparr>op_off = x_offset w, op_buf = take (unat len) buf\<rparr> in
           case push_all [op] (x_ring w) of
             (Inl e, u) \<Rightarrow> (Inl e, w\<lparr>x_buf := buf, x_ring := u\<rparr>)
           | (Inr _, u) \<Rightarrow>
               (case submit_and_wait kern 1 u (x_file w) of
                  (Inl e, u', f) \<Rightarrow> (Inl e, w\<lparr>x_buf := buf, x_ring := u', x_file := f\<rparr>)
                | (Inr _, u', f) \<Rightarrow>
                    (case drain_completions (cq u') of
                       (Inl e, rest) \<Rightarrow> (Inl e, w\<lparr>x_buf := buf, x_ring := u'\<lparr>cq := rest\<rparr>, x_file := f\<rparr>)
                     | (Inr _, rest) \<Rightarrow>
                         (Inr (), w\<lparr>x_buf := buf, x_ring := u'\<lparr>cq := rest\<rparr>, x_file := f,
                            x_offset := x_offset w + ucast len\<rparr>)))))"

fun fixed_loop ::
    "uring_kernel \<Rightarrow> message list list \<Rightarrow> nat \<Rightarrow> fixed_writer \<Rightarrow> (write_error + nat) \<times> fixed_writer" where
  "fixed_loop kern [] written w = (Inr written, w)"
| "fixed_loop kern (chunk # cs) written w =
     (case fixed_chunk kern chunk w of
        (Inl e, w') \<Rightarrow> (Inl e, w')
      | (Inr _, w') \<Rightarrow> fixed_loop kern cs (written + length chunk) w')"

definition fixed_write_batch ::
    "uring_kernel \<Rightarrow> message list \<Rightarrow> fixed_writer \<Rightarrow> (write_error + nat) \<times> fixed_writer" where
  "fixed_write_batch kern ms w =
     (let cap = unat (x_cap w) in
      if cap = 0 then (Inl (Panicked AssertFailed), w)
      else fixed_loop kern (chunks cap ms) 0 w)"

definition fixed_sync :: "nat option \<Rightarrow> fixed_writer \<Rightarrow> (write_error + unit) \<times> fixed_writer" where
  "fixed_sync failure w = (case sync_data failure (x_file w) of (r, f) \<Rightarrow> (r, w\<lparr>x_file := f\<rparr>))"

section \<open>One chunk\<close>

lemma pack_eq:
  "list_all wf_message ms \<Longrightarrow> 64 * (i + length ms) \<le> length buf \<Longrightarrow>
   pack i ms buf = Inr (take (64 * i) buf @ encode_all ms @ drop (64 * (i + length ms)) buf)"
proof (induction ms arbitrary: i buf)
  case Nil
  then show ?case by simp
next
  case (Cons m ms)
  let ?buf = "take (64 * i) buf @ encode m @ drop (64 * (i + 1)) buf"
  have len: "length (encode m) = 64" using Cons.prems(1) by simp
  have "copy_from_slice buf (i * 64) ((i + 1) * 64) (encode m) = Inr ?buf"
    using Cons.prems(2) len by (simp add: copy_from_slice_def algebra_simps)
  moreover have "pack (i + 1) ms ?buf =
      Inr (take (64 * (i + 1)) ?buf @ encode_all ms @ drop (64 * (i + 1 + length ms)) ?buf)"
    using Cons.prems len by (intro Cons.IH) auto
  moreover have "take (64 * (i + 1)) ?buf = take (64 * i) buf @ encode m"
    using Cons.prems(2) len by simp
  moreover have "drop (64 * (i + 1 + length ms)) ?buf = drop (64 * (i + length (m # ms))) buf"
    using Cons.prems(2) len by (simp add: min_def algebra_simps)
  ultimately show ?case using Cons.prems(1) by (simp add: to_bytes_eq)
qed

text \<open>A writer in order: its ring is quiet and its buffer has room for \<open>cap\<close> records.\<close>

definition fixed_ready :: "fixed_writer \<Rightarrow> bool" where
  "fixed_ready w \<longleftrightarrow> quiet_ring (x_ring w) \<and> 0 < entries (x_ring w) \<and> 0 < unat (x_cap w) \<and>
     64 * unat (x_cap w) < 2 ^ 32 \<and> length (x_buf w) = 64 * unat (x_cap w) \<and>
     unat (x_offset w) \<le> length (content (x_file w))"

lemma fixed_chunk_full:
  assumes contract: "uring_contract kern" and full: "full_writes kern" and ready: "fixed_ready w"
    and fits: "length chunk \<le> unat (x_cap w)" and wf: "list_all wf_message chunk"
    and off: "unat (x_offset w) + 64 * length chunk < 2 ^ 64"
  shows "\<exists>w'. fixed_chunk kern chunk w = (Inr (), w') \<and> fixed_ready w' \<and> x_cap w' = x_cap w \<and>
    enters (x_ring w') = enters (x_ring w) + 1 \<and>
    unat (x_offset w') = unat (x_offset w) + 64 * length chunk \<and>
    durable (x_file w') = durable (x_file w) \<and>
    content (x_file w') = pwrite (unat (x_offset w)) (encode_all chunk) (content (x_file w))"
proof -
  have q: "quiet_ring (x_ring w)" "0 < entries (x_ring w)" and cap: "64 * unat (x_cap w) < 2 ^ 32"
    and buf: "length (x_buf w) = 64 * unat (x_cap w)"
    and offw: "unat (x_offset w) \<le> length (content (x_file w))"
    using ready by (simp_all add: fixed_ready_def)
  define buf' where "buf' = encode_all chunk @ drop (64 * length chunk) (x_buf w)"
  have pack: "pack 0 chunk (x_buf w) = Inr buf'"
    using pack_eq [OF wf, of 0 "x_buf w"] fits buf by (simp add: buf'_def)
  let ?len = "of_nat (length chunk * 64) :: u32"
  have len: "unat ?len = 64 * length chunk"
    using fits cap by (subst unat_of_nat) (simp add: mult.commute)
  let ?op = "\<lparr>op_off = x_offset w, op_buf = take (unat ?len) buf'\<rparr> :: write_op"
  have opb: "op_buf ?op = encode_all chunk"
    using length_encode_all [OF wf] by (simp only: len) (simp add: buf'_def)
  obtain comps where comps: "kern (enters (x_ring w)) (length [?op]) 0 [?op] = Entered comps"
      "\<forall>(op, res)\<in>set comps. res = int (length (op_buf op))"
    using full unfolding full_writes_def by blast
  have same: "mset (map fst comps) = mset [?op]" by (rule contract_complete [OF contract comps(1)])
  then have comps_eq: "comps = [full_result ?op]"
    using comps(2) by (cases comps) (auto simp: full_result_def)
  have "unat (ucast ?len :: u64) = 64 * length chunk"
    using len cap fits by (simp add: unsigned_ucast_eq take_bit_nat_eq_self)
  then have "unat (x_offset w + ucast ?len) = unat (x_offset w) + 64 * length chunk"
    using off by (subst unat_word_ariths) simp
  moreover have "fold apply_completion comps (content (x_file w)) =
      pwrite (unat (x_offset w)) (encode_all chunk) (content (x_file w))"
    using opb by (simp add: comps_eq apply_full)
  moreover have "drain_completions (map snd comps) = (Inr (), [])"
    by (simp add: comps_eq full_result_def)
  moreover have "fold remove1 (map fst comps) [?op] = []" by (simp add: comps_eq full_result_def)
  moreover have "length buf' = length (x_buf w)"
    using fits buf length_encode_all [OF wf] by (simp add: buf'_def)
  ultimately show ?thesis
    using q comps(1) offw pwrite_covers [OF offw, of "encode_all chunk"] length_encode_all [OF wf] ready
    by (auto simp: fixed_chunk_def pack Let_def push_all_room quiet_ring_def submit_and_wait_def fixed_ready_def)
qed

section \<open>A batch\<close>

lemma fixed_loop_full:
  "uring_contract kern \<Longrightarrow> full_writes kern \<Longrightarrow> fixed_ready w \<Longrightarrow>
   \<forall>c\<in>set cs. length c \<le> unat (x_cap w) \<and> list_all wf_message c \<Longrightarrow>
   unat (x_offset w) + 64 * length (concat cs) < 2 ^ 64 \<Longrightarrow>
   \<exists>w'. fixed_loop kern cs n w = (Inr (n + length (concat cs)), w') \<and> fixed_ready w' \<and> x_cap w' = x_cap w \<and>
     enters (x_ring w') = enters (x_ring w) + length cs \<and>
     unat (x_offset w') = unat (x_offset w) + 64 * length (concat cs) \<and>
     content (x_file w') = pwrite (unat (x_offset w)) (encode_all (concat cs)) (content (x_file w))"
proof (induction cs arbitrary: n w)
  case Nil
  then show ?case by simp
next
  case (Cons c cs)
  have wf: "list_all wf_message c" "length c \<le> unat (x_cap w)" using Cons.prems(4) by auto
  have len: "length (encode_all c) = 64 * length c" by (rule length_encode_all [OF wf(1)])
  have off: "unat (x_offset w) \<le> length (content (x_file w))" using Cons.prems(3) by (simp add: fixed_ready_def)
  obtain w1 where w1: "fixed_chunk kern c w = (Inr (), w1)" "fixed_ready w1" "x_cap w1 = x_cap w"
      "enters (x_ring w1) = enters (x_ring w) + 1"
      "unat (x_offset w1) = unat (x_offset w) + 64 * length c"
      "content (x_file w1) = pwrite (unat (x_offset w)) (encode_all c) (content (x_file w))"
    using fixed_chunk_full [OF Cons.prems(1-3) wf(2,1)] Cons.prems(5) by auto
  have "\<exists>w'. fixed_loop kern cs (n + length c) w1 = (Inr (n + length c + length (concat cs)), w') \<and>
     fixed_ready w' \<and> x_cap w' = x_cap w1 \<and>
     enters (x_ring w') = enters (x_ring w1) + length cs \<and>
     unat (x_offset w') = unat (x_offset w1) + 64 * length (concat cs) \<and>
     content (x_file w') = pwrite (unat (x_offset w1)) (encode_all (concat cs)) (content (x_file w1))"
    using Cons.prems w1 by (intro Cons.IH) auto
  then obtain w' where "fixed_loop kern cs (n + length c) w1 = (Inr (n + length c + length (concat cs)), w')"
     "fixed_ready w'" "x_cap w' = x_cap w1" "enters (x_ring w') = enters (x_ring w1) + length cs"
     "unat (x_offset w') = unat (x_offset w1) + 64 * length (concat cs)"
     "content (x_file w') = pwrite (unat (x_offset w1)) (encode_all (concat cs)) (content (x_file w1))"
    by blast
  then show ?case
    using w1 len pwrite_pwrite [OF off, of "encode_all c" "encode_all (concat cs)"]
    by (intro exI [of _ w']) simp
qed

lemma fixed_batch_full:
  assumes "uring_contract kern" "full_writes kern" "fixed_ready w" "list_all wf_message ms"
    and "unat (x_offset w) + 64 * length ms < 2 ^ 64"
  shows "\<exists>w'. fixed_write_batch kern ms w = (Inr (length ms), w') \<and> fixed_ready w' \<and> x_cap w' = x_cap w \<and>
     enters (x_ring w') = enters (x_ring w) + (length ms + unat (x_cap w) - 1) div unat (x_cap w) \<and>
     unat (x_offset w') = unat (x_offset w) + 64 * length ms \<and>
     content (x_file w') = pwrite (unat (x_offset w)) (encode_all ms) (content (x_file w))"
proof -
  have cap: "0 < unat (x_cap w)" using assms(3) by (simp add: fixed_ready_def)
  have "\<forall>c\<in>set (chunks (unat (x_cap w)) ms). length c \<le> unat (x_cap w) \<and> list_all wf_message c"
    using chunks_wf [OF cap assms(4)] by fastforce
  from fixed_loop_full [OF assms(1-3) this, of 0] cap assms(5) show ?thesis
    by (simp add: fixed_write_batch_def Let_def concat_chunks length_chunks)
qed

section \<open>The writer as a \<open>MessageWriter\<close>\<close>

record fixed_world =
  xw_kernel :: uring_kernel
  xw_sync :: "nat option"
  xw_writer :: fixed_writer

definition fixed_batch :: "message list \<Rightarrow> fixed_world \<Rightarrow> ((write_error + nat) \<times> fixed_world) option" where
  "fixed_batch ms W =
     Some (apsnd (\<lambda>w. W\<lparr>xw_writer := w\<rparr>) (fixed_write_batch (xw_kernel W) ms (xw_writer W)))"

definition fixed_sync_world :: "fixed_world \<Rightarrow> (write_error + unit) \<times> fixed_world" where
  "fixed_sync_world W = apsnd (\<lambda>w. W\<lparr>xw_writer := w\<rparr>) (fixed_sync (xw_sync W) (xw_writer W))"

definition fixed_written :: "fixed_world \<Rightarrow> u8 list" where
  "fixed_written W = take (unat (x_offset (xw_writer W))) (content (x_file (xw_writer W)))"

definition fixed_saved :: "fixed_world \<Rightarrow> u8 list" where
  "fixed_saved W = take (unat (x_offset (xw_writer W))) (durable (x_file (xw_writer W)))"

definition fixed_ok :: "fixed_world \<Rightarrow> bool" where
  "fixed_ok W \<longleftrightarrow> uring_contract (xw_kernel W) \<and> full_writes (xw_kernel W) \<and> xw_sync W = None \<and>
     fixed_ready (xw_writer W)"

interpretation fixw: message_writer fixed_batch fixed_sync_world fixed_written fixed_saved fixed_ok
proof
  fix W :: fixed_world and ms
  assume ok: "fixed_ok W"
  let ?w = "xw_writer W"
  show "\<exists>W'. fixed_batch ms W = Some (Inr (length ms), W') \<and> fixed_ok W' \<and>
      fixed_written W' = fixed_written W @ encode_all ms"
    if ms: "list_all wf_message ms" and len: "length (fixed_written W) + 64 * length ms < 2 ^ 63"
  proof -
    have off: "unat (x_offset ?w) \<le> length (content (x_file ?w))"
      using ok by (simp add: fixed_ok_def fixed_ready_def)
    then have "unat (x_offset ?w) + 64 * length ms < 2 ^ 64" using len by (simp add: fixed_written_def)
    then obtain w' where "fixed_write_batch (xw_kernel W) ms ?w = (Inr (length ms), w')" "fixed_ready w'"
        "unat (x_offset w') = unat (x_offset ?w) + length (encode_all ms)"
        "content (x_file w') = pwrite (unat (x_offset ?w)) (encode_all ms) (content (x_file ?w))"
      using fixed_batch_full [of "xw_kernel W" ?w ms] ok ms by (auto simp: fixed_ok_def length_encode_all)
    then show ?thesis
      using ok take_pwrite [OF off, of "encode_all ms"]
      by (auto simp: fixed_batch_def fixed_ok_def fixed_written_def)
  qed
  show "\<exists>W'. fixed_sync_world W = (Inr (), W') \<and> fixed_ok W' \<and> fixed_written W' = fixed_written W \<and>
      fixed_saved W' = fixed_written W"
    using ok by (auto simp: fixed_sync_world_def fixed_sync_def sync_data_def fixed_ok_def fixed_ready_def
        fixed_written_def fixed_saved_def)
qed

section \<open>Properties\<close>

text \<open>
  When submitted writes complete in full and a packed batch stays below \<open>2 ^ 32\<close> bytes,
  \<open>write_batch\<close> returns the batch length and the file holds the encoded batch at the writer's
  offset and is otherwise unchanged; what earlier batches left in the registered buffer never
  reaches the file; a batch takes one submission per \<open>cap_msgs\<close> messages, rounded up.
\<close>

lemma fixed_write_batch_ok:
  assumes "uring_contract kern" "full_writes kern" "fixed_ready w" "list_all wf_message ms"
    and "unat (x_offset w) + 64 * length ms < 2 ^ 64"
  shows "\<exists>w'. fixed_write_batch kern ms w = (Inr (length ms), w') \<and> fixed_ready w' \<and>
     unat (x_offset w') = unat (x_offset w) + 64 * length ms \<and>
     content (x_file w') = pwrite (unat (x_offset w)) (encode_all ms) (content (x_file w)) \<and>
     enters (x_ring w') = enters (x_ring w) + (length ms + unat (x_cap w) - 1) div unat (x_cap w)"
  using fixed_batch_full [OF assms] by blast

definition ex_fixed :: fixed_writer where
  "ex_fixed = \<lparr>x_ring = \<lparr>sq = [], inflight = [], cq = [], entries = 8, enters = 0\<rparr>,
     x_file = ex_file, x_offset = 0, x_buf = replicate 128 7, x_cap = 2\<rparr>"

lemma ex_fixed_ready: "fixed_ready ex_fixed"
  by (simp add: fixed_ready_def ex_fixed_def quiet_ring_def)

lemma fixed_write_batch_ok_example:
  "\<exists>w'. fixed_write_batch good_kernel [ex_message, ex_message, ex_message] ex_fixed = (Inr 3, w') \<and>
     content (x_file w') = encode_all [ex_message, ex_message, ex_message] \<and> enters (x_ring w') = 2"
proof -
  have "list_all wf_message [ex_message, ex_message, ex_message]" by (simp add: ex_message_wf)
  moreover have "content (x_file ex_fixed) = []" "unat (x_offset ex_fixed) = 0" "enters (x_ring ex_fixed) = 0"
      "unat (x_cap ex_fixed) = 2"
    by (simp_all add: ex_fixed_def ex_file_def)
  ultimately show ?thesis
    using fixed_write_batch_ok [OF good_kernel_ok ex_fixed_ready, of "[ex_message, ex_message, ex_message]"]
      pwrite_end [of "[]"]
    by (auto simp: ex_message_wf)
qed

lemma fixed_chunk_wraps:
  assumes "length chunk = 2 ^ 26" "length (x_buf w) = 64 * 2 ^ 26" "list_all wf_message chunk"
    and "uring_contract kern" "full_writes kern" "quiet_ring (x_ring w)" "0 < entries (x_ring w)"
  shows "\<exists>w'. fixed_chunk kern chunk w = (Inr (), w') \<and> x_offset w' = x_offset w \<and>
    content (x_file w') = content (x_file w)"
proof -
  obtain buf where pack: "pack 0 chunk (x_buf w) = Inr buf"
    using pack_eq [OF assms(3), of 0 "x_buf w"] assms(1,2) by auto
  have len: "(of_nat (length chunk * 64) :: u32) = 0" by (simp add: assms(1))
  let ?op = "\<lparr>op_off = x_offset w, op_buf = []\<rparr> :: write_op"
  obtain comps where comps: "kern (enters (x_ring w)) (length [?op]) 0 [?op] = Entered comps"
      "\<forall>(op, res)\<in>set comps. res = int (length (op_buf op))"
    using assms(5) unfolding full_writes_def by blast
  have "mset (map fst comps) = mset [?op]" by (rule contract_complete [OF assms(4) comps(1)])
  then have "comps = [full_result ?op]"
    using comps(2) by (cases comps) (auto simp: full_result_def)
  then show ?thesis
    using comps(1) assms(6,7)
    by (simp add: fixed_chunk_def pack Let_def len push_all_room quiet_ring_def submit_and_wait_def
        apply_full full_result_def apply_completion_def del: of_nat_mult)
qed

text \<open>
  With \<open>2 ^ 26\<close> messages to a chunk the 32-bit length of the write wraps around to zero: a
  batch of that size is reported as written although no byte of it is and the offset stays.
\<close>

lemma fixed_length_wraps:
  assumes "unat (x_cap w) = 2 ^ 26" "length (x_buf w) = 64 * 2 ^ 26" "length ms = 2 ^ 26"
    and "list_all wf_message ms" "uring_contract kern" "full_writes kern"
    and "quiet_ring (x_ring w)" "0 < entries (x_ring w)"
  shows "\<exists>w'. fixed_write_batch kern ms w = (Inr (length ms), w') \<and> x_offset w' = x_offset w \<and>
    content (x_file w') = content (x_file w)"
proof -
  have "ms \<noteq> []" using assms(3) by auto
  then have "chunks (unat (x_cap w)) ms = [ms]"
    using assms(1,3) by (simp add: chunks_step)
  moreover obtain w' where "fixed_chunk kern ms w = (Inr (), w')" "x_offset w' = x_offset w"
      "content (x_file w') = content (x_file w)"
    using fixed_chunk_wraps [OF assms(3,2,4-8)] by blast
  ultimately show ?thesis using assms(1) by (simp add: fixed_write_batch_def Let_def)
qed

lemma fixed_length_wraps_example:
  "\<exists>w'. fixed_write_batch good_kernel (replicate (2 ^ 26) ex_message)
       (ex_fixed\<lparr>x_buf := replicate (64 * 2 ^ 26) 0, x_cap := 2 ^ 26\<rparr>) = (Inr (2 ^ 26), w') \<and>
     content (x_file w') = []"
proof -
  define ms where "ms = replicate (2 ^ 26) ex_message"
  define buf :: "u8 list" where "buf = replicate (64 * 2 ^ 26) 0"
  let ?w = "ex_fixed\<lparr>x_buf := buf, x_cap := 2 ^ 26\<rparr>"
  have ms: "length ms = 2 ^ 26" "list_all wf_message ms" and buf: "length buf = 64 * 2 ^ 26"
    unfolding ms_def buf_def by (rule length_replicate, simp add: list_all_length ex_message_wf, rule length_replicate)
  have "unat (x_cap ?w) = 2 ^ 26" "quiet_ring (x_ring ?w)" "0 < entries (x_ring ?w)" "content (x_file ?w) = []"
      "x_buf ?w = buf"
    by (simp_all add: ex_fixed_def ex_file_def quiet_ring_def)
  with fixed_length_wraps [of ?w ms, OF _ _ ms good_kernel_ok] ms(1) buf
  have "\<exists>w'. fixed_write_batch good_kernel ms ?w = (Inr (2 ^ 26), w') \<and> content (x_file w') = []" by auto
  then show ?thesis unfolding ms_def buf_def .
qed

end
