(* ===== verification/Persist.thy ===== *)
theory Persist
  imports Std_Writer Uring_Writer Uring_Fixed
begin

text \<open>
  The three writers of \<open>crates/persist/src/lib.rs\<close> side by side: what they leave in a log that
  they create or open, and what they promise through the trait they share.
\<close>

section \<open>Opening\<close>

lemma std_create_Inr: "std_create failure f = Inr w \<longleftrightarrow> failure = None \<and> w = \<lparr>wbuf = [], std_file = f\<rparr>"
  by (auto simp: std_create_def split: option.splits)

lemma uring_create_Inr:
  "uring_create failure ring_new depth f = Inr w \<longleftrightarrow> failure = None \<and>
     (\<exists>n. ring_new depth = Inr n \<and>
        w = \<lparr>u_ring = \<lparr>sq = [], inflight = [], cq = [], entries = n, enters = 0\<rparr>,
             u_file = f, u_offset = 0, u_depth = depth\<rparr>)"
  by (auto simp: uring_create_def split: option.splits sum.splits)

lemma fixed_create_Inr:
  "fixed_create failure ring_new reg cap f = Inr w \<longleftrightarrow> failure = None \<and> reg = None \<and> 0 < cap \<and>
     (\<exists>n. ring_new 8 = Inr n \<and>
        w = \<lparr>x_ring = \<lparr>sq = [], inflight = [], cq = [], entries = n, enters = 0\<rparr>,
             x_file = f, x_offset = 0, x_buf = replicate (unat (cap * 64)) 0, x_cap = cap\<rparr>)"
  by (auto simp: fixed_create_def Let_def split: option.splits sum.splits)

text \<open>What the documentation of \<open>io_uring_setup\<close> promises: at least the entries asked for.\<close>

definition ring_new_contract :: "(u32 \<Rightarrow> nat + nat) \<Rightarrow> bool" where
  "ring_new_contract ring_new \<longleftrightarrow>
     (\<forall>d n. ring_new d = Inr n \<longrightarrow> 0 < unat d \<and> unat d \<le> n)"

lemma uring_create_ready:
  assumes "ring_new_contract ring_new" and "uring_create None ring_new depth f = Inr w"
  shows "uring_ready w"
proof -
  obtain n where n: "ring_new depth = Inr n"
    and w: "w = \<lparr>u_ring = \<lparr>sq = [], inflight = [], cq = [], entries = n, enters = 0\<rparr>,
             u_file = f, u_offset = 0, u_depth = depth\<rparr>"
    using assms(2) by (auto simp: uring_create_Inr)
  have "0 < unat depth \<and> unat depth \<le> n" using assms(1) n unfolding ring_new_contract_def by blast
  then show ?thesis by (simp add: w uring_ready_def quiet_ring_def)
qed

lemma fixed_create_ready:
  assumes "ring_new_contract ring_new" and "fixed_create None ring_new None cap f = Inr w"
    and "64 * unat cap < 2 ^ 32"
  shows "fixed_ready w"
proof -
  obtain n where n: "ring_new 8 = Inr n" "0 < cap"
    and w: "w = \<lparr>x_ring = \<lparr>sq = [], inflight = [], cq = [], entries = n, enters = 0\<rparr>,
             x_file = f, x_offset = 0, x_buf = replicate (unat (cap * 64)) 0, x_cap = cap\<rparr>"
    using assms(2) by (auto simp: fixed_create_Inr)
  have "unat (8 :: u32) \<le> n" using assms(1) n(1) unfolding ring_new_contract_def by blast
  moreover have "unat (cap * 64) = 64 * unat cap"
    using assms(3) by (subst unat_word_ariths) (simp add: mult.commute)
  moreover have "0 < unat cap" using n(2) by (simp add: unat_gt_0 word_gt_0)
  ultimately show ?thesis using assms(3) by (simp add: w fixed_ready_def quiet_ring_def)
qed

lemma writers_on_log:
  assumes "accepts_some os" and "uring_contract kern" "full_writes kern" and "ring_new_contract ring_new"
    and ms: "list_all wf_message ms" "64 * length ms < 2 ^ 64"
    and "std_create None f = Inr s" and "uring_create None ring_new depth f = Inr u"
    and "fixed_create None ring_new None cap f = Inr x" "64 * unat cap < 2 ^ 32"
  shows "\<exists>s' u' x'. std_write_batch os ms s = Some (Inr (length ms), s') \<and>
    uring_write_batch kern ms u = (Inr (length ms), u') \<and>
    fixed_write_batch kern ms x = (Inr (length ms), x') \<and>
    content (std_file s') = content f @ encode_all ms \<and>
    content (u_file u') = encode_all ms @ drop (64 * length ms) (content f) \<and>
    content (x_file x') = content (u_file u')"
proof -
  have s: "std_bytes s = content f" using assms(7) by (simp add: std_create_Inr std_bytes_def)
  have u: "u_offset u = 0" "u_file u = f" using assms(8) by (auto simp: uring_create_Inr)
  have x: "x_offset x = 0" "x_file x = f" using assms(9) by (auto simp: fixed_create_Inr)
  have ready: "uring_ready u" "fixed_ready x"
    using uring_create_ready [OF assms(4,8)] fixed_create_ready [OF assms(4,9,10)] by auto
  have over: "pwrite 0 (encode_all ms) (content f) = encode_all ms @ drop (64 * length ms) (content f)"
    using length_encode_all [OF ms(1)] by (cases "ms = []") (auto simp: pwrite_def)
  obtain s' where "std_write_batch os ms s = Some (Inr (length ms), s')"
      "content (std_file s') = content f @ encode_all ms"
    using std_write_batch_accepts [OF assms(1) ms(1), of s] s by auto
  moreover obtain u' where "uring_write_batch kern ms u = (Inr (length ms), u')"
      "content (u_file u') = encode_all ms @ drop (64 * length ms) (content f)"
    using uring_batch_full [OF assms(2,3), of u ms] ready(1) u ms over by (auto simp: uring_ready_def)
  moreover obtain x' where "fixed_write_batch kern ms x = (Inr (length ms), x')"
      "content (x_file x') = encode_all ms @ drop (64 * length ms) (content f)"
    using fixed_batch_full [OF assms(2,3) ready(2) ms(1)] x ms over by auto
  ultimately show ?thesis by auto
qed

section \<open>Properties\<close>

definition ring_new_pow2 :: "u32 \<Rightarrow> nat + nat" where
  "ring_new_pow2 d = (if d = 0 then Inl 22 else if d \<le> 8 then Inr 8 else if d \<le> 32768 then Inr 32768 else Inl 22)"

lemma ring_new_pow2_contract: "ring_new_contract ring_new_pow2"
  by (auto simp: ring_new_contract_def ring_new_pow2_def word_le_nat_alt unat_gt_0 split: if_splits)

lemma ex_created:
  "std_create None f = Inr \<lparr>wbuf = [], std_file = f\<rparr>"
  "uring_create None ring_new_pow2 2 f = Inr \<lparr>u_ring = \<lparr>sq = [], inflight = [], cq = [], entries = 8, enters = 0\<rparr>,
     u_file = f, u_offset = 0, u_depth = 2\<rparr>"
  "fixed_create None ring_new_pow2 None 4 f = Inr \<lparr>x_ring = \<lparr>sq = [], inflight = [], cq = [], entries = 8, enters = 0\<rparr>,
     x_file = f, x_offset = 0, x_buf = replicate (unat (4 * 64 :: usize)) 0, x_cap = 4\<rparr>"
  by (simp_all add: std_create_def uring_create_def fixed_create_def ring_new_pow2_def word_le_nat_alt word_less_nat_alt)

lemma accepts_three: "accepts_some (\<lambda>n. Wrote 3)"
  by (simp add: accepts_some_def)

text \<open>
  C35: The three writers agree on a log they create, and only there: on a system without failures
  the same batch leaves the same bytes in a log that was empty, but over a log that holds bytes
  \<open>StdWriter\<close> appends, while both \<open>io_uring\<close> writers start at offset 0 and overwrite its
  beginning, keeping only what lies beyond the bytes they write.
\<close>

theorem writers_compared:
  assumes "accepts_some os" and "uring_contract kern" "full_writes kern" and "ring_new_contract ring_new"
    and "list_all wf_message ms" "64 * length ms < 2 ^ 64"
    and "std_create None f = Inr s" and "uring_create None ring_new depth f = Inr u"
    and "fixed_create None ring_new None cap f = Inr x" "64 * unat cap < 2 ^ 32"
  shows "\<exists>s' u' x'. std_write_batch os ms s = Some (Inr (length ms), s') \<and>
    uring_write_batch kern ms u = (Inr (length ms), u') \<and>
    fixed_write_batch kern ms x = (Inr (length ms), x') \<and>
    content (std_file s') = content f @ encode_all ms \<and>
    content (u_file u') = encode_all ms @ drop (64 * length ms) (content f) \<and>
    content (x_file x') = content (u_file u') \<and>
    (content f = [] \<longrightarrow> content (u_file u') = content (std_file s'))"
  using writers_on_log [OF assms] by fastforce

theorem writers_compared_witness:
  "\<exists>s' u'. std_write_batch (\<lambda>n. Wrote 3) [ex_message] \<lparr>wbuf = [], std_file = ex_file\<lparr>content := [1, 2, 3]\<rparr>\<rparr> = Some (Inr 1, s') \<and>
     uring_write_batch good_kernel [ex_message] \<lparr>u_ring = \<lparr>sq = [], inflight = [], cq = [], entries = 8, enters = 0\<rparr>,
       u_file = ex_file\<lparr>content := [1, 2, 3]\<rparr>, u_offset = 0, u_depth = 2\<rparr> = (Inr 1, u') \<and>
     content (std_file s') = [1, 2, 3] @ encode ex_message \<and> content (u_file u') = encode ex_message"
proof -
  have "list_all wf_message [ex_message]" "64 * length [ex_message] < 2 ^ 64"
      "64 * unat (4 :: usize) < 2 ^ 32"
    by (simp_all add: ex_message_wf)
  from writers_compared [OF accepts_three good_kernel_ok ring_new_pow2_contract this(1,2)
      ex_created this(3), of "ex_file\<lparr>content := [1, 2, 3]\<rparr>"]
  show ?thesis by auto
qed

text \<open>
  C13: Through each of the three writers, on a system without failures, any batches followed by
  \<open>sync\<close> are on the disk as one 64-byte record per message in order, and the record with index
  \<open>i\<close> decodes to the \<open>i\<close>-th message.  \<open>StdWriter\<close> needs no more of the system than that every
  call accepts a byte.
\<close>

theorem records_durable:
  assumes "std_ok S" "std_written S = []" and "uring_ok W" "uring_written W = []"
    and "fixed_ok X" "fixed_written X = []"
    and "list_all wf_message (concat mss)" "64 * length (concat mss) < 2 ^ 63"
  shows "(\<exists>s1 s2. write_batches std_batch mss S = Some (Inr (length (concat mss)), s1) \<and>
      std_sync_world s1 = (Inr (), s2) \<and> length (std_saved s2) = 64 * length (concat mss) \<and>
      (\<forall>i<length (concat mss). from_bytes (record_at i (std_saved s2)) = Inr (concat mss ! i))) \<and>
    (\<exists>w1 w2. write_batches uring_batch mss W = Some (Inr (length (concat mss)), w1) \<and>
      uring_sync_world w1 = (Inr (), w2) \<and> length (uring_saved w2) = 64 * length (concat mss) \<and>
      (\<forall>i<length (concat mss). from_bytes (record_at i (uring_saved w2)) = Inr (concat mss ! i))) \<and>
    (\<exists>x1 x2. write_batches fixed_batch mss X = Some (Inr (length (concat mss)), x1) \<and>
      fixed_sync_world x1 = (Inr (), x2) \<and> length (fixed_saved x2) = 64 * length (concat mss) \<and>
      (\<forall>i<length (concat mss). from_bytes (record_at i (fixed_saved x2)) = Inr (concat mss ! i)))"
  using stdw.records_readable [OF assms(1,2,7,8)] urw.records_readable [OF assms(3,4,7,8)]
    fixw.records_readable [OF assms(5-8)] by blast

definition ex_std_world :: std_world where
  "ex_std_world = \<lparr>sw_os = (\<lambda>n. Wrote 5), sw_sync = None, sw_base = 0, sw_writer = ex_std\<rparr>"

definition ex_uring_world :: uring_world where
  "ex_uring_world = \<lparr>uw_kernel = good_kernel, uw_sync = None, uw_writer = ex_uring\<rparr>"

definition ex_fixed_world :: fixed_world where
  "ex_fixed_world = \<lparr>xw_kernel = good_kernel, xw_sync = None, xw_writer = ex_fixed\<rparr>"

lemma ex_worlds:
  "std_ok ex_std_world" "std_written ex_std_world = []" "uring_ok ex_uring_world" "uring_written ex_uring_world = []"
  "fixed_ok ex_fixed_world" "fixed_written ex_fixed_world = []"
proof -
  show "std_ok ex_std_world" "std_written ex_std_world = []"
    by (simp_all add: ex_std_world_def std_ok_def std_written_def accepts_some_def ex_std_def ex_file_def)
  show "uring_ok ex_uring_world" "fixed_ok ex_fixed_world"
    by (simp_all add: ex_uring_world_def ex_fixed_world_def uring_ok_def fixed_ok_def good_kernel_ok
        ex_uring_ready ex_fixed_ready)
  show "uring_written ex_uring_world = []" "fixed_written ex_fixed_world = []"
    by (simp_all add: ex_uring_world_def ex_fixed_world_def uring_written_def fixed_written_def
        ex_uring_def ex_fixed_def)
qed

theorem records_durable_witness:
  "\<exists>s1 s2 w1 w2. write_batches std_batch [[ex_message], [ex_message, ex_message]] ex_std_world = Some (Inr 3, s1) \<and>
    std_sync_world s1 = (Inr (), s2) \<and> from_bytes (record_at 2 (std_saved s2)) = Inr ex_message \<and>
    write_batches uring_batch [[ex_message], [ex_message, ex_message]] ex_uring_world = Some (Inr 3, w1) \<and>
    uring_sync_world w1 = (Inr (), w2) \<and> from_bytes (record_at 2 (uring_saved w2)) = Inr ex_message"
  using records_durable [OF ex_worlds, of "[[ex_message], [ex_message, ex_message]]"]
  by (auto simp: ex_message_wf)

end
