(* ===== verification/Base64.thy ===== *)
theory Base64
  imports Prelude
begin

text \<open>
  \<open>base64_encode\<close>, which \<open>crates/bench/src/main.rs\<close> and \<open>tail_bench.rs\<close> each carry to export
  histograms, with a decoder of the standard alphabet with padding as its specification.
\<close>

section \<open>The encoder\<close>

definition b64_table :: string where
  "b64_table = ''ABCDEFGHIJKLMNOPQRSTUVWXYZabcdefghijklmnopqrstuvwxyz0123456789+/''"

definition b64_push :: "u32 \<Rightarrow> panic + char" where
  "b64_push i = (if unat i < length b64_table then Inr (b64_table ! unat i) else Inl SliceIndex)"

text \<open>\<open>chunk.get(i).copied().unwrap_or(0) as u32\<close>\<close>

definition byte_or_zero :: "u8 list \<Rightarrow> nat \<Rightarrow> u32" where
  "byte_or_zero chunk i = (if i < length chunk then ucast (chunk ! i) else 0)"

definition b64_word :: "u32 \<Rightarrow> u32 \<Rightarrow> u32 \<Rightarrow> u32" where
  "b64_word b0 b1 b2 = (push_bit 16 b0 OR push_bit 8 b1) OR b2"

definition sextet :: "nat \<Rightarrow> u32 \<Rightarrow> u32" where
  "sextet k n = drop_bit k n AND 0x3F"

definition b64_chunk :: "u8 list \<Rightarrow> panic + string" where
  "b64_chunk chunk =
     (if chunk = [] then Inl SliceIndex
      else
        (let n = b64_word (byte_or_zero chunk 0) (byte_or_zero chunk 1) (byte_or_zero chunk 2) in
         and_then (b64_push (sextet 18 n)) (\<lambda>c0.
         and_then (b64_push (sextet 12 n)) (\<lambda>c1.
         and_then (if length chunk > 1 then b64_push (sextet 6 n) else Inr (CHR ''='')) (\<lambda>c2.
         and_then (if length chunk > 2 then b64_push (sextet 0 n) else Inr (CHR ''='')) (\<lambda>c3.
         Inr [c0, c1, c2, c3]))))))"

fun b64_loop :: "u8 list list \<Rightarrow> string \<Rightarrow> panic + string" where
  "b64_loop [] out = Inr out"
| "b64_loop (chunk # cs) out = and_then (b64_chunk chunk) (\<lambda>s. b64_loop cs (out @ s))"

definition base64_encode :: "u8 list \<Rightarrow> panic + string" where
  "base64_encode input = b64_loop (chunks 3 input) []"

section \<open>The decoder\<close>

definition b64_value :: "char \<Rightarrow> u32 option" where
  "b64_value c = map_option of_nat (position (\<lambda>d. d = c) b64_table)"

definition octet :: "nat \<Rightarrow> u32 \<Rightarrow> u8" where
  "octet k n = ucast (drop_bit k n)"

definition join :: "u32 \<Rightarrow> u32 \<Rightarrow> u32 \<Rightarrow> u32 \<Rightarrow> u32" where
  "join v0 v1 v2 v3 = push_bit 18 v0 OR push_bit 12 v1 OR push_bit 6 v2 OR v3"

fun b64_decode :: "string \<Rightarrow> u8 list option" where
  "b64_decode [] = Some []"
| "b64_decode (c0 # c1 # c2 # c3 # cs) =
     (case (b64_value c0, b64_value c1) of
        (Some v0, Some v1) \<Rightarrow>
          if c2 = CHR ''='' \<and> c3 = CHR ''='' \<and> cs = [] then Some [octet 16 (join v0 v1 0 0)]
          else (case b64_value c2 of
                  None \<Rightarrow> None
                | Some v2 \<Rightarrow>
                    if c3 = CHR ''='' \<and> cs = [] then Some [octet 16 (join v0 v1 v2 0), octet 8 (join v0 v1 v2 0)]
                    else (case (b64_value c3, b64_decode cs) of
                            (Some v3, Some bs) \<Rightarrow>
                              Some (octet 16 (join v0 v1 v2 v3) # octet 8 (join v0 v1 v2 v3) #
                                octet 0 (join v0 v1 v2 v3) # bs)
                          | _ \<Rightarrow> None))
      | _ \<Rightarrow> None)"
| "b64_decode _ = None"

section \<open>Characters and sextets\<close>

lemma length_b64_table: "length b64_table = 64"
  by (simp add: b64_table_def)

lemma distinct_b64_table: "distinct b64_table"
  by (simp add: b64_table_def)

lemma pad_not_in_table: "CHR ''='' \<notin> set b64_table"
  by (simp add: b64_table_def)

lemma position_nth: "distinct xs \<Longrightarrow> i < length xs \<Longrightarrow> position (\<lambda>d. d = xs ! i) xs = Some i"
proof (induction xs arbitrary: i)
  case (Cons x xs)
  then show ?case by (cases i) (auto simp: nth_Cons')
qed simp

lemma sextet_less: "unat (sextet k n) < 64"
proof -
  have "unat (drop_bit k n AND (2 ^ 6 - 1)) = unat (drop_bit k n) mod 2 ^ 6" by (rule unat_and_mask) simp
  then show ?thesis by (simp add: sextet_def)
qed

lemma b64_push_sextet:
  obtains c where "b64_push (sextet k n) = Inr c" "b64_value c = Some (sextet k n)" "c \<noteq> CHR ''=''"
    "c \<in> set b64_table"
proof -
  let ?c = "b64_table ! unat (sextet k n)"
  have i: "unat (sextet k n) < length b64_table" using sextet_less by (simp add: length_b64_table)
  then have "b64_push (sextet k n) = Inr ?c" by (simp add: b64_push_def)
  moreover have "b64_value ?c = Some (sextet k n)"
    using position_nth [OF distinct_b64_table i] by (simp add: b64_value_def)
  moreover have "?c \<in> set b64_table" using i by simp
  moreover have "?c \<noteq> CHR ''=''" using \<open>?c \<in> set b64_table\<close> pad_not_in_table by metis
  ultimately show ?thesis using that by blast
qed

text \<open>Bytes come back out of the sextets.\<close>

lemma bit_sextet: "bit (sextet k n) i \<longleftrightarrow> i < 6 \<and> bit n (k + i)"
proof -
  have "(0x3F :: u32) = mask 6" by (simp add: mask_eq_exp_minus_1)
  then have "sextet k n = take_bit 6 (drop_bit k n)" by (simp only: sextet_def take_bit_eq_mask)
  then show ?thesis by (simp add: bit_simps)
qed

text \<open>The word of a chunk, whose missing bytes are zero.\<close>

abbreviation word_of :: "u8 \<Rightarrow> u8 \<Rightarrow> u8 \<Rightarrow> u32" where
  "word_of a b c \<equiv> b64_word (ucast a) (ucast b) (ucast c)"

lemma join_sextets:
  "join (sextet 18 (word_of a b c)) (sextet 12 (word_of a b c)) (sextet 6 (word_of a b c))
     (sextet 0 (word_of a b c)) = word_of a b c"
proof (rule bit_word_eqI)
  fix i
  let ?n = "word_of a b c"
  have "\<not> bit ?n i" if "24 \<le> i" for i
    using that by (auto simp: b64_word_def bit_simps dest: bit_imp_le_length)
  then show "bit (join (sextet 18 ?n) (sextet 12 ?n) (sextet 6 ?n) (sextet 0 ?n)) i = bit ?n i"
    by (cases "i < 6"; cases "i < 12"; cases "i < 18"; cases "i < 24")
      (auto simp: join_def bit_sextet bit_or_iff bit_push_bit_iff dest: bit_imp_le_length)
qed

lemma octets [simp]:
  "octet 16 (word_of a b c) = a" "octet 8 (word_of a b c) = b" "octet 0 (word_of a b c) = c"
  by (rule bit_word_eqI; auto simp: octet_def b64_word_def bit_simps dest: bit_imp_le_length)+

lemma octets_missing [simp]:
  "octet 16 (b64_word (ucast (a :: u8)) (ucast (b :: u8)) 0) = a"
  "octet 8 (b64_word (ucast a) (ucast b) 0) = b" "octet 16 (b64_word (ucast a) 0 0) = a"
  using octets(1,2) [of a b 0] octets(1) [of a 0 0] by simp_all

lemma missing_sextets:
  "sextet 0 (word_of a b 0) = 0" "sextet 6 (word_of a 0 0) = 0" "sextet 0 (word_of a 0 0) = 0"
  by (rule bit_word_eqI; auto simp: b64_word_def bit_sextet bit_simps dest: bit_imp_le_length)+

section \<open>One chunk and all of them\<close>

lemma b64_chunk_3:
  obtains s where "b64_chunk [a, b, c] = Inr s" "length s = 4" "set s \<subseteq> insert (CHR ''='') (set b64_table)"
    "\<And>cs. b64_decode (s @ cs) = map_option (\<lambda>bs. a # b # c # bs) (b64_decode cs)"
proof -
  let ?n = "word_of a b c"
  obtain c0 where c0: "b64_push (sextet 18 ?n) = Inr c0" "b64_value c0 = Some (sextet 18 ?n)" "c0 \<in> set b64_table"
    by (rule b64_push_sextet)
  obtain c1 where c1: "b64_push (sextet 12 ?n) = Inr c1" "b64_value c1 = Some (sextet 12 ?n)" "c1 \<in> set b64_table"
    by (rule b64_push_sextet)
  obtain c2 where c2: "b64_push (sextet 6 ?n) = Inr c2" "b64_value c2 = Some (sextet 6 ?n)" "c2 \<noteq> CHR ''=''"
      "c2 \<in> set b64_table"
    by (rule b64_push_sextet)
  obtain c3 where c3: "b64_push (sextet 0 ?n) = Inr c3" "b64_value c3 = Some (sextet 0 ?n)" "c3 \<noteq> CHR ''=''"
      "c3 \<in> set b64_table"
    by (rule b64_push_sextet)
  show ?thesis
    by (rule that [of "[c0, c1, c2, c3]"])
      (use c0 c1 c2 c3 in \<open>auto simp: b64_chunk_def byte_or_zero_def join_sextets split: option.split\<close>)
qed

lemma b64_chunk_2:
  obtains s where "b64_chunk [a, b] = Inr s" "length s = 4" "set s \<subseteq> insert (CHR ''='') (set b64_table)"
    "b64_decode s = Some [a, b]"
proof -
  let ?n = "word_of a b 0"
  obtain c0 where c0: "b64_push (sextet 18 ?n) = Inr c0" "b64_value c0 = Some (sextet 18 ?n)" "c0 \<in> set b64_table"
    by (rule b64_push_sextet)
  obtain c1 where c1: "b64_push (sextet 12 ?n) = Inr c1" "b64_value c1 = Some (sextet 12 ?n)" "c1 \<in> set b64_table"
    by (rule b64_push_sextet)
  obtain c2 where c2: "b64_push (sextet 6 ?n) = Inr c2" "b64_value c2 = Some (sextet 6 ?n)" "c2 \<noteq> CHR ''=''"
      "c2 \<in> set b64_table"
    by (rule b64_push_sextet)
  note join = join_sextets [of a b 0, unfolded missing_sextets]
  show ?thesis
    by (rule that [of "[c0, c1, c2, CHR ''='']"])
      (use c0 c1 c2 join in \<open>auto simp: b64_chunk_def byte_or_zero_def\<close>)
qed

lemma b64_chunk_1:
  obtains s where "b64_chunk [a] = Inr s" "length s = 4" "set s \<subseteq> insert (CHR ''='') (set b64_table)"
    "b64_decode s = Some [a]"
proof -
  let ?n = "word_of a 0 0"
  obtain c0 where c0: "b64_push (sextet 18 ?n) = Inr c0" "b64_value c0 = Some (sextet 18 ?n)" "c0 \<in> set b64_table"
    by (rule b64_push_sextet)
  obtain c1 where c1: "b64_push (sextet 12 ?n) = Inr c1" "b64_value c1 = Some (sextet 12 ?n)" "c1 \<in> set b64_table"
    by (rule b64_push_sextet)
  note join = join_sextets [of a 0 0, unfolded missing_sextets]
  show ?thesis
    by (rule that [of "[c0, c1, CHR ''='', CHR ''='']"])
      (use c0 c1 join in \<open>auto simp: b64_chunk_def byte_or_zero_def\<close>)
qed

lemma b64_loop_append: "b64_loop cs out = and_then (b64_loop cs []) (\<lambda>s. Inr (out @ s))"
proof (induction cs arbitrary: out)
  case (Cons c cs)
  show ?case
  proof (cases "b64_chunk c")
    case (Inr s)
    then show ?thesis
      using Cons.IH [of "out @ s"] Cons.IH [of s] by (cases "b64_loop cs []") simp_all
  qed simp
qed simp

lemma chunks_3:
  "chunks 3 [a] = [[a]]" "chunks 3 [a, b] = [[a, b]]" "chunks 3 (a # b # c # r) = [a, b, c] # chunks 3 r"
  by (simp_all add: chunks_step numeral_3_eq_3)

lemma base64_encode_spec:
  "\<exists>s. b64_loop (chunks 3 xs) [] = Inr s \<and> length s = 4 * ((length xs + 2) div 3) \<and>
     set s \<subseteq> insert (CHR ''='') (set b64_table) \<and> b64_decode s = Some xs"
proof (induction xs rule: length_induct)
  case (1 xs)
  consider "xs = []" | a where "xs = [a]" | a b where "xs = [a, b]" | a b c r where "xs = a # b # c # r"
    by (metis list.exhaust)
  then show ?case
  proof cases
    case 2
    obtain s where "b64_chunk [a] = Inr s" "length s = 4" "set s \<subseteq> insert (CHR ''='') (set b64_table)"
        "b64_decode s = Some [a]" by (rule b64_chunk_1)
    with 2 show ?thesis by (simp add: chunks_3)
  next
    case 3
    obtain s where "b64_chunk [a, b] = Inr s" "length s = 4" "set s \<subseteq> insert (CHR ''='') (set b64_table)"
        "b64_decode s = Some [a, b]" by (rule b64_chunk_2)
    with 3 show ?thesis by (simp add: chunks_3)
  next
    case 4
    obtain s where s: "b64_loop (chunks 3 r) [] = Inr s" "length s = 4 * ((length r + 2) div 3)"
        "set s \<subseteq> insert (CHR ''='') (set b64_table)" "b64_decode s = Some r"
      using 1 [rule_format, of r] 4 by auto
    obtain t where t: "b64_chunk [a, b, c] = Inr t" "length t = 4" "set t \<subseteq> insert (CHR ''='') (set b64_table)"
        "\<And>cs. b64_decode (t @ cs) = map_option (\<lambda>bs. a # b # c # bs) (b64_decode cs)"
      by (rule b64_chunk_3 [of a b c]) blast
    have "b64_loop (chunks 3 xs) [] = Inr (t @ s)"
      using 4 s(1) t(1) b64_loop_append [of "chunks 3 r" t] by (simp add: chunks_3)
    moreover have "(length r + 3 + 2) div 3 = Suc ((length r + 2) div 3)" by presburger
    then have "length (t @ s) = 4 * ((length xs + 2) div 3)" using 4 s(2) t(2) by simp
    ultimately show ?thesis using 4 s t by (intro exI [of _ "t @ s"]) auto
  qed simp
qed

section \<open>Properties\<close>

text \<open>
  C34: \<open>base64_encode\<close> never panics, uses only the 64 characters of its table and the padding sign,
  gives four characters for every three bytes begun, and decoding gives the input back.
\<close>

theorem base64_roundtrip:
  "\<exists>s. base64_encode xs = Inr s \<and> length s = 4 * ((length xs + 2) div 3) \<and>
     set s \<subseteq> insert (CHR ''='') (set b64_table) \<and> b64_decode s = Some xs"
  unfolding base64_encode_def by (rule base64_encode_spec)

lemma base64_examples:
  "base64_encode [0x4D, 0x61, 0x6E] = Inr ''TWFu''" "base64_encode [0x4D, 0x61] = Inr ''TWE=''"
  "base64_encode [0x4D] = Inr ''TQ==''"
  by code_simp+

end
