(* ===== verification/Writer_Bench.thy ===== *)
theory Writer_Bench
  imports Persist
begin

text \<open>
  The measuring loops of \<open>crates/bench/src/persist_verify.rs\<close> and \<open>persist_bench.rs\<close>, which drive
  any \<open>MessageWriter\<close>, and the construction of the writers they measure.  The clock and the
  floating-point rates are left out: they influence neither what is written nor whether a
  loop ends.
\<close>

section \<open>The loops\<close>

datatype durability = SyncEnd | SyncPerBatch

definition bench_batch :: "nat \<Rightarrow> panic + message list" where
  "bench_batch batch_size =
     collect_all (map (\<lambda>i. message_new (bytes_of ''persist.bench'') (to_le_bytes (of_nat i))) [0..<batch_size])"

text \<open>Every \<open>unwrap\<close> of an error is a panic of the measuring program.\<close>

partial_function (option) time_loop ::
    "(message list \<Rightarrow> 'w \<Rightarrow> ((write_error + nat) \<times> 'w) option) \<Rightarrow> ('w \<Rightarrow> (write_error + unit) \<times> 'w)
      \<Rightarrow> durability \<Rightarrow> nat \<Rightarrow> message list \<Rightarrow> nat \<Rightarrow> 'w \<Rightarrow> ((panic + nat) \<times> 'w) option" where
  "time_loop wb sy dur msg_count msgs done_so_far w =
     (if done_so_far < msg_count
      then (case wb msgs w of
              None \<Rightarrow> None
            | Some rw \<Rightarrow>
                (case fst rw of
                   Inl e \<Rightarrow> Some (Inl Unwrapped, snd rw)
                 | Inr n \<Rightarrow>
                     (if dur = SyncPerBatch
                      then (case fst (sy (snd rw)) of
                              Inl e \<Rightarrow> Some (Inl Unwrapped, snd (sy (snd rw)))
                            | Inr _ \<Rightarrow> time_loop wb sy dur msg_count msgs (done_so_far + n) (snd (sy (snd rw))))
                      else time_loop wb sy dur msg_count msgs (done_so_far + n) (snd rw))))
      else (case fst (sy w) of
              Inl e \<Rightarrow> Some (Inl Unwrapped, snd (sy w))
            | Inr _ \<Rightarrow> Some (Inr done_so_far, snd (sy w))))"

definition time_writer ::
    "(message list \<Rightarrow> 'w \<Rightarrow> ((write_error + nat) \<times> 'w) option) \<Rightarrow> ('w \<Rightarrow> (write_error + unit) \<times> 'w)
      \<Rightarrow> nat \<Rightarrow> durability \<Rightarrow> nat \<Rightarrow> 'w \<Rightarrow> ((panic + nat) \<times> 'w) option" where
  "time_writer wb sy batch_size dur msg_count w =
     (case bench_batch batch_size of
        Inl p \<Rightarrow> Some (Inl p, w)
      | Inr msgs \<Rightarrow> time_loop wb sy dur msg_count msgs 0 w)"

text \<open>\<open>bench_writer\<close> of \<open>persist_bench.rs\<close>: the same loop over a fixed count, one \<open>sync\<close> at the end.\<close>

definition MSG_COUNT :: nat where
  "MSG_COUNT = 500000"

definition bench_writer ::
    "(message list \<Rightarrow> 'w \<Rightarrow> ((write_error + nat) \<times> 'w) option) \<Rightarrow> ('w \<Rightarrow> (write_error + unit) \<times> 'w)
      \<Rightarrow> nat \<Rightarrow> 'w \<Rightarrow> ((panic + nat) \<times> 'w) option" where
  "bench_writer wb sy batch_size w =
     (case bench_batch batch_size of
        Inl p \<Rightarrow> Some (Inl p, w)
      | Inr msgs \<Rightarrow> time_loop wb sy SyncEnd MSG_COUNT msgs 0 w)"

section \<open>The batch\<close>

definition bench_message :: "nat \<Rightarrow> message" where
  "bench_message i = \<lparr>timestamp_ns = 0, topic = pad_to 32 (bytes_of ''persist.bench''),
     payload = pad_to 24 (to_le_bytes (of_nat i))\<rparr>"

lemma bench_batch_eq: "bench_batch n = Inr (map bench_message [0..<n])"
  unfolding bench_batch_def message_new_eq bench_message_def [symmetric] by (rule collect_all_Inr)

lemma wf_bench_message [simp]: "wf_message (bench_message i)"
  by (simp add: bench_message_def)

lemma wf_bench_batch: "list_all wf_message (map bench_message [0..<n])"
  by (simp add: list_all_iff)

section \<open>The loops end, and have written everything\<close>

context message_writer begin

lemma sync_step: "ok w \<Longrightarrow> fst (sync w) = Inr () \<and> ok (snd (sync w)) \<and>
    written (snd (sync w)) = written w \<and> saved (snd (sync w)) = written w"
  using sync_ok [of w] by auto

lemma time_loop_total:
  assumes wf: "list_all wf_message msgs" and ne: "msgs \<noteq> []"
  shows "ok w \<Longrightarrow> length (written w) + 64 * (length msgs * k) < 2 ^ 63 \<Longrightarrow>
    k = (msg_count - done_so_far + length msgs - 1) div length msgs \<Longrightarrow>
    \<exists>w'. time_loop write_batch sync dur msg_count msgs done_so_far w = Some (Inr (done_so_far + length msgs * k), w') \<and>
      ok w' \<and> written w' = written w @ encode_all (concat (replicate k msgs)) \<and> saved w' = written w'"
proof (induction k arbitrary: done_so_far w)
  case 0
  have "msg_count \<le> done_so_far"
  proof (rule ccontr)
    assume "\<not> ?thesis"
    then have "length msgs \<le> msg_count - done_so_far + length msgs - 1" by simp
    then have "1 \<le> (msg_count - done_so_far + length msgs - 1) div length msgs"
      using ne by (simp add: Suc_le_eq div_greater_zero_iff)
    with 0(3) show False by simp
  qed
  then show ?case
    using sync_step [OF 0(1)] by (subst time_loop.simps) (auto simp: prod_eq_iff)
next
  case (Suc k)
  let ?b = "length msgs"
  have lt: "done_so_far < msg_count"
  proof (rule ccontr)
    assume "\<not> ?thesis"
    then show False using Suc.prems(3) ne by simp
  qed
  obtain w1 where w1: "write_batch msgs w = Some (Inr ?b, w1)" "ok w1"
      "written w1 = written w @ encode_all msgs"
    using write_ok [OF Suc.prems(1) wf] Suc.prems(2) by auto
  define w2 where "w2 = (if dur = SyncPerBatch then snd (sync w1) else w1)"
  have w2: "ok w2" "written w2 = written w @ encode_all msgs"
    using sync_step [OF w1(2)] w1 by (auto simp: w2_def)
  have step: "time_loop write_batch sync dur msg_count msgs done_so_far w =
      time_loop write_batch sync dur msg_count msgs (done_so_far + ?b) w2"
    using lt w1(1) sync_step [OF w1(2)] by (subst time_loop.simps) (simp add: w2_def)
  have "msg_count - done_so_far + ?b - 1 = (msg_count - done_so_far - 1) + ?b" using lt ne by simp
  then have "Suc k = Suc ((msg_count - done_so_far - 1) div ?b)"
    using Suc.prems(3) ne by (simp add: div_add_self2)
  moreover have "(msg_count - (done_so_far + ?b) + ?b - 1) div ?b = (msg_count - done_so_far - 1) div ?b"
  proof (cases "done_so_far + ?b \<le> msg_count")
    case True
    then show ?thesis using ne by (metis Nat.add_diff_assoc2 Nat.le_diff_conv2 diff_diff_left add_leD1
        diff_add_inverse2 le_add_diff_inverse2 ordered_cancel_comm_monoid_diff_class.diff_add add.commute)
  next
    case False
    then have "msg_count - done_so_far - 1 < ?b" "msg_count - (done_so_far + ?b) + ?b - 1 < ?b" using lt ne by auto
    then show ?thesis by simp
  qed
  ultimately have "k = (msg_count - (done_so_far + ?b) + ?b - 1) div ?b" by simp
  moreover have "length (written w2) + 64 * (?b * k) < 2 ^ 63"
    using Suc.prems(2) w2(2) length_encode_all [OF wf] by (simp add: algebra_simps)
  ultimately obtain w' where
    "time_loop write_batch sync dur msg_count msgs (done_so_far + ?b) w2 = Some (Inr (done_so_far + ?b + ?b * k), w')"
    "ok w'" "written w' = written w2 @ encode_all (concat (replicate k msgs))" "saved w' = written w'"
    using Suc.IH [OF w2(1)] by blast
  with step w2 show ?case by simp
qed

text \<open>With an empty batch the loop never ends.\<close>

lemma time_loop_empty_Some:
  assumes "time_loop wb sy dur msg_count msgs done_so_far w = Some y"
  shows "wb = write_batch \<longrightarrow> sy = sync \<longrightarrow> msgs = [] \<longrightarrow> ok w \<longrightarrow> length (written w) < 2 ^ 63 \<longrightarrow> msg_count \<le> done_so_far"
proof (rule time_loop.raw_induct [where P = "\<lambda>wb sy dur msg_count msgs done_so_far w y. wb = write_batch \<longrightarrow> sy = sync \<longrightarrow>
    msgs = [] \<longrightarrow> ok w \<longrightarrow> length (written w) < 2 ^ 63 \<longrightarrow> msg_count \<le> done_so_far", OF _ assms])
  fix f :: "(message list \<Rightarrow> 'w \<Rightarrow> ((write_error + nat) \<times> 'w) option) \<Rightarrow> ('w \<Rightarrow> (write_error + unit) \<times> 'w)
      \<Rightarrow> durability \<Rightarrow> nat \<Rightarrow> message list \<Rightarrow> nat \<Rightarrow> 'w \<Rightarrow> ((panic + nat) \<times> 'w) option"
    and wb sy dur msg_count msgs done_so_far w y
  assume IH: "\<And>wb sy dur msg_count msgs done_so_far w y. f wb sy dur msg_count msgs done_so_far w = Some y \<Longrightarrow>
      wb = write_batch \<longrightarrow> sy = sync \<longrightarrow> msgs = [] \<longrightarrow> ok w \<longrightarrow> length (written w) < 2 ^ 63 \<longrightarrow> msg_count \<le> done_so_far"
    and eq: "(if done_so_far < msg_count
      then (case wb msgs w of
              None \<Rightarrow> None
            | Some rw \<Rightarrow>
                (case fst rw of
                   Inl e \<Rightarrow> Some (Inl Unwrapped, snd rw)
                 | Inr n \<Rightarrow>
                     (if dur = SyncPerBatch
                      then (case fst (sy (snd rw)) of
                              Inl e \<Rightarrow> Some (Inl Unwrapped, snd (sy (snd rw)))
                            | Inr _ \<Rightarrow> f wb sy dur msg_count msgs (done_so_far + n) (snd (sy (snd rw))))
                      else f wb sy dur msg_count msgs (done_so_far + n) (snd rw))))
      else (case fst (sy w) of
              Inl e \<Rightarrow> Some (Inl Unwrapped, snd (sy w))
            | Inr _ \<Rightarrow> Some (Inr done_so_far, snd (sy w)))) = Some y"
  show "wb = write_batch \<longrightarrow> sy = sync \<longrightarrow> msgs = [] \<longrightarrow> ok w \<longrightarrow> length (written w) < 2 ^ 63 \<longrightarrow> msg_count \<le> done_so_far"
  proof (intro impI, rule ccontr)
    assume a: "wb = write_batch" "sy = sync" "msgs = []" "ok w" "length (written w) < 2 ^ 63" "\<not> msg_count \<le> done_so_far"
    then obtain w1 where w1: "write_batch [] w = Some (Inr 0, w1)" "ok w1" "written w1 = written w"
      using write_ok [of w "[]"] by auto
    note s = sync_step [OF w1(2)]
    show False
    proof (cases "dur = SyncPerBatch")
      case True
      then have "f write_batch sync dur msg_count [] done_so_far (snd (sync w1)) = Some y"
        using eq a w1 s by simp
      with IH s w1 a show False by fastforce
    next
      case False
      then have "f write_batch sync dur msg_count [] done_so_far w1 = Some y"
        using eq a w1 by simp
      with IH w1 a show False by fastforce
    qed
  qed
qed

lemma time_writer_total:
  assumes "ok w" and "0 < batch" and "length (written w) + 64 * (msg_count + batch) < 2 ^ 63"
  shows "\<exists>w' k. time_writer write_batch sync batch dur msg_count w = Some (Inr (batch * k), w') \<and>
    k = (msg_count + batch - 1) div batch \<and> ok w' \<and>
    written w' = written w @ encode_all (concat (replicate k (map bench_message [0..<batch]))) \<and>
    saved w' = written w'"
proof -
  let ?k = "(msg_count + batch - 1) div batch" and ?ms = "map bench_message [0..<batch]"
  have "batch * ?k \<le> msg_count + batch" by (metis le_diff_conv mult.commute div_times_less_eq_dividend
      diff_le_self le_trans)
  then have "length (written w) + 64 * (length ?ms * ?k) < 2 ^ 63" using assms(3) by simp
  from time_loop_total [OF wf_bench_batch _ assms(1) this, of msg_count 0 dur] assms(2) show ?thesis
    by (auto simp: time_writer_def bench_batch_eq)
qed

lemma time_writer_zero:
  assumes "ok w" "length (written w) < 2 ^ 63" "0 < msg_count"
  shows "time_writer write_batch sync 0 dur msg_count w = None"
proof (cases "time_loop write_batch sync dur msg_count [] 0 w")
  case None
  then show ?thesis by (simp add: time_writer_def bench_batch_eq)
next
  case (Some y)
  from time_loop_empty_Some [OF this] assms show ?thesis by simp
qed

end

section \<open>Building the writers\<close>

definition MAX_BATCH :: nat where
  "MAX_BATCH = 4096"

datatype any_writer = Std std_writer | Uring uring_writer | Fixed fixed_writer

definition unwrap :: "write_error + 'a \<Rightarrow> panic + 'a" where
  "unwrap r = (case r of Inl _ \<Rightarrow> Inl Unwrapped | Inr a \<Rightarrow> Inr a)"

text \<open>
  \<open>build_writer\<close> removes the log file before it opens it, so every writer starts on an empty one.
  The outcomes of opening, of \<open>IoUring::new\<close> and of \<open>register_buffers\<close> are parameters; the
  platform is Linux.
\<close>

definition fresh_log :: log_file where
  "fresh_log = \<lparr>content = [], durable = [], nwrites = 0\<rparr>"

definition build_writer ::
    "nat option \<Rightarrow> (u32 \<Rightarrow> nat + nat) \<Rightarrow> nat option \<Rightarrow> string \<Rightarrow> nat \<Rightarrow> (panic + any_writer) option" where
  "build_writer failure ring_new register_failure kind batch_size =
     (if kind = ''std-BufWriter'' then
        Some (and_then (unwrap (std_create failure fresh_log)) (\<lambda>w. Inr (Std w)))
      else if kind = ''io_uring-Write'' then
        (let depth = of_nat (max (min batch_size 512) 1) :: u32 in
         Some (and_then (unwrap (uring_create failure ring_new depth fresh_log)) (\<lambda>w. Inr (Uring w))))
      else if kind = ''io_uring-WriteFixed'' then
        Some (and_then (unwrap (fixed_create failure ring_new register_failure (of_nat MAX_BATCH) fresh_log))
          (\<lambda>w. Inr (Fixed w)))
      else None)"

definition writer_kinds :: "string list" where
  "writer_kinds = [''std-BufWriter'', ''io_uring-Write'', ''io_uring-WriteFixed'']"

text \<open>A freshly built writer, ready and with nothing written.\<close>

fun built_ok :: "any_writer \<Rightarrow> bool" where
  "built_ok (Std w) \<longleftrightarrow> wbuf w = [] \<and> content (std_file w) = []"
| "built_ok (Uring w) \<longleftrightarrow> uring_ready w \<and> u_offset w = 0 \<and> content (u_file w) = [] \<and> unat (u_depth w) \<le> 512"
| "built_ok (Fixed w) \<longleftrightarrow> fixed_ready w \<and> x_offset w = 0 \<and> content (x_file w) = []"

lemma unwrap_Inr: "unwrap r = Inr a \<longleftrightarrow> r = Inr a"
  by (auto simp: unwrap_def split: sum.splits)

lemma build_uring_ready:
  assumes "ring_new_contract ring_new" and "uring_create failure ring_new depth f = Inr w"
  shows "uring_ready w \<and> u_offset w = 0 \<and> u_file w = f \<and> u_depth w = depth"
proof -
  have "failure = None" using assms(2) by (simp add: uring_create_Inr)
  with uring_create_ready [of ring_new depth f w] assms show ?thesis by (auto simp: uring_create_Inr)
qed

lemma build_fixed_ready:
  assumes "ring_new_contract ring_new" and "fixed_create failure ring_new reg cap f = Inr w"
    and "64 * unat cap < 2 ^ 32"
  shows "fixed_ready w \<and> x_offset w = 0 \<and> x_file w = f"
proof -
  have "failure = None" "reg = None" using assms(2) by (simp_all add: fixed_create_Inr)
  with fixed_create_ready [of ring_new cap f w] assms show ?thesis by (auto simp: fixed_create_Inr)
qed

section \<open>Properties\<close>

lemma nth_concat_replicate:
  "i < length xs * k \<Longrightarrow> concat (replicate k xs) ! i = xs ! (i mod length xs)"
proof (induction k arbitrary: i)
  case (Suc k)
  then show ?case
    by (cases "i < length xs") (auto simp: nth_append not_less mod_if [of i])
qed simp

lemma time_writer_counts:
  assumes "0 < (b :: nat)"
  shows "n \<le> b * ((n + b - 1) div b)" and "b * ((n + b - 1) div b) < n + b"
proof -
  have "b * ((n + b - 1) div b) + (n + b - 1) mod b = n + b - 1" by simp
  moreover have "(n + b - 1) mod b < b" using assms by simp
  ultimately show "n \<le> b * ((n + b - 1) div b)" and "b * ((n + b - 1) div b) < n + b"
    using assms by linarith+
qed

text \<open>The records of a batch written over and over.\<close>

lemma repeated_records:
  assumes "0 < batch"
  shows "length (encode_all (concat (replicate k (map bench_message [0..<batch])))) = 64 * (batch * k) \<and>
    (\<forall>i<batch * k. from_bytes (record_at i (encode_all (concat (replicate k (map bench_message [0..<batch]))))) =
       Inr (bench_message (i mod batch)))"
proof -
  define ms where "ms = map bench_message [0..<batch]"
  have wf: "list_all wf_message (concat (replicate k ms))" by (auto simp: list_all_iff ms_def)
  have len: "length (concat (replicate k ms)) = batch * k"
    by (simp add: length_concat sum_list_replicate mult.commute ms_def)
  have "from_bytes (record_at i (encode_all (concat (replicate k ms)))) = Inr (bench_message (i mod batch))"
    if "i < batch * k" for i
    using from_bytes_record [OF wf, of i] nth_concat_replicate [of i ms k] that assms
    by (simp add: len) (simp add: ms_def)
  then show ?thesis using length_encode_all [OF wf] len by (simp add: ms_def)
qed

text \<open>
  For every writer that keeps the contract of the trait and every batch size above zero, both
  durability modes of \<open>time_writer\<close> end; the number of messages reported is the count asked for
  rounded up to whole batches, and exactly that many records are durable, the batch repeated.
\<close>

lemma time_writer_writes_all:
  assumes "message_writer wb sy written saved ok" and "ok w" "written w = []" "0 < batch"
    and "64 * (msg_count + batch) < 2 ^ 63"
  shows "\<exists>n w'. time_writer wb sy batch dur msg_count w = Some (Inr n, w') \<and>
    msg_count \<le> n \<and> n < msg_count + batch \<and> batch dvd n \<and> length (saved w') = 64 * n \<and>
    (\<forall>i<n. from_bytes (record_at i (saved w')) = Inr (bench_message (i mod batch)))"
proof -
  let ?k = "(msg_count + batch - 1) div batch" and ?ms = "map bench_message [0..<batch]"
  obtain w' where "time_writer wb sy batch dur msg_count w = Some (Inr (batch * ?k), w')"
      "saved w' = encode_all (concat (replicate ?k ?ms))"
    using message_writer.time_writer_total [OF assms(1,2,4), of msg_count dur] assms(3,5) by auto
  then show ?thesis
    using repeated_records [OF assms(4), of ?k] time_writer_counts [OF assms(4), of msg_count]
    by (intro exI [of _ "batch * ?k"] exI [of _ w']) simp
qed

lemma time_writer_writes_all_example:
  "\<exists>n w'. time_writer std_batch std_sync_world 3 SyncPerBatch 10 ex_std_world = Some (Inr n, w') \<and>
     10 \<le> n \<and> n < 13 \<and> from_bytes (record_at 4 (std_saved w')) = Inr (bench_message 1)"
proof -
  obtain n w' where w': "time_writer std_batch std_sync_world 3 SyncPerBatch 10 ex_std_world = Some (Inr n, w')"
      "10 \<le> n" "n < 10 + 3"
      "\<forall>i<n. from_bytes (record_at i (std_saved w')) = Inr (bench_message (i mod 3))"
    using time_writer_writes_all [OF stdw.message_writer_axioms ex_worlds(1,2), of 3 10 SyncPerBatch] by auto
  moreover have "(4 :: nat) mod 3 = 1" by simp
  ultimately show ?thesis by fastforce
qed

text \<open>
  With a batch size of zero \<open>time_writer\<close> never returns: each round writes nothing and the
  count stays where it is.
\<close>

lemma time_writer_empty_batch_diverges:
  assumes "message_writer wb sy written saved ok" and "ok w" "written w = []" "0 < msg_count"
  shows "time_writer wb sy 0 dur msg_count w = None"
  using message_writer.time_writer_zero [OF assms(1,2) _ assms(4)] assms(3) by simp

lemma time_writer_empty_batch_diverges_example:
  "time_writer uring_batch uring_sync_world 0 SyncEnd 10 ex_uring_world = None"
  by (rule time_writer_empty_batch_diverges [OF urw.message_writer_axioms ex_worlds(3,4)]) simp

lemma build_writer_result:
  assumes "ring_new_contract ring_new"
  shows "(build_writer failure ring_new reg kind batch \<noteq> None) = (kind \<in> set writer_kinds) \<and>
    (case build_writer failure ring_new reg kind batch of
       Some (Inr w) \<Rightarrow> built_ok w
     | Some (Inl p) \<Rightarrow> failure \<noteq> None \<or> reg \<noteq> None \<or> (\<exists>d e. 0 < unat d \<and> unat d \<le> 512 \<and> ring_new d = Inl e)
     | None \<Rightarrow> True)"
proof -
  let ?d = "of_nat (max (min batch 512) 1) :: u32"
  have d: "0 < unat ?d" "unat ?d \<le> 512" by (subst unat_of_nat, simp add: max_def min_def)+
  have std: "built_ok (Std w)" if "std_create failure fresh_log = Inr w" for w
    using that by (simp add: std_create_Inr fresh_log_def)
  have uring: "built_ok (Uring w)" if "uring_create failure ring_new ?d fresh_log = Inr w" for w
    using build_uring_ready [OF assms that] d(2) by (simp add: fresh_log_def)
  have "64 * unat (of_nat MAX_BATCH :: usize) < 2 ^ 32" by (simp add: MAX_BATCH_def)
  then have fixed: "built_ok (Fixed w)"
    if "fixed_create failure ring_new reg (of_nat MAX_BATCH) fresh_log = Inr w" for w
    using build_fixed_ready [OF assms that] by (simp add: fresh_log_def)
  have err: "failure \<noteq> None" if "std_create failure fresh_log = Inl e" for e
    using that by (auto simp: std_create_def split: option.splits)
  have err2: "failure \<noteq> None \<or> (\<exists>d e. 0 < unat d \<and> unat d \<le> 512 \<and> ring_new d = Inl e)"
    if "uring_create failure ring_new ?d fresh_log = Inl e" for e
    using that d by (auto simp: uring_create_def split: option.splits sum.splits)
  have eight: "0 < unat (8 :: u32)" "unat (8 :: u32) \<le> 512" by simp_all
  have err3: "failure \<noteq> None \<or> reg \<noteq> None \<or> (\<exists>d e. 0 < unat d \<and> unat d \<le> 512 \<and> ring_new d = Inl e)"
    if "fixed_create failure ring_new reg (of_nat MAX_BATCH) fresh_log = Inl e" for e
    using that by (auto simp: fixed_create_def Let_def MAX_BATCH_def split: option.splits sum.splits if_splits)
      (metis eight neq0_conv)
  show ?thesis
  proof
    show "(build_writer failure ring_new reg kind batch \<noteq> None) = (kind \<in> set writer_kinds)"
      by (simp add: build_writer_def writer_kinds_def Let_def)
    show "case build_writer failure ring_new reg kind batch of
       Some (Inr w) \<Rightarrow> built_ok w
     | Some (Inl p) \<Rightarrow> failure \<noteq> None \<or> reg \<noteq> None \<or> (\<exists>d e. 0 < unat d \<and> unat d \<le> 512 \<and> ring_new d = Inl e)
     | None \<Rightarrow> True"
      using std uring fixed err err2 err3
      by (auto simp: build_writer_def unwrap_def Let_def simp del: built_ok.simps split: sum.split)
  qed
qed

text \<open>
  For every kind listed \<open>build_writer\<close> builds a writer, and, unless a system call fails, one that
  is ready and has an empty log, whatever the batch size, zero included; the ring depth stays
  between 1 and 512.  Any other kind is refused.
\<close>

lemma build_writer_kinds:
  assumes "ring_new_contract ring_new"
  shows "(build_writer failure ring_new reg kind batch \<noteq> None) = (kind \<in> set writer_kinds) \<and>
    (case build_writer failure ring_new reg kind batch of
       Some (Inr w) \<Rightarrow> built_ok w
     | Some (Inl p) \<Rightarrow> failure \<noteq> None \<or> reg \<noteq> None \<or> (\<exists>d e. 0 < unat d \<and> unat d \<le> 512 \<and> ring_new d = Inl e)
     | None \<Rightarrow> True)"
  by (rule build_writer_result [OF assms])

lemma build_writer_kinds_example:
  "\<exists>w. build_writer None ring_new_pow2 None ''io_uring-Write'' 0 = Some (Inr w) \<and> built_ok w"
proof -
  have "1 \<le> (8 :: u32)" by (simp add: word_le_nat_alt)
  then obtain w where "build_writer None ring_new_pow2 None ''io_uring-Write'' 0 = Some (Inr w)"
    by (simp add: build_writer_def unwrap_def uring_create_def ring_new_pow2_def Let_def)
  with build_writer_kinds [OF ring_new_pow2_contract, of None None "''io_uring-Write''" 0] show ?thesis
    by simp
qed

end
