(* ===== verification/Float64.thy ===== *)
theory Float64
  imports Prelude Complex_Main
begin

text \<open>
  The non-negative values of \<open>f64\<close> as the benchmarks use them: exact rationals, infinity and NaN.
  Each operation rounds its exact result; the rounding is a parameter, and it may give infinity
  for a result that is too large.
\<close>

datatype f64 = Fin rat | PInf | NaN

type_synonym rounding = "rat \<Rightarrow> f64"

section \<open>Arithmetic\<close>

fun f_add :: "rounding \<Rightarrow> f64 \<Rightarrow> f64 \<Rightarrow> f64" where
  "f_add rnd (Fin a) (Fin b) = rnd (a + b)"
| "f_add rnd NaN b = NaN"
| "f_add rnd a NaN = NaN"
| "f_add rnd a b = PInf"

fun f_mul :: "rounding \<Rightarrow> f64 \<Rightarrow> f64 \<Rightarrow> f64" where
  "f_mul rnd (Fin a) (Fin b) = rnd (a * b)"
| "f_mul rnd NaN b = NaN"
| "f_mul rnd a NaN = NaN"
| "f_mul rnd PInf b = (if b = Fin 0 then NaN else PInf)"
| "f_mul rnd a PInf = (if a = Fin 0 then NaN else PInf)"

fun f_div :: "rounding \<Rightarrow> f64 \<Rightarrow> f64 \<Rightarrow> f64" where
  "f_div rnd (Fin a) (Fin b) = (if b = 0 then if a = 0 then NaN else PInf else rnd (a / b))"
| "f_div rnd NaN b = NaN"
| "f_div rnd a NaN = NaN"
| "f_div rnd PInf (Fin b) = PInf"
| "f_div rnd (Fin a) PInf = Fin 0"
| "f_div rnd PInf PInf = NaN"

definition f_of_nat :: "rounding \<Rightarrow> nat \<Rightarrow> f64" where
  "f_of_nat rnd n = rnd (of_nat n)"

text \<open>\<open>a > b\<close> and \<open>a >= b\<close>, false as soon as a NaN takes part.\<close>

fun f_gt :: "f64 \<Rightarrow> f64 \<Rightarrow> bool" where
  "f_gt (Fin a) (Fin b) \<longleftrightarrow> b < a"
| "f_gt PInf (Fin b) \<longleftrightarrow> True"
| "f_gt a b \<longleftrightarrow> False"

definition f_ge :: "f64 \<Rightarrow> f64 \<Rightarrow> bool" where
  "f_ge a b \<longleftrightarrow> f_gt a b \<or> a = b \<and> a \<noteq> NaN"

section \<open>The total order that sorting uses\<close>

text \<open>It extends the comparison of floating-point numbers; NaN, which that does not order, comes last.\<close>

instantiation f64 :: linorder
begin

fun less_eq_f64 :: "f64 \<Rightarrow> f64 \<Rightarrow> bool" where
  "less_eq_f64 (Fin a) (Fin b) \<longleftrightarrow> a \<le> b"
| "less_eq_f64 (Fin a) b \<longleftrightarrow> True"
| "less_eq_f64 PInf b \<longleftrightarrow> b = PInf \<or> b = NaN"
| "less_eq_f64 NaN b \<longleftrightarrow> b = NaN"

definition less_f64 :: "f64 \<Rightarrow> f64 \<Rightarrow> bool" where
  "less_f64 a b \<longleftrightarrow> a \<le> b \<and> \<not> b \<le> a"

instance
proof
  fix a b c :: f64
  show "a < b \<longleftrightarrow> a \<le> b \<and> \<not> b \<le> a" by (rule less_f64_def)
  show "a \<le> a" by (cases a) simp_all
  show "a \<le> b \<Longrightarrow> b \<le> c \<Longrightarrow> a \<le> c" by (cases a; cases b; cases c) simp_all
  show "a \<le> b \<Longrightarrow> b \<le> a \<Longrightarrow> a = b" by (cases a; cases b) simp_all
  show "a \<le> b \<or> b \<le> a" by (cases a; cases b) auto
qed

end

lemma f_gt_iff: "f_gt a b \<longleftrightarrow> b < a \<and> a \<noteq> NaN"
  by (cases a; cases b) (auto simp: less_f64_def)

lemma f_ge_iff: "f_ge a b \<longleftrightarrow> b \<le> a \<and> a \<noteq> NaN"
  by (cases a; cases b) (auto simp: f_ge_def)

text \<open>A rounding never makes a NaN of a number, keeps the order, and is exact on doubles.\<close>

definition rounds :: "rounding \<Rightarrow> bool" where
  "rounds rnd \<longleftrightarrow> (\<forall>x. rnd x \<noteq> NaN) \<and> (\<forall>x y. x \<le> y \<longrightarrow> rnd x \<le> rnd y)"

lemma rounds_not_NaN: "rounds rnd \<Longrightarrow> rnd x \<noteq> NaN"
  by (simp add: rounds_def)

text \<open>Where no NaN comes from: a division by a number above zero, a product with one.\<close>

lemma f_div_not_NaN: "rounds rnd \<Longrightarrow> a \<noteq> NaN \<Longrightarrow> b \<noteq> 0 \<Longrightarrow> f_div rnd a (Fin b) \<noteq> NaN"
  by (cases a) (simp_all add: rounds_not_NaN)

lemma f_mul_not_NaN: "rounds rnd \<Longrightarrow> a \<noteq> NaN \<Longrightarrow> b \<noteq> 0 \<Longrightarrow> f_mul rnd a (Fin b) \<noteq> NaN"
  by (cases a) (simp_all add: rounds_not_NaN)

section \<open>The median\<close>

text \<open>
  \<open>median_f64\<close> of \<open>persist_verify.rs\<close>.  Sorting two elements or more compares each of them with
  another, and the comparison of a NaN is unwrapped.
\<close>

definition median_f64 :: "rounding \<Rightarrow> f64 list \<Rightarrow> panic + f64" where
  "median_f64 rnd xs =
     (if xs = [] then Inr (Fin 0)
      else if 2 \<le> length xs \<and> NaN \<in> set xs then Inl Unwrapped
      else let v = sort xs; n = length v in
        Inr (if n mod 2 = 1 then v ! (n div 2)
             else f_div rnd (f_add rnd (v ! (n div 2 - 1)) (v ! (n div 2))) (Fin 2)))"

text \<open>The mean of two doubles lies between them, when doubling a value does not round it.\<close>

lemma mean_between:
  assumes "rounds rnd" and "a \<le> b"
    and "rnd (2 * a) = Fin (2 * a)" "rnd (2 * b) = Fin (2 * b)" "rnd a = Fin a" "rnd b = Fin b"
  shows "Fin a \<le> f_div rnd (f_add rnd (Fin a) (Fin b)) (Fin 2) \<and>
    f_div rnd (f_add rnd (Fin a) (Fin b)) (Fin 2) \<le> Fin b"
proof -
  have mono: "x \<le> y \<Longrightarrow> rnd x \<le> rnd y" for x y using assms(1) by (simp add: rounds_def)
  have lo: "Fin (2 * a) \<le> rnd (a + b)" and hi: "rnd (a + b) \<le> Fin (2 * b)"
    using mono [of "2 * a" "a + b"] mono [of "a + b" "2 * b"] assms(2-4) by simp_all
  then obtain s where s: "rnd (a + b) = Fin s" "2 * a \<le> s" "s \<le> 2 * b"
    by (cases "rnd (a + b)") simp_all
  have "Fin a \<le> rnd (s / 2)" "rnd (s / 2) \<le> Fin b"
    using mono [of a "s / 2"] mono [of "s / 2" b] s(2,3) assms(5,6) by simp_all
  then show ?thesis by (simp add: s(1))
qed

lemma median_f64_total:
  assumes "NaN \<notin> set xs"
  shows "\<exists>m. median_f64 rnd xs = Inr m"
  using assms by (simp add: median_f64_def Let_def)

section \<open>Properties\<close>

text \<open>
  C33: The median of throughputs that are doubles, none too large to be doubled, is a number between
  the smallest and the largest of them, and \<open>median_f64\<close> does not panic on them.
\<close>

theorem median_f64_between:
  assumes "rounds rnd" and "xs \<noteq> []"
    and "\<forall>x\<in>set xs. \<exists>q. x = Fin q \<and> rnd q = Fin q \<and> rnd (2 * q) = Fin (2 * q)"
  shows "\<exists>m. median_f64 rnd xs = Inr m \<and> hd (sort xs) \<le> m \<and> m \<le> last (sort xs)"
proof -
  let ?v = "sort xs" and ?n = "length xs"
  have n: "0 < ?n" using assms(2) by simp
  have ends: "hd ?v \<le> ?v ! i" "?v ! i \<le> last ?v" if "i < ?n" for i
  proof -
    have "?v \<noteq> []" using that by (simp flip: length_0_conv)
    then show "hd ?v \<le> ?v ! i" "?v ! i \<le> last ?v"
      using sorted_nth_mono [OF sorted_sort, of 0 i xs] sorted_nth_mono [OF sorted_sort, of i "?n - 1" xs] that
      by (simp_all add: hd_conv_nth last_conv_nth)
  qed
  have nan: "NaN \<notin> set xs" using assms(3) by auto
  show ?thesis
  proof (cases "?n mod 2 = 1")
    case True
    then show ?thesis using ends [of "?n div 2"] n nan assms(2) by (simp add: median_f64_def Let_def)
  next
    case False
    then have i: "?n div 2 - 1 < ?n" "?n div 2 < ?n" using n by presburger+
    have "?v ! (?n div 2 - 1) \<in> set xs" "?v ! (?n div 2) \<in> set xs"
      using i nth_mem [of _ ?v] by simp_all
    then obtain a b where ab: "?v ! (?n div 2 - 1) = Fin a" "rnd a = Fin a" "rnd (2 * a) = Fin (2 * a)"
        "?v ! (?n div 2) = Fin b" "rnd b = Fin b" "rnd (2 * b) = Fin (2 * b)"
      using assms(3) by metis
    have "?v ! (?n div 2 - 1) \<le> ?v ! (?n div 2)" using i by (intro sorted_nth_mono) auto
    then have "a \<le> b" unfolding ab(1,4) by simp
    note m = mean_between [OF assms(1) this ab(3,6,2,5)]
    have "median_f64 rnd xs = Inr (f_div rnd (f_add rnd (Fin a) (Fin b)) (Fin 2))"
      using False nan assms(2) unfolding median_f64_def Let_def length_sort ab(1,4) by simp
    with m ends(1) [OF i(1)] ends(2) [OF i(2)] show ?thesis
      unfolding ab(1,4) by (meson order_trans)
  qed
qed

lemma rounds_exact: "rounds Fin"
  by (simp add: rounds_def)

theorem median_f64_between_witness:
  "\<exists>m. median_f64 Fin [Fin 4, Fin 1, Fin 3, Fin 2] = Inr m \<and> Fin 1 \<le> m \<and> m \<le> Fin 4"
  using median_f64_between [OF rounds_exact, of "[Fin 4, Fin 1, Fin 3, Fin 2]"] by simp

end
