(* ===== verification/Cells.thy ===== *)
theory Cells
  imports Writer_Bench Float64
begin

text \<open>
  The cells of \<open>crates/bench/src/persist_verify.rs\<close>: \<open>run_cell\<close> measures one kind of writer at one
  batch size and durability, and \<open>main\<close> runs all cells, relates each to the standard writer of its
  group and gives the verdict on the claim.  Parameters: the platform, that is the outcomes of
  opening files, of setting up rings and of writing, the durations measured, and the rounding of
  the floating-point operations.
\<close>

section \<open>A writer of any kind\<close>

text \<open>\<open>Box<dyn MessageWriter>\<close>, together with what it runs on.\<close>

datatype any_world = StdW std_world | UringW uring_world | FixedW fixed_world

fun any_batch :: "message list \<Rightarrow> any_world \<Rightarrow> ((write_error + nat) \<times> any_world) option" where
  "any_batch ms (StdW W) = map_option (apsnd StdW) (std_batch ms W)"
| "any_batch ms (UringW W) = map_option (apsnd UringW) (uring_batch ms W)"
| "any_batch ms (FixedW W) = map_option (apsnd FixedW) (fixed_batch ms W)"

fun any_sync :: "any_world \<Rightarrow> (write_error + unit) \<times> any_world" where
  "any_sync (StdW W) = apsnd StdW (std_sync_world W)"
| "any_sync (UringW W) = apsnd UringW (uring_sync_world W)"
| "any_sync (FixedW W) = apsnd FixedW (fixed_sync_world W)"

fun any_written :: "any_world \<Rightarrow> u8 list" where
  "any_written (StdW W) = std_written W"
| "any_written (UringW W) = uring_written W"
| "any_written (FixedW W) = fixed_written W"

fun any_saved :: "any_world \<Rightarrow> u8 list" where
  "any_saved (StdW W) = std_saved W"
| "any_saved (UringW W) = uring_saved W"
| "any_saved (FixedW W) = fixed_saved W"

fun any_ok :: "any_world \<Rightarrow> bool" where
  "any_ok (StdW W) \<longleftrightarrow> std_ok W"
| "any_ok (UringW W) \<longleftrightarrow> uring_ok W"
| "any_ok (FixedW W) \<longleftrightarrow> fixed_ok W"

interpretation anyw: message_writer any_batch any_sync any_written any_saved any_ok
proof
  fix W :: any_world and ms
  assume ok: "any_ok W"
  show "\<exists>W'. any_batch ms W = Some (Inr (length ms), W') \<and> any_ok W' \<and> any_written W' = any_written W @ encode_all ms"
    if "list_all wf_message ms" "length (any_written W) + 64 * length ms < 2 ^ 63"
    using ok that stdw.write_ok urw.write_ok fixw.write_ok by (cases W) fastforce+
  show "\<exists>W'. any_sync W = (Inr (), W') \<and> any_ok W' \<and> any_written W' = any_written W \<and> any_saved W' = any_written W"
    using ok stdw.sync_ok urw.sync_ok fixw.sync_ok by (cases W) fastforce+
qed

section \<open>The platform\<close>

record platform =
  open_failure :: "nat option"
  ring_new_op :: "u32 \<Rightarrow> nat + nat"
  register_failure :: "nat option"
  os_write :: "nat \<Rightarrow> wreply"
  kernel :: uring_kernel
  sync_failure :: "nat option"

fun deploy :: "platform \<Rightarrow> any_writer \<Rightarrow> any_world" where
  "deploy P (Std w) = StdW \<lparr>sw_os = os_write P, sw_sync = sync_failure P, sw_base = 0, sw_writer = w\<rparr>"
| "deploy P (Uring w) = UringW \<lparr>uw_kernel = kernel P, uw_sync = sync_failure P, uw_writer = w\<rparr>"
| "deploy P (Fixed w) = FixedW \<lparr>xw_kernel = kernel P, xw_sync = sync_failure P, xw_writer = w\<rparr>"

section \<open>One trial and one cell\<close>

fun durability_label :: "durability \<Rightarrow> string" where
  "durability_label SyncEnd = ''sync-end''"
| "durability_label SyncPerBatch = ''sync-per-batch''"

text \<open>The writer is built anew, \<open>expect\<close>ed to exist, and timed; its end state is kept for the proofs.\<close>

definition run_trial ::
    "platform \<Rightarrow> string \<Rightarrow> nat \<Rightarrow> durability \<Rightarrow> nat \<Rightarrow> (panic + (nat \<times> any_world)) option" where
  "run_trial P kind batch dur msgs =
     (case build_writer (open_failure P) (ring_new_op P) (register_failure P) kind batch of
        None \<Rightarrow> Some (Inl Unwrapped)
      | Some (Inl p) \<Rightarrow> Some (Inl p)
      | Some (Inr w) \<Rightarrow>
          (case time_writer any_batch any_sync batch dur msgs (deploy P w) of
             None \<Rightarrow> None
           | Some (Inl p, W) \<Rightarrow> Some (Inl p)
           | Some (Inr ntotal, W) \<Rightarrow> Some (Inr (ntotal, W))))"

text \<open>The two throughputs \<open>time_writer\<close> returns: million messages and mebibytes per second.\<close>

definition throughputs :: "rounding \<Rightarrow> nat \<Rightarrow> f64 \<Rightarrow> f64 \<times> f64" where
  "throughputs rnd ntotal secs =
     (f_div rnd (f_div rnd (f_of_nat rnd ntotal) secs) (Fin 1000000),
      f_div rnd (f_div rnd (f_mul rnd (f_of_nat rnd ntotal) (Fin 64)) secs) (Fin (1024 * 1024)))"

record cell =
  cell_writer :: string
  batch_size :: nat
  cell_durability :: string
  msg_count :: nat
  cell_trials :: nat
  mb_s_per_trial :: "f64 list"
  mmsg_s_median :: f64
  mb_s_median :: f64
  ratio_vs_std :: "f64 option"
  passes_1_5x :: "bool option"

fun cell_loop ::
    "rounding \<Rightarrow> platform \<Rightarrow> string \<Rightarrow> nat \<Rightarrow> durability \<Rightarrow> nat \<Rightarrow> (nat \<Rightarrow> f64) \<Rightarrow> nat list \<Rightarrow> f64 list \<times> f64 list
      \<Rightarrow> (panic + (f64 list \<times> f64 list)) option" where
  "cell_loop rnd P kind batch dur msgs secs [] (mb, mmsg) = Some (Inr (mb, mmsg))"
| "cell_loop rnd P kind batch dur msgs secs (i # is) (mb, mmsg) =
     (case run_trial P kind batch dur msgs of
        None \<Rightarrow> None
      | Some (Inl p) \<Rightarrow> Some (Inl p)
      | Some (Inr (ntotal, W)) \<Rightarrow>
          (let (mm, m) = throughputs rnd ntotal (secs i) in
           cell_loop rnd P kind batch dur msgs secs is (mb @ [m], mmsg @ [mm])))"

definition run_cell ::
    "rounding \<Rightarrow> platform \<Rightarrow> (nat \<Rightarrow> f64) \<Rightarrow> string \<Rightarrow> nat \<Rightarrow> durability \<Rightarrow> nat \<Rightarrow> nat \<Rightarrow> (panic + cell) option" where
  "run_cell rnd P secs kind batch dur msgs trials =
     (case cell_loop rnd P kind batch dur msgs secs [0..<trials] ([], []) of
        None \<Rightarrow> None
      | Some (Inl p) \<Rightarrow> Some (Inl p)
      | Some (Inr (mb, mmsg)) \<Rightarrow>
          Some (and_then (median_f64 rnd mmsg) (\<lambda>mmsg_med.
                and_then (median_f64 rnd mb) (\<lambda>mb_med.
                Inr \<lparr>cell_writer = kind, batch_size = batch, cell_durability = durability_label dur,
                     msg_count = msgs, cell_trials = trials, mb_s_per_trial = mb,
                     mmsg_s_median = mmsg_med, mb_s_median = mb_med,
                     ratio_vs_std = None, passes_1_5x = None\<rparr>))))"

section \<open>All cells and the verdict\<close>

definition BATCH_SIZES :: "nat list" where
  "BATCH_SIZES = [1, 8, 64, 512, 4096]"

text \<open>A program that runs cells may panic, or not return.\<close>

definition and_run :: "(panic + 'a) option \<Rightarrow> ('a \<Rightarrow> (panic + 'b) option) \<Rightarrow> (panic + 'b) option" where
  "and_run r f = (case r of None \<Rightarrow> None | Some (Inl p) \<Rightarrow> Some (Inl p) | Some (Inr a) \<Rightarrow> f a)"

lemma and_run_simps [simp]:
  "and_run None f = None" "and_run (Some (Inl p)) f = Some (Inl p)" "and_run (Some (Inr a)) f = f a"
  by (simp_all add: and_run_def)

text \<open>The kinds of one group, keeping the median of the standard writer; \<open>cell_of\<close> runs a cell.\<close>

fun kinds_loop ::
    "(string \<Rightarrow> nat \<Rightarrow> durability \<Rightarrow> (panic + cell) option) \<Rightarrow> nat \<Rightarrow> durability \<Rightarrow> string list
      \<Rightarrow> f64 option \<times> cell list \<Rightarrow> (panic + (f64 option \<times> cell list)) option" where
  "kinds_loop cell_of batch dur [] (std_med, results) = Some (Inr (std_med, results))"
| "kinds_loop cell_of batch dur (kind # kinds) (std_med, results) =
     and_run (cell_of kind batch dur) (\<lambda>r.
       kinds_loop cell_of batch dur kinds
         (if kind = ''std-BufWriter'' then Some (mb_s_median r) else std_med, results @ [r]))"

definition fill_ratio :: "rounding \<Rightarrow> nat \<Rightarrow> durability \<Rightarrow> f64 \<Rightarrow> cell \<Rightarrow> cell" where
  "fill_ratio rnd batch dur base r =
     (if batch_size r = batch \<and> cell_durability r = durability_label dur
      then let ratio = f_div rnd (mb_s_median r) base;
               r' = r\<lparr>ratio_vs_std := Some ratio\<rparr> in
        (if cell_writer r' = ''io_uring-WriteFixed''
         then r'\<lparr>passes_1_5x := Some (f_ge ratio (Fin (3 / 2)) \<and> batch \<ge> 64)\<rparr> else r')
      else r)"

fun batch_loop ::
    "rounding \<Rightarrow> (string \<Rightarrow> nat \<Rightarrow> durability \<Rightarrow> (panic + cell) option) \<Rightarrow> string list \<Rightarrow> (durability \<times> nat) list
      \<Rightarrow> cell list \<Rightarrow> (panic + cell list) option" where
  "batch_loop rnd cell_of kinds [] results = Some (Inr results)"
| "batch_loop rnd cell_of kinds ((dur, batch) # groups) results =
     and_run (kinds_loop cell_of batch dur kinds (None, results)) (\<lambda>(std_med, results').
       batch_loop rnd cell_of kinds groups
         (case std_med of
            None \<Rightarrow> results'
          | Some base \<Rightarrow> if f_gt base (Fin 0) then map (fill_ratio rnd batch dur base) results' else results'))"

definition verify_cells ::
    "rounding \<Rightarrow> (string \<Rightarrow> nat \<Rightarrow> durability \<Rightarrow> (panic + cell) option) \<Rightarrow> (panic + cell list) option" where
  "verify_cells rnd cell_of =
     batch_loop rnd cell_of writer_kinds
       (concat (map (\<lambda>dur. map (Pair dur) BATCH_SIZES) [SyncEnd, SyncPerBatch])) []"

definition proven :: "cell list \<Rightarrow> bool" where
  "proven results = list_ex (\<lambda>r. passes_1_5x r = Some True) results"

text \<open>The whole of \<open>main\<close>; no cell is run twice, so its durations are given by its key.\<close>

definition persist_verify ::
    "rounding \<Rightarrow> platform \<Rightarrow> (string \<Rightarrow> nat \<Rightarrow> durability \<Rightarrow> nat \<Rightarrow> f64) \<Rightarrow> nat \<Rightarrow> nat \<Rightarrow> (panic + (cell list \<times> bool)) option" where
  "persist_verify rnd P secs msgs trials =
     and_run (verify_cells rnd (\<lambda>kind batch dur. run_cell rnd P (secs kind batch dur) kind batch dur msgs trials))
       (\<lambda>results. Some (Inr (results, proven results)))"

section \<open>A platform without failures\<close>

definition platform_ok :: "platform \<Rightarrow> bool" where
  "platform_ok P \<longleftrightarrow> open_failure P = None \<and> register_failure P = None \<and> sync_failure P = None \<and>
     ring_new_contract (ring_new_op P) \<and>
     (\<forall>d. 0 < unat d \<and> unat d \<le> 512 \<longrightarrow> (\<exists>n. ring_new_op P d = Inr n)) \<and>
     accepts_some (os_write P) \<and> uring_contract (kernel P) \<and> full_writes (kernel P)"

lemma deploy_ok:
  "platform_ok P \<Longrightarrow> built_ok w \<Longrightarrow> any_ok (deploy P w) \<and> any_written (deploy P w) = []"
  by (cases w) (auto simp: platform_ok_def std_ok_def uring_ok_def fixed_ok_def std_written_def
      uring_written_def fixed_written_def)

lemma build_writer_on_platform:
  assumes P: "platform_ok P" and kind: "kind \<in> set writer_kinds"
  shows "\<exists>w. build_writer (open_failure P) (ring_new_op P) (register_failure P) kind batch = Some (Inr w) \<and> built_ok w"
proof -
  have "ring_new_contract (ring_new_op P)" using P by (simp add: platform_ok_def)
  note res = build_writer_result [OF this, of "open_failure P" "register_failure P" kind batch]
  have "ring_new_op P d \<noteq> Inl e" if "0 < unat d" "unat d \<le> 512" for d e
    using P that unfolding platform_ok_def by (metis Inl_Inr_False)
  then have "build_writer (open_failure P) (ring_new_op P) (register_failure P) kind batch \<noteq> Some (Inl p)" for p
    using res P by (auto simp: platform_ok_def)
  moreover obtain r where "build_writer (open_failure P) (ring_new_op P) (register_failure P) kind batch = Some r"
    using res kind by blast
  ultimately show ?thesis using res by (cases r) auto
qed

text \<open>A trial ends, with the count asked for rounded up to whole batches, all of it durable.\<close>

definition whole_batches :: "nat \<Rightarrow> nat \<Rightarrow> nat" where
  "whole_batches batch msgs = batch * ((msgs + batch - 1) div batch)"

lemma run_trial_ok:
  assumes "platform_ok P" and "kind \<in> set writer_kinds" and "0 < batch" and "64 * (msgs + batch) < 2 ^ 63"
  shows "\<exists>W. run_trial P kind batch dur msgs = Some (Inr (whole_batches batch msgs, W)) \<and>
    any_saved W = encode_all (concat (replicate ((msgs + batch - 1) div batch) (map bench_message [0..<batch])))"
proof -
  obtain w where w: "build_writer (open_failure P) (ring_new_op P) (register_failure P) kind batch = Some (Inr w)"
      "built_ok w" using build_writer_on_platform [OF assms(1,2)] by blast
  have ok: "any_ok (deploy P w)" "any_written (deploy P w) = []" using deploy_ok [OF assms(1) w(2)] by simp_all
  obtain W where "time_writer any_batch any_sync batch dur msgs (deploy P w) = Some (Inr (whole_batches batch msgs), W)"
      "any_saved W = encode_all (concat (replicate ((msgs + batch - 1) div batch) (map bench_message [0..<batch])))"
    using anyw.time_writer_total [OF ok(1) assms(3), of msgs dur] assms(4) ok(2)
    by (auto simp: whole_batches_def)
  with w(1) show ?thesis by (simp add: run_trial_def)
qed

text \<open>With a batch size of zero the loop is not left while there is something to write.\<close>

lemma run_trial_empty_batch:
  assumes "platform_ok P" and "kind \<in> set writer_kinds" and "0 < msgs"
  shows "run_trial P kind 0 dur msgs = None"
proof -
  obtain w where w: "build_writer (open_failure P) (ring_new_op P) (register_failure P) kind 0 = Some (Inr w)"
    "built_ok w" using build_writer_on_platform [OF assms(1,2)] by blast
  have "any_ok (deploy P w)" "any_written (deploy P w) = []" using deploy_ok [OF assms(1) w(2)] by simp_all
  then have "time_writer any_batch any_sync 0 dur msgs (deploy P w) = None"
    using anyw.time_writer_zero [of "deploy P w" msgs dur] assms(3) by simp
  with w(1) show ?thesis by (simp add: run_trial_def)
qed

section \<open>A cell on such a platform\<close>

text \<open>Durations are above zero: every trial at least opens and syncs a file.\<close>

definition positive :: "(nat \<Rightarrow> f64) \<Rightarrow> bool" where
  "positive secs \<longleftrightarrow> (\<forall>i. \<exists>q. secs i = Fin q \<and> 0 < q)"

lemma throughputs_not_NaN:
  assumes "rounds rnd" and "positive secs"
  shows "fst (throughputs rnd n (secs i)) \<noteq> NaN \<and> snd (throughputs rnd n (secs i)) \<noteq> NaN"
proof -
  obtain q where q: "secs i = Fin q" "q \<noteq> 0" using assms(2) unfolding positive_def by (metis less_irrefl)
  have "f_of_nat rnd n \<noteq> NaN" by (simp add: f_of_nat_def rounds_not_NaN [OF assms(1)])
  then show ?thesis
    by (simp add: throughputs_def q f_div_not_NaN f_mul_not_NaN assms(1) del: f_div.simps f_mul.simps)
qed

definition mb_of :: "rounding \<Rightarrow> (nat \<Rightarrow> f64) \<Rightarrow> nat \<Rightarrow> nat \<Rightarrow> nat \<Rightarrow> f64 list" where
  "mb_of rnd secs batch msgs trials = map (\<lambda>i. snd (throughputs rnd (whole_batches batch msgs) (secs i))) [0..<trials]"

definition mmsg_of :: "rounding \<Rightarrow> (nat \<Rightarrow> f64) \<Rightarrow> nat \<Rightarrow> nat \<Rightarrow> nat \<Rightarrow> f64 list" where
  "mmsg_of rnd secs batch msgs trials = map (\<lambda>i. fst (throughputs rnd (whole_batches batch msgs) (secs i))) [0..<trials]"

lemma cell_loop_ok:
  assumes "platform_ok P" and "kind \<in> set writer_kinds" and "0 < batch" and "64 * (msgs + batch) < 2 ^ 63"
  shows "cell_loop rnd P kind batch dur msgs secs is (mb, mmsg) =
    Some (Inr (mb @ map (\<lambda>i. snd (throughputs rnd (whole_batches batch msgs) (secs i))) is,
               mmsg @ map (\<lambda>i. fst (throughputs rnd (whole_batches batch msgs) (secs i))) is))"
proof (induction "is" arbitrary: mb mmsg)
  case (Cons i "is")
  obtain W where "run_trial P kind batch dur msgs = Some (Inr (whole_batches batch msgs, W))"
    using run_trial_ok [OF assms] by blast
  then show ?case by (simp add: Cons split: prod.split)
qed simp

lemma run_cell_ok:
  assumes "platform_ok P" and "kind \<in> set writer_kinds" and "0 < batch" and "64 * (msgs + batch) < 2 ^ 63"
    and "rounds rnd" and "positive secs"
  shows "\<exists>r. run_cell rnd P secs kind batch dur msgs trials = Some (Inr r) \<and>
    cell_writer r = kind \<and> batch_size r = batch \<and> cell_durability r = durability_label dur \<and>
    mb_s_per_trial r = mb_of rnd secs batch msgs trials \<and>
    median_f64 rnd (mb_of rnd secs batch msgs trials) = Inr (mb_s_median r) \<and>
    median_f64 rnd (mmsg_of rnd secs batch msgs trials) = Inr (mmsg_s_median r) \<and>
    ratio_vs_std r = None \<and> passes_1_5x r = None"
proof -
  have "NaN \<notin> set (mb_of rnd secs batch msgs trials)" "NaN \<notin> set (mmsg_of rnd secs batch msgs trials)"
    unfolding mb_of_def mmsg_of_def set_map image_iff using throughputs_not_NaN [OF assms(5,6)] by metis+
  then obtain m mm where "median_f64 rnd (mb_of rnd secs batch msgs trials) = Inr m"
      "median_f64 rnd (mmsg_of rnd secs batch msgs trials) = Inr mm"
    using median_f64_total by meson
  moreover have "cell_loop rnd P kind batch dur msgs secs [0..<trials] ([], []) =
      Some (Inr (mb_of rnd secs batch msgs trials, mmsg_of rnd secs batch msgs trials))"
    using cell_loop_ok [OF assms(1-4), of rnd dur secs "[0..<trials]" "[]" "[]"] by (simp add: mb_of_def mmsg_of_def)
  ultimately show ?thesis by (simp add: run_cell_def)
qed

section \<open>All cells\<close>

text \<open>\<open>c k b d\<close> is the cell that running kind \<open>k\<close> at batch size \<open>b\<close> and durability \<open>d\<close> gives.\<close>

definition cells_given ::
    "(string \<Rightarrow> nat \<Rightarrow> durability \<Rightarrow> (panic + cell) option) \<Rightarrow> (string \<Rightarrow> nat \<Rightarrow> durability \<Rightarrow> cell) \<Rightarrow> bool" where
  "cells_given cell_of c \<longleftrightarrow>
     (\<forall>k\<in>set writer_kinds. \<forall>b\<in>set BATCH_SIZES. \<forall>d. cell_of k b d = Some (Inr (c k b d)) \<and>
        cell_writer (c k b d) = k \<and> batch_size (c k b d) = b \<and> cell_durability (c k b d) = durability_label d \<and>
        ratio_vs_std (c k b d) = None \<and> passes_1_5x (c k b d) = None)"

definition group_row ::
    "rounding \<Rightarrow> (string \<Rightarrow> nat \<Rightarrow> durability \<Rightarrow> cell) \<Rightarrow> durability \<Rightarrow> nat \<Rightarrow> string \<Rightarrow> cell" where
  "group_row rnd c d b k =
     (let base = mb_s_median (c ''std-BufWriter'' b d) in
      if f_gt base (Fin 0) then fill_ratio rnd b d base (c k b d) else c k b d)"

definition group_rows ::
    "rounding \<Rightarrow> (string \<Rightarrow> nat \<Rightarrow> durability \<Rightarrow> cell) \<Rightarrow> durability \<times> nat \<Rightarrow> cell list" where
  "group_rows rnd c = (\<lambda>(d, b). map (group_row rnd c d b) writer_kinds)"

definition cell_key :: "cell \<Rightarrow> string \<times> nat" where
  "cell_key r = (cell_durability r, batch_size r)"

lemma durability_label_inj [simp]: "durability_label d = durability_label e \<longleftrightarrow> d = e"
  by (cases d; cases e) simp_all

lemma fill_ratio_keeps [simp]:
  "cell_key (fill_ratio rnd b d base r) = cell_key r" "cell_writer (fill_ratio rnd b d base r) = cell_writer r"
  "mb_s_median (fill_ratio rnd b d base r) = mb_s_median r"
  by (simp_all add: fill_ratio_def cell_key_def Let_def)

lemma fill_ratio_other: "cell_key r \<noteq> (durability_label d, b) \<Longrightarrow> fill_ratio rnd b d base r = r"
  by (auto simp: fill_ratio_def cell_key_def)

lemma kinds_loop_given:
  assumes "cells_given cell_of c" and "b \<in> set BATCH_SIZES"
  shows "kinds_loop cell_of b d writer_kinds (None, results) =
    Some (Inr (Some (mb_s_median (c ''std-BufWriter'' b d)), results @ map (\<lambda>k. c k b d) writer_kinds))"
proof -
  have "cell_of k b d = Some (Inr (c k b d))" if "k \<in> set writer_kinds" for k
    using assms that by (simp add: cells_given_def)
  then show ?thesis by (simp add: writer_kinds_def)
qed

lemma given_key:
  "cells_given cell_of c \<Longrightarrow> k \<in> set writer_kinds \<Longrightarrow> b \<in> set BATCH_SIZES \<Longrightarrow>
   cell_key (c k b d) = (durability_label d, b) \<and> cell_writer (c k b d) = k"
  by (simp add: cells_given_def cell_key_def)

lemma group_row_keeps:
  assumes "cells_given cell_of c" and "k \<in> set writer_kinds" and "b \<in> set BATCH_SIZES"
  shows "cell_key (group_row rnd c d b k) = (durability_label d, b)"
    and "cell_writer (group_row rnd c d b k) = k"
    and "mb_s_median (group_row rnd c d b k) = mb_s_median (c k b d)"
  using given_key [OF assms] by (simp_all add: group_row_def Let_def)

lemma batch_loop_given:
  assumes "cells_given cell_of c"
  shows "distinct groups \<Longrightarrow> \<forall>(d, b)\<in>set groups. b \<in> set BATCH_SIZES \<Longrightarrow>
    \<forall>r\<in>set results. \<forall>(d, b)\<in>set groups. cell_key r \<noteq> (durability_label d, b) \<Longrightarrow>
    batch_loop rnd cell_of writer_kinds groups results =
      Some (Inr (results @ concat (map (group_rows rnd c) groups)))"
proof (induction groups arbitrary: results)
  case Nil
  then show ?case by simp
next
  case (Cons g groups)
  obtain d b where g: "g = (d, b)" by fastforce
  have b: "b \<in> set BATCH_SIZES" using Cons.prems(2) g by simp
  let ?base = "mb_s_median (c ''std-BufWriter'' b d)"
  have old: "map (fill_ratio rnd b d ?base) results = results"
    using Cons.prems(3) g by (intro map_idI fill_ratio_other) auto
  have new: "map (group_row rnd c d b) writer_kinds =
      (if f_gt ?base (Fin 0) then map (fill_ratio rnd b d ?base) (map (\<lambda>k. c k b d) writer_kinds)
       else map (\<lambda>k. c k b d) writer_kinds)"
    by (simp add: group_row_def Let_def)
  have step: "batch_loop rnd cell_of writer_kinds (g # groups) results =
      batch_loop rnd cell_of writer_kinds groups (results @ group_rows rnd c g)"
    using old by (simp add: g kinds_loop_given [OF assms b] group_rows_def new)
  have "cell_key r \<noteq> (durability_label e, b')" if "r \<in> set (group_rows rnd c g)" "(e, b') \<in> set groups" for r e b'
    using that Cons.prems(1) group_row_keeps(1) [OF assms _ b] by (auto simp: group_rows_def g)
  then have "\<forall>r\<in>set (results @ group_rows rnd c g). \<forall>(d, b)\<in>set groups. cell_key r \<noteq> (durability_label d, b)"
    using Cons.prems(3) by auto
  from Cons.IH [OF _ _ this] Cons.prems(1,2) step show ?case by simp
qed

definition all_groups :: "(durability \<times> nat) list" where
  "all_groups = concat (map (\<lambda>dur. map (Pair dur) BATCH_SIZES) [SyncEnd, SyncPerBatch])"

lemma all_groups_props:
  "distinct all_groups" "set all_groups = UNIV \<times> set BATCH_SIZES"
proof -
  show "distinct all_groups" by (simp add: all_groups_def BATCH_SIZES_def)
  have "d = SyncEnd \<or> d = SyncPerBatch" for d by (cases d) simp_all
  then show "set all_groups = UNIV \<times> set BATCH_SIZES" by (auto simp: all_groups_def)
qed

lemma verify_cells_given:
  assumes "cells_given cell_of c"
  shows "verify_cells rnd cell_of = Some (Inr (concat (map (group_rows rnd c) all_groups)))"
  using batch_loop_given [OF assms all_groups_props(1), of "[]" rnd] all_groups_props(2)
  by (auto simp: verify_cells_def all_groups_def)

text \<open>The row of a cell passes exactly for the fixed-buffer writer in a large enough batch.\<close>

lemma group_row_passes:
  assumes "cells_given cell_of c" and "k \<in> set writer_kinds" and "b \<in> set BATCH_SIZES"
  shows "passes_1_5x (group_row rnd c d b k) = Some True \<longleftrightarrow>
    k = ''io_uring-WriteFixed'' \<and> 64 \<le> b \<and> f_gt (mb_s_median (c ''std-BufWriter'' b d)) (Fin 0) \<and>
    f_ge (f_div rnd (mb_s_median (c k b d)) (mb_s_median (c ''std-BufWriter'' b d))) (Fin (3 / 2))"
proof -
  have "passes_1_5x (c k b d) = None" "cell_writer (c k b d) = k" "batch_size (c k b d) = b"
      "cell_durability (c k b d) = durability_label d"
    using assms by (simp_all add: cells_given_def)
  then show ?thesis by (auto simp: group_row_def fill_ratio_def Let_def)
qed

lemma in_all_rows:
  "r \<in> set (concat (map (group_rows rnd c) all_groups)) \<longleftrightarrow>
     (\<exists>d. \<exists>b\<in>set BATCH_SIZES. \<exists>k\<in>set writer_kinds. r = group_row rnd c d b k)"
  using all_groups_props(2) by (fastforce simp: group_rows_def)

text \<open>The verdict, read off the table of rows.\<close>

definition claim_d :: "rounding \<Rightarrow> cell list \<Rightarrow> bool" where
  "claim_d rnd rows \<longleftrightarrow>
     (\<exists>f\<in>set rows. \<exists>s\<in>set rows. cell_writer f = ''io_uring-WriteFixed'' \<and> cell_writer s = ''std-BufWriter'' \<and>
        cell_key f = cell_key s \<and> 64 \<le> batch_size f \<and> f_gt (mb_s_median s) (Fin 0) \<and>
        f_ge (f_div rnd (mb_s_median f) (mb_s_median s)) (Fin (3 / 2)))"

lemma proven_iff_claim:
  assumes c: "cells_given cell_of c"
  shows "proven (concat (map (group_rows rnd c) all_groups)) = claim_d rnd (concat (map (group_rows rnd c) all_groups))"
    (is "proven ?rows = _")
proof
  have std: "''std-BufWriter'' \<in> set writer_kinds" by (simp add: writer_kinds_def)
  {
    assume "proven ?rows"
    then obtain d b k where r: "b \<in> set BATCH_SIZES" "k \<in> set writer_kinds"
        "passes_1_5x (group_row rnd c d b k) = Some True"
      unfolding proven_def list_ex_iff Bex_def in_all_rows by blast
    have "group_row rnd c d b k \<in> set ?rows" "group_row rnd c d b ''std-BufWriter'' \<in> set ?rows"
      using r(1,2) std unfolding in_all_rows by blast+
    moreover have "batch_size (group_row rnd c d b k) = b"
      using group_row_keeps(1) [OF c r(2,1)] by (simp add: cell_key_def)
    ultimately show "claim_d rnd ?rows"
      using r(3) group_row_passes [OF c r(2,1)] group_row_keeps [OF c r(2,1)] group_row_keeps [OF c std r(1)]
      unfolding claim_d_def by (intro bexI [of _ "group_row rnd c d b k"] bexI [of _ "group_row rnd c d b ''std-BufWriter''"]) auto
  next
    assume "claim_d rnd ?rows"
    then obtain d b k e b' k' where r: "b \<in> set BATCH_SIZES" "k \<in> set writer_kinds" "b' \<in> set BATCH_SIZES" "k' \<in> set writer_kinds"
      and f: "cell_writer (group_row rnd c d b k) = ''io_uring-WriteFixed''"
        "cell_writer (group_row rnd c e b' k') = ''std-BufWriter''"
        "cell_key (group_row rnd c d b k) = cell_key (group_row rnd c e b' k')"
        "64 \<le> batch_size (group_row rnd c d b k)" "f_gt (mb_s_median (group_row rnd c e b' k')) (Fin 0)"
        "f_ge (f_div rnd (mb_s_median (group_row rnd c d b k)) (mb_s_median (group_row rnd c e b' k'))) (Fin (3 / 2))"
      unfolding claim_d_def Bex_def [of "set ?rows"] in_all_rows by blast
    have "batch_size (group_row rnd c d b k) = b"
      using group_row_keeps(1) [OF c r(2,1)] by (simp add: cell_key_def)
    moreover have "e = d" "b' = b" "k = ''io_uring-WriteFixed''" "k' = ''std-BufWriter''"
      using f(1-3) group_row_keeps [OF c r(2,1)] group_row_keeps [OF c r(4,3)] by auto
    ultimately have "passes_1_5x (group_row rnd c d b k) = Some True"
      using f(4-6) group_row_passes [OF c r(2,1)] group_row_keeps(3) [OF c r(2,1)] group_row_keeps(3) [OF c r(4,3)] by simp
    moreover have "group_row rnd c d b k \<in> set ?rows" using r(1,2) unfolding in_all_rows by blast
    ultimately show "proven ?rows" unfolding proven_def list_ex_iff by blast
  }
qed

text \<open>
  The verdict looks at the rows of either durability: a row measured with one sync at the end is
  enough, where the plan asks for the rows synced after each batch.
\<close>

lemma any_durability_proves:
  assumes "r \<in> set rows" and "cell_durability r = durability_label SyncEnd" and "passes_1_5x r = Some True"
    and "\<forall>r\<in>set rows. cell_durability r = durability_label SyncPerBatch \<longrightarrow> passes_1_5x r \<noteq> Some True"
  shows "proven rows"
  using assms by (auto simp: proven_def list_ex_iff)

section \<open>Properties\<close>

text \<open>
  C25: On a platform without failures a trial of any kind of writer and durability, with a batch size
  above zero and messages and batch size together below \<open>2 ^ 57\<close>, ends: what it counts is the number
  asked for rounded up to whole batches, and exactly that many records, readable in order, are on the
  disk when the clock stops.  With a batch size of zero and messages to write it does not end.
\<close>

theorem run_trial_durable:
  assumes "platform_ok P" and "kind \<in> set writer_kinds" and "64 * (msgs + batch) < 2 ^ 63"
  shows "if batch = 0 then 0 < msgs \<longrightarrow> run_trial P kind batch dur msgs = None
    else \<exists>n W. run_trial P kind batch dur msgs = Some (Inr (n, W)) \<and>
      msgs \<le> n \<and> n < msgs + batch \<and> batch dvd n \<and> length (any_saved W) = 64 * n \<and>
      (\<forall>i<n. from_bytes (record_at i (any_saved W)) = Inr (bench_message (i mod batch)))"
proof -
  let ?k = "(msgs + batch - 1) div batch" and ?ms = "map bench_message [0..<batch]"
  have "\<exists>n W. run_trial P kind batch dur msgs = Some (Inr (n, W)) \<and>
      msgs \<le> n \<and> n < msgs + batch \<and> batch dvd n \<and> length (any_saved W) = 64 * n \<and>
      (\<forall>i<n. from_bytes (record_at i (any_saved W)) = Inr (bench_message (i mod batch)))" if pos: "0 < batch"
  proof -
    obtain W where W: "run_trial P kind batch dur msgs = Some (Inr (whole_batches batch msgs, W))"
        "any_saved W = encode_all (concat (replicate ?k ?ms))"
      using run_trial_ok [OF assms(1,2) pos assms(3)] by blast
    have "whole_batches batch msgs = batch * ?k" by (simp add: whole_batches_def)
    with W time_writer_counts [OF pos, of msgs] repeated_records [OF pos, of ?k] show ?thesis by auto
  qed
  then show ?thesis using run_trial_empty_batch [OF assms(1,2)] by simp
qed

text \<open>
  The whole run of \<open>persist_verify\<close> on such a platform: it ends without a panic, has one row per
  durability, batch size and writer in that order, and its verdict is read off these rows: it says
  that the claim is met exactly when, in a group of at least 64 messages per batch, the row of
  the fixed-buffer writer has a median at least one and a half times that of the standard writer's
  row, which is above zero.
\<close>

lemma persist_verify_verdict:
  assumes "platform_ok P" and "rounds rnd" and "\<forall>k b d. positive (secs k b d)" and "64 * (msgs + 4096) < 2 ^ 63"
  shows "\<exists>rows. persist_verify rnd P secs msgs trials = Some (Inr (rows, claim_d rnd rows)) \<and>
    map (\<lambda>r. (cell_key r, cell_writer r)) rows =
      concat (map (\<lambda>(d, b). map (Pair (durability_label d, b)) writer_kinds) all_groups)"
proof -
  let ?run = "\<lambda>k b d. run_cell rnd P (secs k b d) k b d msgs trials"
  have size: "0 < b \<and> 64 * (msgs + b) < 2 ^ 63" if "b \<in> set BATCH_SIZES" for b
    using that assms(4) by (auto simp: BATCH_SIZES_def)
  define c where "c k b d = projr (the (?run k b d))" for k b d
  have c: "cells_given ?run c"
    unfolding cells_given_def
  proof (intro ballI allI)
    fix k b d
    assume kb: "k \<in> set writer_kinds" "b \<in> set BATCH_SIZES"
    obtain r where "?run k b d = Some (Inr r)" "cell_writer r = k" "batch_size r = b"
        "cell_durability r = durability_label d" "ratio_vs_std r = None" "passes_1_5x r = None"
      using run_cell_ok [OF assms(1) kb(1), of b msgs rnd "secs k b d" d trials] size [OF kb(2)] assms(2,3) by blast
    then show "?run k b d = Some (Inr (c k b d)) \<and> cell_writer (c k b d) = k \<and> batch_size (c k b d) = b \<and>
        cell_durability (c k b d) = durability_label d \<and> ratio_vs_std (c k b d) = None \<and> passes_1_5x (c k b d) = None"
      by (simp add: c_def)
  qed
  let ?rows = "concat (map (group_rows rnd c) all_groups)"
  have "persist_verify rnd P secs msgs trials = Some (Inr (?rows, claim_d rnd ?rows))"
    by (simp add: persist_verify_def verify_cells_given [OF c] proven_iff_claim [OF c])
  moreover have "map (\<lambda>r. (cell_key r, cell_writer r)) (group_rows rnd c g) =
      (\<lambda>(d, b). map (Pair (durability_label d, b)) writer_kinds) g" if "g \<in> set all_groups" for g
    using that all_groups_props(2) group_row_keeps(1,2) [OF c] by (auto simp: group_rows_def)
  then have "map (\<lambda>r. (cell_key r, cell_writer r)) ?rows =
      concat (map (\<lambda>(d, b). map (Pair (durability_label d, b)) writer_kinds) all_groups)"
    unfolding map_concat map_map comp_def by (intro arg_cong [of _ _ concat] map_cong) auto
  ultimately show ?thesis by blast
qed

definition ex_platform :: platform where
  "ex_platform = \<lparr>open_failure = None, ring_new_op = ring_new_pow2, register_failure = None,
     os_write = (\<lambda>n. Wrote 3), kernel = good_kernel, sync_failure = None\<rparr>"

lemma ex_platform_ok: "platform_ok ex_platform"
  using ring_new_pow2_contract good_kernel_ok accepts_three
  by (auto simp: platform_ok_def ex_platform_def ring_new_pow2_def word_le_nat_alt unat_gt_0)

theorem run_trial_durable_witness:
  "\<exists>n W. run_trial ex_platform ''io_uring-WriteFixed'' 3 SyncPerBatch 10 = Some (Inr (n, W)) \<and>
     10 \<le> n \<and> n < 13 \<and> from_bytes (record_at 4 (any_saved W)) = Inr (bench_message 1)"
proof -
  have "''io_uring-WriteFixed'' \<in> set writer_kinds" by (simp add: writer_kinds_def)
  then obtain n W where W: "run_trial ex_platform ''io_uring-WriteFixed'' 3 SyncPerBatch 10 = Some (Inr (n, W))"
      "10 \<le> n" "n < 10 + 3" "\<forall>i<n. from_bytes (record_at i (any_saved W)) = Inr (bench_message (i mod 3))"
    using run_trial_durable [OF ex_platform_ok, of "''io_uring-WriteFixed''" 10 3 SyncPerBatch] by auto
  moreover have "(4 :: nat) mod 3 = 1" by simp
  ultimately show ?thesis by fastforce
qed

lemma persist_verify_verdict_example:
  "\<exists>rows. persist_verify Fin ex_platform (\<lambda>k b d i. Fin 1) 1000 3 = Some (Inr (rows, claim_d Fin rows)) \<and>
     length rows = 30"
proof -
  have "\<forall>k b d. positive ((\<lambda>k b d i. Fin 1) (k :: string) (b :: nat) (d :: durability))" by (simp add: positive_def)
  from persist_verify_verdict [OF ex_platform_ok rounds_exact this, of 1000 3]
  obtain rows where r: "persist_verify Fin ex_platform (\<lambda>k b d i. Fin 1) 1000 3 = Some (Inr (rows, claim_d Fin rows))"
      "map (\<lambda>r. (cell_key r, cell_writer r)) rows =
         concat (map (\<lambda>(d, b). map (Pair (durability_label d, b)) writer_kinds) all_groups)"
    by auto
  have "length (map (\<lambda>r. (cell_key r, cell_writer r)) rows) = 30"
    unfolding r(2) by (simp add: all_groups_def BATCH_SIZES_def writer_kinds_def)
  with r(1) show ?thesis by auto
qed

end
