(* ===== verification/Tail_Stats.thy ===== *)
theory Tail_Stats
  imports Prelude
begin

text \<open>
  The statistics and the verdict of \<open>run_rate\<close> in \<open>crates/bench/src/tail_bench.rs\<close>: the median
  and the interquartile range of the trials' 99th percentiles.  The comparison of the spread is
  made in 64-bit floating point in the source; below \<open>2 ^ 53\<close> both conversions and the product
  with a quarter are exact, and a percentile is at most sixty thousand million nanoseconds, so
  it is written with integers here.
\<close>

section \<open>The code\<close>

definition median :: "u64 list \<Rightarrow> u64" where
  "median xs =
     (let n = length xs in
      if n = 0 then 0
      else if n mod 2 = 1 then xs ! (n div 2) else (xs ! (n div 2 - 1) + xs ! (n div 2)) div 2)"

definition saturating_sub :: "u64 \<Rightarrow> u64 \<Rightarrow> u64" where
  "saturating_sub a b = (if b \<le> a then a - b else 0)"

definition iqr :: "u64 list \<Rightarrow> u64" where
  "iqr xs =
     (let n = length xs in
      if n < 4 then 0 else saturating_sub (xs ! (3 * n div 4)) (xs ! (n div 4)))"

definition stable :: "u64 \<Rightarrow> u64 \<Rightarrow> bool" where
  "stable iqr_ns p99_med \<longleftrightarrow> 4 * unat iqr_ns \<le> unat (max p99_med 1)"

text \<open>The median, the spread and \<open>passes_sub_us\<close> of the 99th percentiles of all trials.\<close>

definition rate_verdict :: "u64 list \<Rightarrow> u64 \<times> u64 \<times> bool" where
  "rate_verdict p99s =
     (let s = sort p99s; p99_med = median s; iqr_ns = iqr s in
      (p99_med, iqr_ns, p99_med < 1000 \<and> stable iqr_ns p99_med))"

definition passes :: "u64 list \<Rightarrow> bool" where
  "passes p99s = snd (snd (rate_verdict p99s))"

section \<open>Order statistics\<close>

lemma sorted_count_le:
  fixes xs :: "u64 list"
  assumes "sorted xs" and "i < length xs" and "xs ! i < b"
  shows "Suc i \<le> length (filter (\<lambda>x. x < b) xs)"
proof -
  have "\<forall>x\<in>set (take (Suc i) xs). x < b"
  proof
    fix x
    assume "x \<in> set (take (Suc i) xs)"
    then obtain j where "j \<le> i" "x = xs ! j" using assms(2) by (auto simp: in_set_conv_nth less_Suc_eq_le)
    then show "x < b" using assms sorted_nth_mono [of xs j i] by (auto intro: le_less_trans)
  qed
  then have "filter (\<lambda>x. x < b) (take (Suc i) xs) = take (Suc i) xs" by (simp add: filter_id_conv)
  then have "length (filter (\<lambda>x. x < b) (take (Suc i) xs)) = Suc i" using assms(2) by simp
  moreover have "filter (\<lambda>x. x < b) xs =
      filter (\<lambda>x. x < b) (take (Suc i) xs) @ filter (\<lambda>x. x < b) (drop (Suc i) xs)"
    by (simp flip: filter_append)
  ultimately show ?thesis by simp
qed

text \<open>The mean of two numbers that do not overflow is at least the smaller.\<close>

lemma low_le_mean:
  fixes a b :: u64
  assumes "a \<le> b" "unat b < 2 ^ 63"
  shows "a \<le> (a + b) div 2" "(a + b) div 2 \<le> b"
proof -
  have "unat (a + b) = unat a + unat b"
    using assms by (simp add: unat_word_ariths word_le_nat_alt)
  then show "a \<le> (a + b) div 2" "(a + b) div 2 \<le> b"
    using assms(1) by (simp_all add: word_le_nat_alt unat_div)
qed

lemma median_half_below:
  fixes xs :: "u64 list"
  assumes "sorted xs" "xs \<noteq> []" "\<forall>x\<in>set xs. unat x < 2 ^ 63" "median xs < b"
  shows "length xs \<le> 2 * length (filter (\<lambda>x. x < b) xs)"
proof -
  let ?n = "length xs"
  have n: "0 < ?n" using assms(2) by simp
  show ?thesis
  proof (cases "?n mod 2 = 1")
    case True
    have "Suc (?n div 2) \<le> length (filter (\<lambda>x. x < b) xs)"
      using assms(4) True n by (intro sorted_count_le [OF assms(1)]) (auto simp: median_def Let_def)
    then show ?thesis by presburger
  next
    case False
    then have i: "?n div 2 - 1 < ?n" "?n div 2 < ?n" "Suc (?n div 2 - 1) = ?n div 2" using n by presburger+
    have "xs ! (?n div 2 - 1) \<le> xs ! (?n div 2)"
      using assms(1) i by (intro sorted_nth_mono) auto
    then have "xs ! (?n div 2 - 1) \<le> median xs"
      using low_le_mean(1) assms(3) i False n by (simp add: median_def Let_def)
    then have "Suc (?n div 2 - 1) \<le> length (filter (\<lambda>x. x < b) xs)"
      using assms(4) i by (intro sorted_count_le [OF assms(1)]) auto
    then show ?thesis using i(3) False by presburger
  qed
qed

lemma iqr_is_spread:
  fixes xs :: "u64 list"
  assumes "sorted xs" "4 \<le> length xs"
  shows "xs ! (length xs div 4) \<le> xs ! (3 * length xs div 4)"
    and "unat (iqr xs) = unat (xs ! (3 * length xs div 4)) - unat (xs ! (length xs div 4))"
proof -
  show le: "xs ! (length xs div 4) \<le> xs ! (3 * length xs div 4)"
    using assms by (intro sorted_nth_mono) auto
  then show "unat (iqr xs) = unat (xs ! (3 * length xs div 4)) - unat (xs ! (length xs div 4))"
    using assms(2) by (simp add: iqr_def saturating_sub_def Let_def unat_sub)
qed

section \<open>Properties\<close>

text \<open>
  What a pass says.  With at least four trials, and values as small as the histogram's bound
  makes them, a rate passes only if at least half of the trials have a 99th percentile below
  one microsecond and the third and the first quartile of these percentiles differ by at most
  a quarter of their median, or do not differ.
\<close>

lemma pass_means:
  assumes "passes p99s" and "4 \<le> length p99s" and "\<forall>x\<in>set p99s. unat x < 2 ^ 63"
  shows "length p99s \<le> 2 * length (filter (\<lambda>x. x < 1000) p99s) \<and>
    4 * (unat (sort p99s ! (3 * length p99s div 4)) - unat (sort p99s ! (length p99s div 4)))
      \<le> unat (max (median (sort p99s)) 1)"
proof -
  let ?s = "sort p99s"
  have pass: "median ?s < 1000" "stable (iqr ?s) (median ?s)"
    using assms(1) by (simp_all add: passes_def rate_verdict_def Let_def)
  have "?s \<noteq> []" using assms(2) by (metis length_0_conv length_sort not_numeral_le_zero)
  then have "length ?s \<le> 2 * length (filter (\<lambda>x. x < 1000) ?s)"
    using assms(3) pass(1) by (intro median_half_below) auto
  then have "length p99s \<le> 2 * length (filter (\<lambda>x. x < 1000) p99s)"
    by (simp add: filter_sort)
  then show ?thesis
    using pass(2) iqr_is_spread(2) [of ?s] assms(2) by (simp add: stable_def)
qed

lemma pass_means_example:
  "passes [930, 900, 950, 910, 5000] \<and> 5 \<le> 2 * length (filter (\<lambda>x. x < 1000) [930, 900, 950, 910, 5000 :: u64])"
proof
  show p: "passes [930, 900, 950, 910, 5000]" by code_simp
  show "5 \<le> 2 * length (filter (\<lambda>x. x < 1000) [930, 900, 950, 910, 5000 :: u64])"
    using pass_means [OF p] by simp
qed

text \<open>
  With fewer than four trials the spread is not looked at: a rate passes as soon as the
  median is below one microsecond, however far the trials are apart, and a run of no trials at
  all passes.
\<close>

lemma few_trials_skip_spread:
  assumes "length p99s < 4"
  shows "passes p99s = (median (sort p99s) < 1000) \<and> passes []"
proof -
  have "iqr (sort p99s) = 0" using assms by (simp add: iqr_def)
  moreover have "passes []" by code_simp
  ultimately show ?thesis by (simp add: passes_def rate_verdict_def Let_def stable_def)
qed

lemma few_trials_skip_spread_example:
  "passes [1, 900, 50000000] \<and> passes []"
proof -
  have "median (sort [1, 900, 50000000]) < 1000" by code_simp
  with few_trials_skip_spread [of "[1, 900, 50000000]"] show ?thesis by simp
qed

text \<open>A spread of exactly a quarter of the median passes, where the plan wants less than a quarter.\<close>

lemma quarter_spread_passes:
  "rate_verdict [700, 700, 900, 900] = (800, 200, True)"
  by code_simp

end
