(* ===== verification/Repo_Tests.thy ===== *)
theory Repo_Tests
  imports Bus Cells Base64 Tail_Stats
begin

text \<open>
  The unit tests of the modelled crates, run on the model: the tests of \<open>crates/bus/src/spsc.rs\<close>,
  \<open>crates/bus/src/lib.rs\<close>, \<open>crates/message-core/src/lib.rs\<close>, \<open>crates/persist/src/lib.rs\<close> and those of
  the benchmarks that concern modelled functions, as definitions whose value tells whether every assertion holds.  Those that use only the ring or
  a writer are shown to pass through the contracts, for the ring of every element type and for
  every writer; those of the bus are evaluated on the ring as its channel.
\<close>

section \<open>The ring\<close>

text \<open>A test that makes the calls in order on a new ring and compares what each returns.\<close>

definition replies_are :: "usize \<Rightarrow> 'a queue_call list \<Rightarrow> 'a reply list \<Rightarrow> bool" where
  "replies_are cap calls expected \<longleftrightarrow>
     (case and_then (spsc cap) (run_calls try_send try_recv calls) of
        Inl f \<Rightarrow> False
      | Inr (replies, r) \<Rightarrow> replies = expected)"

definition basic_send_recv :: bool where
  "basic_send_recv = replies_are 4 [CallSend (42 :: u64), CallRecv, CallRecv] [Accepted, Got 42, Nothing]"

definition full_returns_err :: bool where
  "full_returns_err =
     replies_are 4 (map CallSend [0, 1, 2, 3] @ [CallSend (99 :: u32), CallRecv, CallSend 99])
       (replicate 4 Accepted @ [HandedBack 99, Got 0, Accepted])"

definition wrap_around :: bool where
  "wrap_around =
     replies_are 4
       (concat (map (\<lambda>round. map (\<lambda>i. CallSend (round * 4 + i)) [0, 1, 2, 3 :: u64] @ replicate 4 CallRecv) [0, 1, 2, 3]) @ [CallRecv])
       (concat (map (\<lambda>round. replicate 4 Accepted @ map (\<lambda>i. Got (round * 4 + i)) [0, 1, 2, 3]) [0, 1, 2, 3]) @ [Nothing])"

definition capacity_must_be_power_of_two :: bool where
  "capacity_must_be_power_of_two = isl (spsc 3 :: ring_fault + u8 ring)"

text \<open>Dropping both halves drops the ring; the values dropped are counted.\<close>

definition drop_drains_unread_elements :: bool where
  "drop_drains_unread_elements =
     (case and_then (spsc 4) (\<lambda>r.
        and_then (run_calls try_send try_recv [CallSend (), CallSend ()] r) (\<lambda>(replies, r').
        and_then (ring_drop r') (\<lambda>(values, r''). Inr (replies, length values)))) of
        Inl f \<Rightarrow> False
      | Inr (replies, n) \<Rightarrow> replies = [Accepted, Accepted] \<and> n = 2)"

section \<open>Messages\<close>

definition roundtrip_topic_payload :: bool where
  "roundtrip_topic_payload =
     (case and_then (message_new (bytes_of ''orders'') (bytes_of ''hello'')) (\<lambda>m.
        and_then (topic_str m) (\<lambda>t. and_then (payload_bytes m) (\<lambda>p. Inr (t, p)))) of
        Inl f \<Rightarrow> False
      | Inr (t, p) \<Rightarrow> t = bytes_of ''orders'' \<and> p = bytes_of ''hello'')"

definition topic_truncation :: bool where
  "topic_truncation =
     (case and_then (message_new (replicate 40 0x61) []) topic_str of
        Inl f \<Rightarrow> False
      | Inr t \<Rightarrow> length t = 32)"

definition message_serialization_roundtrip :: bool where
  "message_serialization_roundtrip =
     (case and_then (message_new (bytes_of ''ser.test'') (bytes_of ''payload123'')) (\<lambda>original.
        and_then (to_bytes original) (\<lambda>bytes.
        and_then (from_bytes bytes) (\<lambda>decoded.
        and_then (topic_str decoded) (\<lambda>t. and_then (topic_str original) (\<lambda>t'.
        and_then (payload_bytes decoded) (\<lambda>p. and_then (payload_bytes original) (\<lambda>p'.
          Inr (t = t' \<and> p = p' \<and> timestamp_ns decoded = timestamp_ns original)))))))) of
        Inl f \<Rightarrow> False
      | Inr ok \<Rightarrow> ok)"

section \<open>The bus\<close>

text \<open>
  A script of calls on one bus.  \<open>Offers\<close> builds the message and offers it, \<open>Receives h\<close> polls the
  receiver of the \<open>h\<close>-th subscription; the live ids are kept to iterate over.
\<close>

datatype bus_call = Subscribes str | Unsubscribes u64 | Offers str "u8 list" | Receives nat

datatype bus_reply = Subscribed | Unsubscribed | Offered usize usize | Received message | Failed | Panic

definition bus_step ::
    "(message \<Rightarrow> 'c \<Rightarrow> (message try_send_error + unit) \<times> 'c) \<Rightarrow> (usize \<Rightarrow> 'c) \<Rightarrow> ('c \<Rightarrow> 'c)
      \<Rightarrow> ('c \<Rightarrow> (try_recv_error + message) \<times> 'c) \<Rightarrow> nat option \<Rightarrow> bus_call \<Rightarrow> u64 list \<times> 'c bus
      \<Rightarrow> bus_reply \<times> u64 list \<times> 'c bus" where
  "bus_step snd_op bounded drop_tx rcv_op clock call st =
     (let (ids, b) = st in
      case call of
        Subscribes pat \<Rightarrow>
          (let ((sid, h), b') = subscribe bounded drop_tx pat b in (Subscribed, ids @ [sid], b'))
      | Unsubscribes sid \<Rightarrow> (Unsubscribed, removeAll sid ids, unsubscribe drop_tx sid b)
      | Offers tp pl \<Rightarrow>
          (case and_then (message_new tp pl) (\<lambda>m. offer snd_op ids clock m b) of
             Inl p \<Rightarrow> (Panic, ids, b)
           | Inr (r, b') \<Rightarrow> (Offered (sent r) (dropped r), ids, b'))
      | Receives h \<Rightarrow>
          (case rcv_op (chans b ! h) of
             (Inr m, c) \<Rightarrow> (Received m, ids, b\<lparr>chans := (chans b)[h := c]\<rparr>)
           | (Inl e, c) \<Rightarrow> (Failed, ids, b\<lparr>chans := (chans b)[h := c]\<rparr>)))"

fun bus_script ::
    "(bus_call \<Rightarrow> u64 list \<times> 'c bus \<Rightarrow> bus_reply \<times> u64 list \<times> 'c bus) \<Rightarrow> bus_call list \<Rightarrow> u64 list \<times> 'c bus
      \<Rightarrow> bus_reply list \<times> 'c bus" where
  "bus_script do_call [] st = ([], snd st)"
| "bus_script do_call (c # cs) st =
     (let (r, st') = do_call c st in apfst (Cons r) (bus_script do_call cs st'))"

abbreviation on_ring :: "bus_call list \<Rightarrow> bus_reply list \<times> message ring_channel bus" where
  "on_ring cs \<equiv> bus_script (bus_step rc_send rc_bounded rc_drop_tx rc_recv (Some 1)) cs ([], bus_new 4)"

fun is_received :: "bus_reply \<Rightarrow> bool" where
  "is_received (Received m) \<longleftrightarrow> True"
| "is_received r \<longleftrightarrow> False"

definition single_subscriber_receives :: bool where
  "single_subscriber_receives =
     (case fst (on_ring [Subscribes (bytes_of ''prices''), Offers (bytes_of ''prices'') (bytes_of ''42''), Receives 0]) of
        [_, r, Received m] \<Rightarrow> r = Offered 1 0 \<and> topic_str m = Inr (bytes_of ''prices'') \<and> payload_bytes m = Inr (bytes_of ''42'')
      | _ \<Rightarrow> False)"

definition topic_isolation_exact :: bool where
  "topic_isolation_exact =
     (map is_received (fst (on_ring [Subscribes (bytes_of ''a''), Subscribes (bytes_of ''b''),
        Offers (bytes_of ''a'') (bytes_of ''for-a''), Receives 0, Receives 1])) = [False, False, False, True, False])"

definition multi_subscriber_same_topic :: bool where
  "multi_subscriber_same_topic =
     (case fst (on_ring [Subscribes (bytes_of ''x''), Subscribes (bytes_of ''x''),
        Offers (bytes_of ''x'') (bytes_of ''hi''), Receives 0, Receives 1]) of
        [_, _, r, r0, r1] \<Rightarrow> r = Offered 2 0 \<and> is_received r0 \<and> is_received r1
      | _ \<Rightarrow> False)"

definition unsubscribe_stops_delivery :: bool where
  "unsubscribe_stops_delivery =
     (last (fst (on_ring [Subscribes (bytes_of ''z''), Unsubscribes 0,
        Offers (bytes_of ''z'') (bytes_of ''gone''), Receives 0])) = Failed)"

definition timestamp_is_set :: bool where
  "timestamp_is_set =
     (case fst (on_ring [Subscribes (bytes_of ''ts''), Offers (bytes_of ''ts'') [], Receives 0]) of
        [_, _, Received m] \<Rightarrow> timestamp_ns m > 0
      | _ \<Rightarrow> False)"

definition wildcard_prefix_matches :: bool where
  "wildcard_prefix_matches =
     (map is_received (fst (on_ring [Subscribes (bytes_of ''prices.*''), Offers (bytes_of ''prices.USD'') (bytes_of ''1''),
        Offers (bytes_of ''prices.EUR'') (bytes_of ''2''), Receives 0, Receives 0])) = [False, False, False, True, True])"

definition wildcard_does_not_match_unrelated :: bool where
  "wildcard_does_not_match_unrelated =
     (last (fst (on_ring [Subscribes (bytes_of ''prices.*''), Offers (bytes_of ''orders.new'') (bytes_of ''x''), Receives 0])) = Failed)"

definition exact_and_wildcard_coexist :: bool where
  "exact_and_wildcard_coexist =
     (map is_received (fst (on_ring [Subscribes (bytes_of ''prices.USD''), Subscribes (bytes_of ''prices.*''),
        Offers (bytes_of ''prices.USD'') (bytes_of ''99''), Receives 0, Receives 1])) = [False, False, False, True, True])"

fun dropped_in :: "bus_reply \<Rightarrow> usize" where
  "dropped_in (Offered s d) = d"
| "dropped_in r = 0"

definition backpressure_drops_when_full :: bool where
  "backpressure_drops_when_full =
     (let (rs, b) = on_ring (Subscribes (bytes_of ''flood'') # replicate 8 (Offers (bytes_of ''flood'') (bytes_of ''x''))) in
      sum_list (map dropped_in rs) \<ge> 4 \<and> read_drop_count b \<ge> 4)"

definition slow_subscriber_does_not_block_fast_subscriber :: bool where
  "slow_subscriber_does_not_block_fast_subscriber =
     (last (fst (on_ring ([Subscribes (bytes_of ''t''), Subscribes (bytes_of ''t'')] @
        concat (replicate 8 [Offers (bytes_of ''t'') (bytes_of ''x''), Receives 0]) @ [Receives 0]))) = Failed)"

section \<open>The writers\<close>

text \<open>\<open>roundtrip_file\<close>: eight messages through any writer, and what reading the file gives back.\<close>

definition log_messages :: "panic + message list" where
  "log_messages = collect_all (map (\<lambda>i. message_new (bytes_of ''log.test'') (replicate 8 (of_nat i))) [1..<9])"

definition record_is :: "nat \<Rightarrow> u8 list \<Rightarrow> bool" where
  "record_is i chunk \<longleftrightarrow>
     (case and_then (from_bytes chunk) (\<lambda>d. and_then (topic_str d) (\<lambda>t. and_then (payload_bytes d) (\<lambda>p. Inr (t, p)))) of
        Inl f \<Rightarrow> False
      | Inr (t, p) \<Rightarrow> t = bytes_of ''log.test'' \<and> p \<noteq> [] \<and> hd p = of_nat (i + 1))"

definition roundtrip_file ::
    "(message list \<Rightarrow> 'w \<Rightarrow> ((write_error + nat) \<times> 'w) option) \<Rightarrow> ('w \<Rightarrow> (write_error + unit) \<times> 'w)
      \<Rightarrow> ('w \<Rightarrow> u8 list) \<Rightarrow> 'w \<Rightarrow> bool" where
  "roundtrip_file wb sy file w =
     (case log_messages of
        Inl f \<Rightarrow> False
      | Inr msgs \<Rightarrow>
          (case wb msgs w of
             Some (Inr n, w1) \<Rightarrow>
               (case sy w1 of
                  (Inr _, w2) \<Rightarrow>
                    (let raw = file w2; cs = chunks 64 raw in
                     n = 8 \<and> length raw = 8 * 64 \<and> list_all (\<lambda>i. record_is i (cs ! i)) [0..<length cs])
                | _ \<Rightarrow> False)
           | _ \<Rightarrow> False))"

definition std_writer_roundtrip :: "platform \<Rightarrow> bool" where
  "std_writer_roundtrip P =
     (case std_create (open_failure P) fresh_log of
        Inl e \<Rightarrow> False
      | Inr w \<Rightarrow> roundtrip_file any_batch any_sync any_written (deploy P (Std w)))"

definition uring_writer_roundtrip :: "platform \<Rightarrow> bool" where
  "uring_writer_roundtrip P =
     (case uring_create (open_failure P) (ring_new_op P) 16 fresh_log of
        Inl e \<Rightarrow> False
      | Inr w \<Rightarrow> roundtrip_file any_batch any_sync any_written (deploy P (Uring w)))"

definition uring_fixed_writer_roundtrip :: "platform \<Rightarrow> bool" where
  "uring_fixed_writer_roundtrip P =
     (case fixed_create (open_failure P) (ring_new_op P) (register_failure P) 4 fresh_log of
        Inl e \<Rightarrow> False
      | Inr w \<Rightarrow> roundtrip_file any_batch any_sync any_written (deploy P (Fixed w)))"

section \<open>The benchmarks' helpers\<close>

definition median_and_iqr_basic :: bool where
  "median_and_iqr_basic =
     (let v = sort [10, 20, 30, 40, 50, 60, 70, 80] in median v = 45 \<and> iqr v = 40)"

definition base64_encode_known :: bool where
  "base64_encode_known \<longleftrightarrow> base64_encode (bytes_of ''Man'') = Inr ''TWFu'' \<and>
     base64_encode (bytes_of ''Ma'') = Inr ''TWE='' \<and> base64_encode (bytes_of ''M'') = Inr ''TQ==''"

definition median_f64_even_odd :: bool where
  "median_f64_even_odd \<longleftrightarrow> median_f64 Fin [Fin 3, Fin 1, Fin 2] = Inr (Fin 2) \<and>
     median_f64 Fin [Fin 4, Fin 1, Fin 3, Fin 2] = Inr (Fin (5 / 2))"

text \<open>The duration of the run is a parameter, as is the rounding.\<close>

definition std_writer_produces_throughput :: "rounding \<Rightarrow> platform \<Rightarrow> f64 \<Rightarrow> bool" where
  "std_writer_produces_throughput rnd P secs =
     (case run_trial P ''std-BufWriter'' 64 SyncEnd 4096 of
        Some (Inr (ntotal, W)) \<Rightarrow>
          (let (mmsg, mb) = throughputs rnd ntotal secs in f_gt mmsg (Fin 0) \<and> f_gt mb (Fin 0))
      | _ \<Rightarrow> False)"

text \<open>\<open>spsc_bench_smoke\<close>: a hundred messages that carry their number, sent and then counted.\<close>

definition smoke_messages :: "panic + message list" where
  "smoke_messages = collect_all (map (\<lambda>i. and_then (message_new (bytes_of ''t'') []) (\<lambda>m.
     and_then (copy_from_slice (payload m) 0 8 (to_le_bytes (of_nat i))) (\<lambda>p. Inr (m\<lparr>payload := p\<rparr>)))) [0..<100])"

definition spsc_bench_smoke :: bool where
  "spsc_bench_smoke =
     (case smoke_messages of
        Inl f \<Rightarrow> False
      | Inr msgs \<Rightarrow>
          replies_are 256 (map CallSend msgs @ replicate 101 CallRecv)
            (replicate 100 Accepted @ map Got msgs @ [Nothing]))"

section \<open>The ring tests pass\<close>

lemma replies_are_abstract:
  fixes calls :: "'a queue_call list"
  assumes "is_power_of_two cap"
  shows "replies_are cap calls expected \<longleftrightarrow> fst (abstract_calls (unat cap) calls []) = expected"
proof -
  obtain r :: "'a ring" where r: "spsc cap = Inr r" using assms spsc_Inr_iff by blast
  then have "wf_ring r" "ring_cap r = unat cap" "contents r = []" using spsc_wf by auto
  then obtain r' where "run_calls try_send try_recv calls r = Inr (fst (abstract_calls (unat cap) calls []), r')"
    using rq.run_calls_abstract [of r calls] by auto
  with r show ?thesis by (simp add: replies_are_def)
qed

lemma replicate_4: "replicate 4 x = [x, x, x, x]"
  by (simp add: numeral_eq_Suc)

lemma four_ok: "is_power_of_two 4"
  by code_simp

text \<open>The replies are those of the abstract queue of four places.\<close>

lemma ring_tests_pass:
  "basic_send_recv" "full_returns_err" "wrap_around" "capacity_must_be_power_of_two"
proof -
  have three: "\<not> is_power_of_two 3" by code_simp
  note [simp] = replies_are_abstract [OF four_ok] replicate_4
  show basic_send_recv by (simp add: basic_send_recv_def)
  show full_returns_err by (simp add: full_returns_err_def)
  show wrap_around by (simp add: wrap_around_def)
  show capacity_must_be_power_of_two using three by (simp add: capacity_must_be_power_of_two_def spsc_def)
qed

lemma drop_test_passes: "drop_drains_unread_elements"
proof -
  obtain r :: "unit ring" where r: "spsc 4 = Inr r" using four_ok spsc_Inr_iff by blast
  then have wf: "wf_ring r" "ring_cap r = 4" "contents r = []" using spsc_wf [OF r] by simp_all
  obtain r' where r': "run_calls try_send try_recv [CallSend (), CallSend ()] r = Inr ([Accepted, Accepted], r')"
      "wf_ring r'" "contents r' = [(), ()]"
    using rq.run_calls_abstract [OF wf(1), of "[CallSend (), CallSend ()]"] wf(2,3) by auto
  obtain r'' where "ring_drop r' = Inr (contents r', r'')"
    using drop_loop_contents [OF r'(2) refl] by (auto simp: ring_drop_def)
  with r r' show ?thesis by (simp add: drop_drains_unread_elements_def)
qed

section \<open>The message tests pass\<close>

lemma message_tests_pass:
  "roundtrip_topic_payload" "topic_truncation" "message_serialization_roundtrip"
  by code_simp+

section \<open>The bus tests pass\<close>

lemma bus_tests_pass:
  "single_subscriber_receives" "topic_isolation_exact" "multi_subscriber_same_topic"
  "unsubscribe_stops_delivery" "timestamp_is_set" "wildcard_prefix_matches"
  "wildcard_does_not_match_unrelated" "exact_and_wildcard_coexist"
proof -
  show single_subscriber_receives by code_simp
  show topic_isolation_exact by code_simp
  show multi_subscriber_same_topic by code_simp
  show unsubscribe_stops_delivery by code_simp
  show timestamp_is_set by code_simp
  show wildcard_prefix_matches by code_simp
  show wildcard_does_not_match_unrelated by code_simp
  show exact_and_wildcard_coexist by code_simp
qed

lemma backpressure_test_passes: "backpressure_drops_when_full"
  by code_simp

lemma slow_subscriber_test_passes: "slow_subscriber_does_not_block_fast_subscriber"
  by code_simp

section \<open>The writer tests pass\<close>

lemma chunks_records: "\<forall>m\<in>set ms. wf_message m \<Longrightarrow> chunks 64 (encode_all ms) = map encode ms"
proof (induction ms)
  case (Cons m ms)
  then have "length (encode m) = 64" by simp
  then have "encode m \<noteq> []" by auto
  then show ?case using Cons \<open>length (encode m) = 64\<close> by (simp add: chunks_step)
qed simp

definition log_message :: "nat \<Rightarrow> message" where
  "log_message i = \<lparr>timestamp_ns = 0, topic = pad_to 32 (bytes_of ''log.test''), payload = pad_to 24 (replicate 8 (of_nat i))\<rparr>"

lemma log_messages_eq: "log_messages = Inr (map log_message [1..<9])"
  unfolding log_messages_def message_new_eq log_message_def [symmetric] by (rule collect_all_Inr)

lemma wf_log_message [simp]: "wf_message (log_message i)"
  by (simp add: log_message_def)

lemma records_are: "i < 8 \<Longrightarrow> record_is i (encode (log_message (Suc i)))"
proof -
  have "list_all (\<lambda>i. record_is i (encode (log_message (Suc i)))) [0, 1, 2, 3, 4, 5, 6, 7]" by code_simp
  moreover assume "i < 8"
  then have "i \<in> set [0, 1, 2, 3, 4, 5, 6, 7]" by auto
  ultimately show ?thesis unfolding list_all_iff by blast
qed

context message_writer begin

lemma roundtrip_passes:
  assumes "ok w" and "written w = []"
  shows "roundtrip_file write_batch sync written w"
proof -
  define ms where "ms = map log_message [1..<9]"
  have wf: "list_all wf_message ms" and len: "length ms = 8" and msgs: "log_messages = Inr ms"
    and nth: "i < 8 \<Longrightarrow> ms ! i = log_message (Suc i)" for i
    by (simp_all add: list_all_iff ms_def log_messages_eq)
  obtain w1 where w1: "write_batch ms w = Some (Inr 8, w1)" "ok w1" "written w1 = encode_all ms"
    using write_ok [OF assms(1) wf] assms(2) len by auto
  obtain w2 where w2: "sync w1 = (Inr (), w2)" "written w2 = encode_all ms"
    using sync_ok [OF w1(2)] w1(3) by auto
  have "chunks 64 (written w2) = map encode ms"
    unfolding w2(2) using wf by (intro chunks_records) (simp add: list_all_iff)
  moreover have "record_is i (map encode ms ! i)" if "i < 8" for i
    using records_are [OF that] that len nth by simp
  moreover have "length (written w2) = 8 * 64" unfolding w2(2) using length_encode_all [OF wf] len by simp
  ultimately show ?thesis
    by (simp add: roundtrip_file_def msgs w1(1) w2(1) list_all_iff Let_def len)
qed

end

text \<open>
  The repository's round trip through a log file passes for each of the three writers, on every
  platform without failures: the batch is counted, the file has one 64-byte record per message,
  and each record decodes to the topic and payload that were written.
\<close>

lemma writer_tests_pass:
  assumes "platform_ok P"
  shows "std_writer_roundtrip P \<and> uring_writer_roundtrip P \<and> uring_fixed_writer_roundtrip P"
proof -
  have P: "open_failure P = None" "register_failure P = None" "ring_new_contract (ring_new_op P)"
    and rings: "\<And>d. 0 < unat d \<Longrightarrow> unat d \<le> 512 \<Longrightarrow> \<exists>n. ring_new_op P d = Inr n"
    using assms by (simp_all add: platform_ok_def)
  have pass: "roundtrip_file any_batch any_sync any_written (deploy P w)" if "built_ok w" for w
    using anyw.roundtrip_passes deploy_ok [OF assms that] by blast
  obtain s where s: "std_create (open_failure P) fresh_log = Inr s" "built_ok (Std s)"
    by (simp add: P(1) std_create_Inr fresh_log_def)
  obtain n where "ring_new_op P 16 = Inr n" using rings [of 16] by auto
  then obtain u where u: "uring_create (open_failure P) (ring_new_op P) 16 fresh_log = Inr u"
    by (simp add: P(1) uring_create_Inr)
  obtain n where "ring_new_op P 8 = Inr n" using rings [of 8] by auto
  then obtain x where x: "fixed_create (open_failure P) (ring_new_op P) (register_failure P) 4 fresh_log = Inr x"
    by (simp add: P(1,2) fixed_create_Inr)
  have "built_ok (Uring u)" "built_ok (Fixed x)"
    using build_uring_ready [OF P(3) u] build_fixed_ready [OF P(3) x] by (simp_all add: fresh_log_def)
  with s u x pass show ?thesis
    by (simp add: std_writer_roundtrip_def uring_writer_roundtrip_def uring_fixed_writer_roundtrip_def
        del: deploy.simps built_ok.simps)
qed

lemma writer_tests_pass_example: "uring_fixed_writer_roundtrip ex_platform"
  using writer_tests_pass [OF ex_platform_ok] by simp

section \<open>The tests of the benchmarks' helpers pass\<close>

lemma bench_tests_pass: "median_and_iqr_basic" "base64_encode_known" "median_f64_even_odd"
proof -
  show median_and_iqr_basic by code_simp
  show base64_encode_known by code_simp
  show median_f64_even_odd by (simp add: median_f64_even_odd_def median_f64_def)
qed

text \<open>
  A rounding that is exact on the powers of two down to \<open>1 / 2 ^ 100\<close> keeps a quotient above zero as
  long as it stays above the least of them: each division loses at most as many bits as its divisor has.
\<close>

definition exact_pow2 :: "rounding \<Rightarrow> bool" where
  "exact_pow2 rnd \<longleftrightarrow> rounds rnd \<and> (\<forall>k\<le>100. rnd (1 / 2 ^ k) = Fin (1 / 2 ^ k))"

lemma rnd_ge: "exact_pow2 rnd \<Longrightarrow> k \<le> 100 \<Longrightarrow> 1 / 2 ^ k \<le> x \<Longrightarrow> Fin (1 / 2 ^ k) \<le> rnd x"
  unfolding exact_pow2_def rounds_def by metis

lemma f_div_ge:
  assumes "exact_pow2 rnd" and "i + j \<le> 100" and "Fin (1 / 2 ^ i) \<le> x" and "x \<noteq> NaN" and "0 < q" and "q \<le> 2 ^ j"
  shows "Fin (1 / 2 ^ (i + j)) \<le> f_div rnd x (Fin q)"
proof (cases x)
  case (Fin a)
  then have "1 / 2 ^ i \<le> a" using assms(3) by simp
  moreover from this have "0 \<le> a" by (rule order_trans [rotated]) simp
  ultimately have "1 / 2 ^ i / 2 ^ j \<le> a / q" using assms(5,6) by (intro frac_le) auto
  then have "1 / 2 ^ (i + j) \<le> a / q" by (simp add: power_add)
  from rnd_ge [OF assms(1,2) this] show ?thesis using assms(5) Fin by simp
qed (use assms in simp_all)

text \<open>The test passes for every duration above zero and below some thirty years.\<close>

lemma throughput_test_passes:
  assumes "exact_pow2 rnd" and "platform_ok P" and "0 < q" and "q \<le> 2 ^ 30"
  shows "std_writer_produces_throughput rnd P (Fin q)"
proof -
  have "''std-BufWriter'' \<in> set writer_kinds" by (simp add: writer_kinds_def)
  from run_trial_ok [OF assms(2) this, of 64 4096 SyncEnd] obtain W where
    W: "run_trial P ''std-BufWriter'' 64 SyncEnd 4096 = Some (Inr (4096, W))"
    by (auto simp: whole_batches_def)
  have rounds: "rounds rnd" using assms(1) by (simp add: exact_pow2_def)
  have n: "Fin (1 / 2 ^ 0) \<le> f_of_nat rnd 4096" "f_of_nat rnd 4096 \<noteq> NaN"
    unfolding f_of_nat_def using rnd_ge [OF assms(1), of 0 4096] rounds by (simp_all add: rounds_not_NaN)
  have m: "Fin (1 / 2 ^ 0) \<le> f_mul rnd (f_of_nat rnd 4096) (Fin 64)"
  proof (cases "f_of_nat rnd 4096")
    case (Fin a)
    then show ?thesis using n(1) rnd_ge [OF assms(1), of 0 "a * 64"] by simp
  qed (use n in simp_all)
  have above: "f_gt (f_div rnd (f_div rnd x (Fin q)) (Fin d)) (Fin 0)"
    if x: "Fin (1 / 2 ^ 0) \<le> x" "x \<noteq> NaN" and d: "0 < d" "d \<le> 2 ^ 20" for x d
  proof -
    have "Fin (1 / 2 ^ (0 + 30)) \<le> f_div rnd x (Fin q)" using assms x by (intro f_div_ge) simp_all
    moreover have q: "f_div rnd x (Fin q) \<noteq> NaN" using rounds x(2) assms(3) by (intro f_div_not_NaN) simp_all
    ultimately have "Fin (1 / 2 ^ ((0 + 30) + 20)) \<le> f_div rnd (f_div rnd x (Fin q)) (Fin d)"
      using assms(1) d by (intro f_div_ge [where x = "f_div rnd x (Fin q)"]) simp_all
    moreover have "f_div rnd (f_div rnd x (Fin q)) (Fin d) \<noteq> NaN" using d(1) by (intro f_div_not_NaN [OF rounds q]) simp
    moreover have "Fin 0 < Fin (1 / 2 ^ ((0 + 30) + 20))" by (simp add: less_f64_def)
    ultimately show ?thesis unfolding f_gt_iff using less_le_trans by blast
  qed
  have "f_gt (fst (throughputs rnd 4096 (Fin q))) (Fin 0)" "f_gt (snd (throughputs rnd 4096 (Fin q))) (Fin 0)"
    unfolding throughputs_def fst_conv snd_conv using n m rounds
    by (intro above f_mul_not_NaN; simp)+
  then show ?thesis by (simp add: std_writer_produces_throughput_def W split_def)
qed

lemma abstract_sends:
  "length xs + length vs \<le> n \<Longrightarrow> fst (abstract_calls n (map CallSend vs @ cs) xs) =
     replicate (length vs) Accepted @ fst (abstract_calls n cs (xs @ vs))"
  by (induction vs arbitrary: xs) simp_all

lemma abstract_recvs:
  "fst (abstract_calls n (replicate (length xs) CallRecv @ cs) xs) = map Got xs @ fst (abstract_calls n cs [])"
  by (induction xs) simp_all

lemma smoke_test_passes: "spsc_bench_smoke"
proof -
  have pow: "is_power_of_two 256" by code_simp
  let ?f = "\<lambda>i. \<lparr>timestamp_ns = 0, topic = pad_to 32 (bytes_of ''t''), payload = to_le_bytes (of_nat i) @ replicate 16 0\<rparr>"
  have eq: "and_then (message_new (bytes_of ''t'') []) (\<lambda>m.
      and_then (copy_from_slice (payload m) 0 8 (to_le_bytes (of_nat i))) (\<lambda>p. Inr (m\<lparr>payload := p\<rparr>))) = Inr (?f i)" for i
    by (simp add: message_new_eq copy_from_slice_def pad_to_def)
  define msgs where "msgs = map ?f [0..<100]"
  have msgs: "smoke_messages = Inr msgs" "length msgs = 100"
    by (simp_all add: smoke_messages_def eq collect_all_Inr msgs_def del: upt_conv_Cons)
  have polls: "replicate 101 (CallRecv :: message queue_call) = replicate (length msgs) CallRecv @ [CallRecv]"
    using replicate_add [of 100 1 "CallRecv :: message queue_call"] by (simp only: msgs(2)) simp
  have "fst (abstract_calls 256 (replicate 101 CallRecv) msgs) = map Got msgs @ [Nothing]"
    unfolding polls by (simp add: abstract_recvs)
  then have "fst (abstract_calls 256 (map CallSend msgs @ replicate 101 CallRecv) []) =
      replicate 100 Accepted @ map Got msgs @ [Nothing]"
    using abstract_sends [of "[]" msgs 256 "replicate 101 CallRecv"] msgs(2) by simp
  then show ?thesis by (simp add: spsc_bench_smoke_def msgs(1) replies_are_abstract [OF pow])
qed

end
