(* ===== verification/Config.thy ===== *)
theory Config
  imports Prelude
begin

text \<open>
  How the benchmarks read their environment variables: \<open>CADENCE_RATES\<close> and \<open>CADENCE_TRIALS\<close> in
  \<open>crates/bench/src/tail_bench.rs\<close>, \<open>CADENCE_MSGS\<close> and \<open>CADENCE_TRIALS\<close> in \<open>persist_verify.rs\<close>.
  A string is the list of the code points of its characters.  \<open>split\<close>, \<open>trim\<close> and \<open>parse\<close> are
  those of the Rust standard library.
\<close>

type_synonym chars = "nat list"

section \<open>Strings\<close>

text \<open>\<open>char::is_whitespace\<close>: the Unicode property \<open>White_Space\<close>.\<close>

definition is_whitespace :: "nat \<Rightarrow> bool" where
  "is_whitespace c \<longleftrightarrow> 0x09 \<le> c \<and> c \<le> 0x0D \<or> 0x2000 \<le> c \<and> c \<le> 0x200A \<or>
     c \<in> set [0x20, 0x85, 0xA0, 0x1680, 0x2028, 0x2029, 0x202F, 0x205F, 0x3000]"

definition trim :: "chars \<Rightarrow> chars" where
  "trim s = rev (dropWhile is_whitespace (rev (dropWhile is_whitespace s)))"

text \<open>\<open>s.split(c)\<close>: one piece more than there are separators.\<close>

fun split_on :: "nat \<Rightarrow> chars \<Rightarrow> chars list" where
  "split_on c [] = [[]]"
| "split_on c (x # xs) =
     (if x = c then [] # split_on c xs
      else (case split_on c xs of [] \<Rightarrow> [[x]] | p # ps \<Rightarrow> (x # p) # ps))"

text \<open>
  \<open>str::parse\<close> for \<open>u64\<close>, and for \<open>usize\<close> on a 64-bit platform: an optional plus sign, then decimal
  digits, at least one, accumulated with checked multiplication and addition.
\<close>

fun parse_digits :: "nat \<Rightarrow> chars \<Rightarrow> nat option" where
  "parse_digits acc [] = Some acc"
| "parse_digits acc (c # cs) =
     (if 0x30 \<le> c \<and> c \<le> 0x39
      then if 10 * acc < 2 ^ 64 \<and> 10 * acc + (c - 0x30) < 2 ^ 64
        then parse_digits (10 * acc + (c - 0x30)) cs else None
      else None)"

definition parse_u64 :: "chars \<Rightarrow> u64 option" where
  "parse_u64 s =
     map_option of_nat
       (case s of
          [] \<Rightarrow> None
        | c # cs \<Rightarrow> if c = 0x2B then (if cs = [] then None else parse_digits 0 cs) else parse_digits 0 s)"

section \<open>The variables\<close>

definition DEFAULT_RATES :: "u64 list" where
  "DEFAULT_RATES = [10000, 100000, 1000000]"

definition DEFAULT_TRIALS :: u64 where
  "DEFAULT_TRIALS = 10"

text \<open>\<open>None\<close> is a variable that is not set or not valid Unicode.\<close>

definition rates_of :: "chars option \<Rightarrow> u64 list" where
  "rates_of var =
     (case var of
        None \<Rightarrow> DEFAULT_RATES
      | Some s \<Rightarrow>
          (let v = List.map_filter (\<lambda>t. parse_u64 (trim t)) (split_on 0x2C s) in
           if v = [] then DEFAULT_RATES else v))"

definition number_of :: "u64 \<Rightarrow> chars option \<Rightarrow> u64" where
  "number_of fallback var =
     (case Option.bind var parse_u64 of None \<Rightarrow> fallback | Some n \<Rightarrow> n)"

section \<open>Splitting and trimming\<close>

lemma split_on_not_Nil [simp]: "split_on c s \<noteq> []"
  by (induction s) (auto split: list.splits)

lemma split_on_none: "c \<notin> set s \<Longrightarrow> split_on c s = [s]"
  by (induction s) auto

lemma split_on_append: "c \<notin> set s \<Longrightarrow> split_on c (s @ c # t) = s # split_on c t"
  by (induction s) auto

text \<open>The pieces of a joined list are its entries.\<close>

fun join_with :: "nat \<Rightarrow> chars list \<Rightarrow> chars" where
  "join_with c [] = []"
| "join_with c [s] = s"
| "join_with c (s # t # ts) = s @ c # join_with c (t # ts)"

lemma split_join: "ss \<noteq> [] \<Longrightarrow> \<forall>s\<in>set ss. c \<notin> set s \<Longrightarrow> split_on c (join_with c ss) = ss"
  by (induction c ss rule: join_with.induct) (simp_all add: split_on_none split_on_append)

lemma trim_padded:
  assumes "\<forall>c\<in>set pre. is_whitespace c" and "\<forall>c\<in>set post. is_whitespace c"
    and "s \<noteq> []" "\<not> is_whitespace (hd s)" "\<not> is_whitespace (last s)"
  shows "trim (pre @ s @ post) = s"
proof -
  have "dropWhile is_whitespace (pre @ s @ post) = dropWhile is_whitespace (s @ post)"
    using assms(1) by (simp add: dropWhile_append2)
  also have "\<dots> = s @ post" using assms(3,4) by (cases s) simp_all
  finally have front: "dropWhile is_whitespace (pre @ s @ post) = s @ post" .
  have "dropWhile is_whitespace (rev post @ rev s) = dropWhile is_whitespace (rev s)"
    by (rule dropWhile_append2) (use assms(2) in simp)
  also have "\<dots> = rev s" using assms(3,5) by (cases s rule: rev_cases) simp_all
  finally show ?thesis using front by (simp add: trim_def)
qed

section \<open>Parsing\<close>

text \<open>The number that a list of digit characters denotes.\<close>

definition is_digit :: "nat \<Rightarrow> bool" where
  "is_digit c \<longleftrightarrow> 0x30 \<le> c \<and> c \<le> 0x39"

definition denotes :: "nat \<Rightarrow> chars \<Rightarrow> nat" where
  "denotes acc ds = foldl (\<lambda>n c. 10 * n + (c - 0x30)) acc ds"

lemma denotes_simps [simp]:
  "denotes acc [] = acc" "denotes acc (c # cs) = denotes (10 * acc + (c - 0x30)) cs"
  "denotes acc (cs @ [c]) = 10 * denotes acc cs + (c - 0x30)"
  by (simp_all add: denotes_def)

lemma denotes_mono: "acc \<le> denotes acc ds"
proof (induction ds arbitrary: acc)
  case (Cons c cs)
  have "acc \<le> 10 * acc + (c - 0x30)" by simp
  also have "\<dots> \<le> denotes acc (c # cs)" using Cons [of "10 * acc + (c - 0x30)"] by simp
  finally show ?case .
qed simp

lemma parse_digits_iff:
  "acc < 2 ^ 64 \<Longrightarrow> parse_digits acc s = Some n \<longleftrightarrow> list_all is_digit s \<and> n = denotes acc s \<and> n < 2 ^ 64"
proof (induction acc s rule: parse_digits.induct)
  case (1 acc)
  then show ?case by auto
next
  case (2 acc c cs)
  have "10 * acc + (c - 0x30) \<le> denotes acc (c # cs)"
    using denotes_mono [of "10 * acc + (c - 0x30)" cs] by simp
  with 2 show ?case by (auto simp: is_digit_def)
qed

text \<open>Printing a number, as \<open>Display\<close> does.\<close>

fun decimal :: "nat \<Rightarrow> chars" where
  "decimal n = (if n < 10 then [0x30 + n] else decimal (n div 10) @ [0x30 + n mod 10])"

declare decimal.simps [simp del]

lemma decimal_props:
  "decimal n \<noteq> [] \<and> list_all is_digit (decimal n) \<and> denotes 0 (decimal n) = n"
proof (induction n rule: decimal.induct)
  case (1 n)
  then show ?case
    by (cases "n < 10") (simp_all add: decimal.simps [of n] is_digit_def)
qed

lemma digit_plain: "is_digit c \<Longrightarrow> \<not> is_whitespace c \<and> c \<noteq> 0x2C \<and> c \<noteq> 0x2B"
  by (auto simp: is_digit_def is_whitespace_def)

lemma decimal_plain:
  "\<not> is_whitespace (hd (decimal n))" "\<not> is_whitespace (last (decimal n))" "0x2C \<notin> set (decimal n)"
  "hd (decimal n) \<noteq> 0x2B"
proof -
  have all: "\<forall>c\<in>set (decimal n). \<not> is_whitespace c \<and> c \<noteq> 0x2C \<and> c \<noteq> 0x2B"
    using decimal_props [of n] digit_plain by (auto simp: list_all_iff)
  then show "\<not> is_whitespace (hd (decimal n))" "\<not> is_whitespace (last (decimal n))"
    "0x2C \<notin> set (decimal n)" "hd (decimal n) \<noteq> 0x2B"
    using decimal_props [of n] by (simp, simp, blast, simp)
qed

lemma parse_decimal: "n < 2 ^ 64 \<Longrightarrow> parse_u64 (decimal n) = Some (of_nat n)"
  using decimal_props [of n] decimal_plain(4) [of n] parse_digits_iff [of 0 "decimal n" n]
  by (cases "decimal n") (simp_all add: parse_u64_def del: parse_digits.simps)

section \<open>Properties\<close>

lemma unat64_less: "unat (w :: u64) < 2 ^ 64"
  using unsigned_less [of w] by simp

text \<open>What \<open>parse\<close> accepts: digits with an optional plus sign, of a value below \<open>2 ^ 64\<close>.\<close>

lemma parse_u64_iff:
  "parse_u64 s = Some w \<longleftrightarrow>
     (\<exists>ds. (s = ds \<or> s = 0x2B # ds) \<and> ds \<noteq> [] \<and> list_all is_digit ds \<and> denotes 0 ds = unat w)"
proof -
  have pd: "map_option of_nat (parse_digits 0 ds) = Some w \<longleftrightarrow> list_all is_digit ds \<and> denotes 0 ds = unat w" for ds
  proof -
    have "map_option of_nat (parse_digits 0 ds) = Some w \<longleftrightarrow> parse_digits 0 ds = Some (unat w)"
    proof (cases "parse_digits 0 ds")
      case (Some n)
      then have "n < 2 ^ 64" using parse_digits_iff [of 0 ds n] by simp
      then have "unat (of_nat n :: u64) = n" by (simp add: unat_of_nat)
      then show ?thesis using Some by auto
    qed simp
    also have "\<dots> \<longleftrightarrow> list_all is_digit ds \<and> denotes 0 ds = unat w"
      using unat64_less [of w] parse_digits_iff [of 0 ds "unat w"] by auto
    finally show ?thesis .
  qed
  have plus: "\<not> is_digit 0x2B" by (simp add: is_digit_def)
  show ?thesis
  proof (cases s)
    case Nil
    then show ?thesis by (simp add: parse_u64_def)
  next
    case (Cons c cs)
    then show ?thesis using plus pd [of s] pd [of cs]
      by (cases "c = 0x2B") (auto simp: parse_u64_def simp del: parse_digits.simps)
  qed
qed

lemma rates_of_nonempty: "rates_of var \<noteq> []"
  by (simp add: rates_of_def DEFAULT_RATES_def Let_def split: option.split)

definition spaced :: "chars \<times> u64 \<times> chars \<Rightarrow> chars" where
  "spaced = (\<lambda>(pre, r, post). pre @ decimal (unat r) @ post)"

definition blank_around :: "chars \<times> u64 \<times> chars \<Rightarrow> bool" where
  "blank_around = (\<lambda>(pre, r, post). list_all is_whitespace pre \<and> list_all is_whitespace post)"

lemma trim_spaced: "blank_around e \<Longrightarrow> trim (spaced e) = decimal (unat (fst (snd e)))"
  using decimal_props decimal_plain(1,2)
  by (auto simp: spaced_def blank_around_def list_all_iff intro!: trim_padded)

lemma comma_spaced: "blank_around e \<Longrightarrow> 0x2C \<notin> set (spaced e)"
  using decimal_plain(3) by (auto simp: spaced_def blank_around_def list_all_iff is_whitespace_def)

lemma parse_spaced: "blank_around e \<Longrightarrow> parse_u64 (trim (spaced e)) = Some (fst (snd e))"
  using parse_decimal [of "unat (fst (snd e))"] unat64_less [of "fst (snd e)"] by (simp add: trim_spaced)

text \<open>
  C29: A list of rates written in decimal, separated by commas and with any white space around each,
  is read back as exactly these rates, so \<open>CADENCE_RATES\<close> takes every list of 64-bit numbers.
\<close>

theorem rates_roundtrip:
  assumes "entries \<noteq> []" and "list_all blank_around entries"
  shows "rates_of (Some (join_with 0x2C (map spaced entries))) = map (\<lambda>e. fst (snd e)) entries"
proof -
  have "split_on 0x2C (join_with 0x2C (map spaced entries)) = map spaced entries"
    using assms comma_spaced by (intro split_join) (auto simp: list_all_iff)
  moreover have "List.map_filter (\<lambda>t. parse_u64 (trim t)) (map spaced entries) = map (\<lambda>e. fst (snd e)) entries"
    using assms(2) by (induction entries) (simp_all add: List.map_filter_simps parse_spaced)
  ultimately show ?thesis using assms(1) by (simp add: rates_of_def Let_def)
qed

theorem rates_roundtrip_witness:
  "rates_of (Some (join_with 0x2C (map spaced [([], 10000, []), ([0x20], 250, [0x0A])]))) = [10000, 250]"
proof -
  have "list_all blank_around [([], 10000, []), ([0x20], 250, [0x0A])]"
    by (simp add: blank_around_def is_whitespace_def)
  from rates_roundtrip [OF _ this] show ?thesis by simp
qed

end
