(* ===== verification/Latency_Trial.thy ===== *)
theory Latency_Trial
  imports Message Ring Tail_Stats
begin

text \<open>
  A latency trial of \<open>crates/bench/src/tail_bench.rs\<close> (\<open>spsc_trial\<close>) and \<open>main.rs\<close>
  (\<open>spsc_latency\<close>): a publisher that sends messages carrying the times they were due, a consumer
  that polls the ring, measures and, when it finds the ring empty, looks at the flag the main
  thread sets after the publisher has returned.  The calls on the ring are those of theory
  \<open>Ring\<close>, each in one step: theory \<open>Spsc_Threads\<close> shows that the threads' calls behave so.
\<close>

section \<open>Messages and latencies\<close>

definition trial_message :: "u64 \<Rightarrow> panic + message" where
  "trial_message intended =
     and_then (message_new (bytes_of ''bench'') []) (\<lambda>m.
     and_then (copy_from_slice (payload m) 0 8 (to_le_bytes intended)) (\<lambda>p.
     Inr (m\<lparr>payload := p\<rparr>)))"

definition due :: "u64 \<Rightarrow> u64 \<Rightarrow> nat \<Rightarrow> u64" where
  "due start interval i = start + of_nat i * interval"

definition intended_of :: "message \<Rightarrow> panic + u64" where
  "intended_of m = and_then (slice_range 0 8 (payload m)) (\<lambda>b. Inr (from_le_bytes b))"

definition latency :: "u64 \<Rightarrow> u64 \<Rightarrow> u64" where
  "latency now intended = max (saturating_sub now intended) 1"

text \<open>\<open>1_000_000_000 / rate_hz\<close>, which panics for a rate of zero.\<close>

definition interval_of :: "u64 \<Rightarrow> panic + u64" where
  "interval_of rate_hz = (if rate_hz = 0 then Inl AssertFailed else Inr (1000000000 div rate_hz))"

section \<open>The trial\<close>

text \<open>
  The consumer is polling, has just found the ring empty, or has left its loop; the flag tells
  whether \<open>done\<close> was already set when it found the ring empty.
  \<open>hist\<close> lists the latencies handed to \<open>record_correct\<close>; what the histogram makes of them, its
  correction and its bound of a minute included, is the crate's, and its answer is ignored.
\<close>

datatype phase = Polling | Missed bool | Exited bool

record trial =
  t_ring :: "message ring"
  t_todo :: "message list"
  t_done :: bool
  t_phase :: phase
  received :: nat
  clocks :: "u64 list"
  hist :: "u64 list"

definition trial_init :: "usize \<Rightarrow> message list \<Rightarrow> ring_fault + trial" where
  "trial_init cap msgs =
     (case spsc cap of
        Inl f \<Rightarrow> Inl f
      | Inr r \<Rightarrow> Inr \<lparr>t_ring = r, t_todo = msgs, t_done = False, t_phase = Polling,
          received = 0, clocks = [], hist = []\<rparr>)"

inductive trial_step :: "nat \<Rightarrow> trial \<Rightarrow> trial \<Rightarrow> bool" for warmup where
  t_send: "t_todo s = m # ms \<Longrightarrow> try_send m (t_ring s) = Inr (Inr (), r) \<Longrightarrow>
     trial_step warmup s (s\<lparr>t_ring := r, t_todo := ms\<rparr>)"
| t_full: "t_todo s = m # ms \<Longrightarrow> try_send m (t_ring s) = Inr (Inl m', r) \<Longrightarrow>
     trial_step warmup s (s\<lparr>t_ring := r, t_todo := m' # ms\<rparr>)"
| t_joined: "t_todo s = [] \<Longrightarrow> trial_step warmup s (s\<lparr>t_done := True\<rparr>)"
| t_message: "t_phase s = Polling \<Longrightarrow> try_recv (t_ring s) = Inr (Some m, r) \<Longrightarrow>
     intended_of m = Inr intended \<Longrightarrow>
     trial_step warmup s (s\<lparr>t_ring := r, received := received s + 1, clocks := clocks s @ [now],
       hist := (if received s \<ge> warmup then hist s @ [latency now intended] else hist s)\<rparr>)"
| t_empty: "t_phase s = Polling \<Longrightarrow> try_recv (t_ring s) = Inr (None, r) \<Longrightarrow>
     trial_step warmup s (s\<lparr>t_ring := r, t_phase := Missed (t_done s)\<rparr>)"
| t_exit: "t_phase s = Missed b \<Longrightarrow> t_done s \<Longrightarrow> trial_step warmup s (s\<lparr>t_phase := Exited b\<rparr>)"
| t_again: "t_phase s = Missed b \<Longrightarrow> \<not> t_done s \<Longrightarrow> trial_step warmup s (s\<lparr>t_phase := Polling\<rparr>)"

text \<open>The publisher's messages.\<close>

definition publisher_messages :: "u64 \<Rightarrow> u64 \<Rightarrow> nat \<Rightarrow> panic + message list" where
  "publisher_messages start interval n = collect_all (map (\<lambda>i. trial_message (due start interval i)) [0..<n])"

inductive trial_reach :: "usize \<Rightarrow> nat \<Rightarrow> message list \<Rightarrow> trial \<Rightarrow> bool" for cap warmup msgs where
  trial_start: "trial_init cap msgs = Inr s \<Longrightarrow> trial_reach cap warmup msgs s"
| trial_next: "trial_reach cap warmup msgs s \<Longrightarrow> trial_step warmup s s' \<Longrightarrow> trial_reach cap warmup msgs s'"

inductive_cases trial_stepE: "trial_step warmup s s'"

section \<open>Messages carry their due time\<close>

definition carrier :: "u64 \<Rightarrow> message" where
  "carrier intended = \<lparr>timestamp_ns = 0, topic = pad_to 32 (bytes_of ''bench''),
     payload = to_le_bytes intended @ replicate 16 0\<rparr>"

lemma trial_message_eq: "trial_message intended = Inr (carrier intended)"
  by (simp add: trial_message_def message_new_eq copy_from_slice_def carrier_def pad_to_def)

lemma intended_of_carrier: "intended_of (carrier intended) = Inr intended"
  by (simp add: intended_of_def slice_range_def carrier_def)

lemma publisher_messages_eq:
  "publisher_messages start interval n = Inr (map (\<lambda>i. carrier (due start interval i)) [0..<n])"
  unfolding publisher_messages_def trial_message_eq by (rule collect_all_Inr)

section \<open>The invariant\<close>

definition measured :: "u64 list \<Rightarrow> u64 list \<Rightarrow> u64 list" where
  "measured nows dues = map2 latency nows dues"

lemma measured_snoc: "length nows = length dues \<Longrightarrow>
    measured (nows @ [now]) (dues @ [d]) = measured nows dues @ [latency now d]"
  by (simp add: measured_def)

text \<open>After an empty poll that came after \<open>done\<close>, nothing is left.\<close>

fun phase_ok :: "phase \<Rightarrow> trial \<Rightarrow> bool" where
  "phase_ok Polling s = True"
| "phase_ok (Missed b) s \<longleftrightarrow> (b \<longrightarrow> t_done s \<and> contents (t_ring s) = [])"
| "phase_ok (Exited b) s \<longleftrightarrow> t_done s \<and> (b \<longrightarrow> contents (t_ring s) = [])"

definition trial_inv :: "nat \<Rightarrow> nat \<Rightarrow> u64 list \<Rightarrow> trial \<Rightarrow> bool" where
  "trial_inv cap warmup dues s \<longleftrightarrow>
     wf_ring (t_ring s) \<and> ring_cap (t_ring s) = cap \<and>
     received s \<le> length dues \<and> length (clocks s) = received s \<and>
     contents (t_ring s) @ t_todo s = map carrier (drop (received s) dues) \<and>
     hist s = drop warmup (measured (clocks s) (take (received s) dues)) \<and>
     (t_done s \<longrightarrow> t_todo s = []) \<and> phase_ok (t_phase s) s"

lemma trial_step_inv:
  assumes "trial_step warmup s s'" and inv: "trial_inv cap warmup dues s"
  shows "trial_inv cap warmup dues s'"
proof -
  have wf: "wf_ring (t_ring s)" using inv by (simp add: trial_inv_def)
  from assms(1) show ?thesis
  proof cases
    case (t_send m ms r)
    then show ?thesis
      using inv rq.sent [OF wf t_send(3)] by (cases "t_phase s") (auto simp: trial_inv_def)
  next
    case (t_full m ms m' r)
    then show ?thesis
      using inv rq.handed_back [OF wf t_full(3)] by (cases "t_phase s") (auto simp: trial_inv_def)
  next
    case t_joined
    then show ?thesis using inv by (cases "t_phase s") (auto simp: trial_inv_def)
  next
    case (t_message m r intended now)
    define vs where "vs = contents r"
    have r: "wf_ring r" "contents r = vs" "ring_cap r = ring_cap (t_ring s)"
      and c: "contents (t_ring s) = m # vs"
      using rq.got [OF wf t_message(3)] by (simp_all add: vs_def)
    have eq: "m # vs @ t_todo s = map carrier (drop (received s) dues)"
      using inv c by (simp add: trial_inv_def)
    then have lt: "received s < length dues"
      by (metis drop_all list.distinct(1) list.map_disc_iff not_le)
    then have drop: "drop (received s) dues = dues ! received s # drop (received s + 1) dues"
      by (simp add: Cons_nth_drop_Suc)
    have m: "m = carrier (dues ! received s)" and rest: "vs @ t_todo s = map carrier (drop (received s + 1) dues)"
      using eq by (simp_all add: drop)
    have int: "intended = dues ! received s" using t_message(4) m by (simp add: intended_of_carrier)
    have len: "length (clocks s) = received s" using inv by (simp add: trial_inv_def)
    have "measured (clocks s @ [now]) (take (received s + 1) dues) =
        measured (clocks s) (take (received s) dues) @ [latency now intended]"
      using lt len int by (simp add: take_Suc_conv_app_nth measured_snoc)
    moreover have "length (measured (clocks s) (take (received s) dues)) = received s"
      using len lt by (simp add: measured_def)
    ultimately have "drop warmup (measured (clocks s @ [now]) (take (received s + 1) dues)) =
        (if warmup \<le> received s then hist s @ [latency now intended] else hist s)"
      using inv by (auto simp: trial_inv_def)
    then show ?thesis
      using inv t_message r rest lt by (auto simp: trial_inv_def)
  next
    case (t_empty r)
    then show ?thesis using inv rq.nothing [OF wf t_empty(3)] by (auto simp: trial_inv_def)
  next
    case (t_exit b)
    then show ?thesis using inv by (auto simp: trial_inv_def)
  next
    case (t_again b)
    then show ?thesis using inv by (auto simp: trial_inv_def)
  qed
qed

lemma trial_init_inv:
  assumes "trial_init cap (map carrier dues) = Inr s"
  shows "trial_inv (unat cap) warmup dues s"
  using assms spsc_wf [of cap "t_ring s"]
  by (auto simp: trial_init_def trial_inv_def measured_def split: sum.splits)

lemma trial_reach_inv:
  "trial_reach cap warmup (map carrier dues) s \<Longrightarrow> trial_inv (unat cap) warmup dues s"
  by (induction rule: trial_reach.induct) (auto intro: trial_init_inv trial_step_inv)

text \<open>What a consumer has not received when it leaves is in the ring.\<close>

lemma missed_at_most_cap:
  assumes "trial_inv cap warmup dues s" and "t_phase s = Exited b"
  shows "length dues \<le> received s + cap"
proof -
  have "contents (t_ring s) = map carrier (drop (received s) dues)" and cap: "wf_ring (t_ring s)" "ring_cap (t_ring s) = cap"
    using assms by (auto simp: trial_inv_def)
  then have "length (contents (t_ring s)) = length dues - received s" by simp
  moreover have "length (contents (t_ring s)) \<le> cap" using cap by (simp add: wf_ring_iff)
  ultimately show ?thesis by simp
qed

text \<open>A latency is the time since the message was due, and one when none has passed.\<close>

lemma latency_value: "latency now d = (if d < now then now - d else 1)"
proof (cases "d < now")
  case True
  then have "1 \<le> now - d" by (simp add: word_le_nat_alt word_less_nat_alt unat_sub less_imp_le)
  with True show ?thesis by (simp add: latency_def saturating_sub_def less_imp_le max_def)
next
  case False
  then show ?thesis by (auto simp: latency_def saturating_sub_def)
qed

section \<open>Properties\<close>

text \<open>
  C21: In a trial of \<open>n\<close> messages every latency recorded is that of the message due at
  \<open>start + i * interval\<close>, in order from the first after the warm-up on: the time between that
  moment and the clock reading at its receipt, and one when the clock shows no time after it, so
  none is below one.  A consumer that found the ring
  empty after \<open>done\<close> was set has received all \<open>n\<close> messages when it leaves; one that found it
  empty before may have missed as many as the ring holds, and not more.
\<close>

theorem trial_records:
  assumes "publisher_messages start interval n = Inr msgs" and "trial_reach cap warmup msgs s"
  shows "received s \<le> n \<and> length (clocks s) = received s \<and>
    hist s = map (\<lambda>i. let d = start + of_nat i * interval; now = clocks s ! i in if d < now then now - d else 1)
      [warmup..<received s] \<and>
    (\<forall>l\<in>set (hist s). 1 \<le> l) \<and>
    (t_phase s = Exited True \<longrightarrow> received s = n) \<and>
    (t_phase s = Exited b \<longrightarrow> n \<le> received s + unat cap)"
proof -
  define dues where "dues = map (due start interval) [0..<n]"
  have "msgs = map carrier dues" using assms(1) by (simp add: publisher_messages_eq dues_def comp_def)
  then have inv: "trial_inv (unat cap) warmup dues s" using trial_reach_inv assms(2) by simp
  have len: "length dues = n" by (simp add: dues_def)
  have "hist s = drop warmup (measured (clocks s) (take (received s) dues))"
    and rc: "received s \<le> n" "length (clocks s) = received s"
    using inv len by (simp_all add: trial_inv_def)
  then have h: "hist s = map (\<lambda>i. latency (clocks s ! i) (due start interval i)) [warmup..<received s]"
    by (intro nth_equalityI) (auto simp: measured_def dues_def)
  then have "hist s = map (\<lambda>i. let d = start + of_nat i * interval; now = clocks s ! i in if d < now then now - d else 1)
      [warmup..<received s]"
    by (simp add: latency_value due_def Let_def)
  moreover have "\<forall>l\<in>set (hist s). 1 \<le> l" by (simp add: h latency_def)
  moreover have "received s = n" if "t_phase s = Exited True"
    using inv that len by (auto simp: trial_inv_def)
  moreover have "n \<le> received s + unat cap" if "t_phase s = Exited b"
    using missed_at_most_cap [OF inv that] len by simp
  ultimately show ?thesis using rc by simp
qed

definition ex_msgs :: "message list" where
  "ex_msgs = [carrier (due 7 100 0)]"

definition ex_trial :: trial where
  "ex_trial = \<lparr>t_ring = \<lparr>head = 0, tail = 0, slots = [None, None], rmask = 1\<rparr>, t_todo = ex_msgs, t_done = False,
     t_phase = Polling, received = 0, clocks = [], hist = []\<rparr>"

lemma ex_publisher: "publisher_messages 7 100 1 = Inr ex_msgs"
  by (simp add: publisher_messages_eq ex_msgs_def)

lemma ex_trial_start: "trial_reach 2 w ex_msgs ex_trial"
proof (rule trial_start)
  have "spsc 2 = Inr (\<lparr>head = 0, tail = 0, slots = [None, None], rmask = 1\<rparr> :: message ring)"
  proof -
    have "is_power_of_two 2" by code_simp
    moreover have "replicate (unat (2 :: usize)) None = [None, None :: message option]"
    proof -
      have "unat (2 :: usize) = Suc (Suc 0)" by simp
      then show ?thesis by (simp only: replicate_Suc replicate_0)
    qed
    ultimately show ?thesis by (simp add: spsc_def)
  qed
  then show "trial_init 2 ex_msgs = Inr ex_trial" by (simp add: trial_init_def ex_trial_def)
qed

text \<open>The ring with the one message in it, and after it has been taken out.\<close>

definition ex_ring1 :: "message ring" where
  "ex_ring1 = \<lparr>head = 1, tail = 0, slots = [Some (carrier (due 7 100 0)), None], rmask = 1\<rparr>"

definition ex_ring2 :: "message ring" where
  "ex_ring2 = \<lparr>head = 1, tail = 1, slots = [None, None], rmask = 1\<rparr>"

lemma ex_ring_ops:
  "try_send (carrier (due 7 100 0)) (t_ring ex_trial) = Inr (Inr (), ex_ring1)"
  "try_recv (t_ring ex_trial) = Inr (None, t_ring ex_trial)"
  "try_recv ex_ring1 = Inr (Some (carrier (due 7 100 0)), ex_ring2)"
  by (simp_all add: try_send_def try_recv_def slot_write_def slot_take_def ex_trial_def ex_ring1_def ex_ring2_def)

theorem trial_records_witness:
  "\<exists>s. trial_reach 2 0 ex_msgs s \<and> received s = 1 \<and> clocks s = [57] \<and> hist s = [50]"
proof -
  let ?s1 = "ex_trial\<lparr>t_ring := ex_ring1, t_todo := []\<rparr>"
  let ?s2 = "?s1\<lparr>t_ring := ex_ring2, received := received ?s1 + 1, clocks := clocks ?s1 @ [57],
    hist := (if received ?s1 \<ge> 0 then hist ?s1 @ [latency 57 (due 7 100 0)] else hist ?s1)\<rparr>"
  have 1: "trial_step 0 ex_trial ?s1"
    by (rule t_send [OF _ ex_ring_ops(1)]) (simp add: ex_trial_def ex_msgs_def)
  have 2: "trial_step 0 ?s1 ?s2"
    by (rule t_message [of _ "carrier (due 7 100 0)"])
      (simp_all add: ex_ring_ops intended_of_carrier, simp add: ex_trial_def)
  have r: "trial_reach 2 0 ex_msgs ?s2"
    by (rule trial_next [OF trial_next [OF ex_trial_start 1] 2])
  have rc: "received ?s2 = 1" "clocks ?s2 = [57]" by (simp_all add: ex_trial_def)
  have "hist ?s2 = map (\<lambda>i. let d = 7 + of_nat i * 100; now = clocks ?s2 ! i in if d < now then now - d else 1) [0..<received ?s2]"
    using trial_records [OF ex_publisher r] by blast
  also have "\<dots> = [50]" unfolding rc by (simp add: Let_def)
  finally have h: "hist ?s2 = [50]" .
  show ?thesis by (rule exI [of _ ?s2], intro conjI) (fact r rc h)+
qed

text \<open>
  The shutdown race.  A consumer may leave its loop without having received all messages: when
  it finds the ring empty, then the publisher sends its last message and returns and \<open>done\<close> is
  set, and only then it looks at the flag, the message stays in the ring and is not measured.
\<close>

lemma trial_may_miss_last_message:
  "\<exists>s. trial_reach 2 w ex_msgs s \<and> t_phase s = Exited False \<and> received s = 0 \<and> hist s = [] \<and>
     contents (t_ring s) = ex_msgs"
proof -
  let ?s1 = "ex_trial\<lparr>t_ring := t_ring ex_trial, t_phase := Missed (t_done ex_trial)\<rparr>"
  let ?s2 = "?s1\<lparr>t_ring := ex_ring1, t_todo := []\<rparr>"
  let ?s3 = "?s2\<lparr>t_done := True\<rparr>"
  let ?s4 = "?s3\<lparr>t_phase := Exited False\<rparr>"
  have 1: "trial_step w ex_trial ?s1"
    by (rule t_empty [OF _ ex_ring_ops(2)]) (simp add: ex_trial_def)
  have 2: "trial_step w ?s1 ?s2"
    by (rule t_send [of _ "carrier (due 7 100 0)"]) (simp_all add: ex_ring_ops, simp add: ex_trial_def ex_msgs_def)
  have 3: "trial_step w ?s2 ?s3" by (rule t_joined) simp
  have 4: "trial_step w ?s3 ?s4" by (rule t_exit) (simp_all add: ex_trial_def)
  have "trial_reach 2 w ex_msgs ?s4"
    by (rule trial_next [OF trial_next [OF trial_next [OF trial_next [OF ex_trial_start 1] 2] 3] 4])
  moreover have "contents ex_ring1 = ex_msgs"
    by (simp add: contents_def ring_len_def slot_index_def ex_ring1_def ex_msgs_def)
  ultimately show ?thesis by (intro exI [of _ ?s4]) (simp add: ex_trial_def)
qed

end
