(* ===== verification/Rate_Run.thy ===== *)
theory Rate_Run
  imports Config Latency_Trial Base64 "HOL-Library.Multiset"
begin

text \<open>
  The driver of \<open>crates/bench/src/tail_bench.rs\<close>: \<open>run_rate\<close> repeats the trial at one rate and
  sums up its 99th percentiles, and \<open>main\<close> sweeps the configured rates, first with a spinning and
  then with a yielding consumer.  Histograms belong to the \<open>hdrhistogram\<close> crate: their operations
  are a parameter, and so is what a trial records (theory \<open>Latency_Trial\<close> models how).
\<close>

section \<open>The driver\<close>

record 'h hist_ops =
  h_new :: 'h
  h_add :: "'h \<Rightarrow> 'h \<Rightarrow> panic + 'h"
  h_quantile :: "nat \<Rightarrow> 'h \<Rightarrow> u64"      \<comment> \<open>in thousandths\<close>
  h_min :: "'h \<Rightarrow> u64"
  h_max :: "'h \<Rightarrow> u64"
  h_serialize :: "'h \<Rightarrow> u8 list"

record rate_result =
  wait_label :: string
  pinned :: bool
  rate_hz :: u64
  trials :: nat
  p99_per_trial :: "u64 list"
  p99_median :: u64
  p99_iqr :: u64
  agg_min :: u64
  agg_p50 :: u64
  agg_p99 :: u64
  agg_p999 :: u64
  agg_max :: u64
  agg_hdr_base64 :: string
  total_drops :: u64
  passes_sub_us :: bool

fun strategy_label :: "wait_strategy \<Rightarrow> string" where
  "strategy_label BusySpin = ''busy-spin''"
| "strategy_label Yield = ''yield''"

text \<open>The \<open>i\<close>-th trial: its histogram, and the constant drop count of \<open>spsc_trial\<close>.\<close>

definition trial_outcome :: "(nat \<Rightarrow> 'h) \<Rightarrow> u64 \<Rightarrow> nat \<Rightarrow> panic + ('h \<times> u64)" where
  "trial_outcome outcome rate i = and_then (interval_of rate) (\<lambda>interval_ns. Inr (outcome i, 0))"

fun rate_loop ::
    "'h hist_ops \<Rightarrow> (nat \<Rightarrow> 'h) \<Rightarrow> u64 \<Rightarrow> nat list \<Rightarrow> 'h \<times> u64 list \<times> u64
      \<Rightarrow> panic + ('h \<times> u64 list \<times> u64)" where
  "rate_loop ops outcome rate [] (agg, p99s, drops) = Inr (agg, p99s, drops)"
| "rate_loop ops outcome rate (i # is) (agg, p99s, drops) =
     and_then (trial_outcome outcome rate i) (\<lambda>(h, d).
     and_then (h_add ops agg h) (\<lambda>agg'.
     rate_loop ops outcome rate is (agg', p99s @ [h_quantile ops 990 h], drops + d)))"

definition run_rate ::
    "'h hist_ops \<Rightarrow> (nat \<Rightarrow> 'h) \<Rightarrow> u64 \<Rightarrow> nat \<Rightarrow> bool \<Rightarrow> wait_strategy \<Rightarrow> panic + rate_result" where
  "run_rate ops outcome rate n pin wait =
     and_then (rate_loop ops outcome rate [0..<n] (h_new ops, [], 0)) (\<lambda>(agg, p99s, drops).
       let (med, spread, ok) = rate_verdict p99s in
       and_then (base64_encode (h_serialize ops agg)) (\<lambda>hdr.
       Inr \<lparr>wait_label = strategy_label wait, pinned = pin, rate_hz = rate, trials = n,
            p99_per_trial = sort p99s, p99_median = med, p99_iqr = spread,
            agg_min = h_min ops agg, agg_p50 = h_quantile ops 500 agg, agg_p99 = h_quantile ops 990 agg,
            agg_p999 = h_quantile ops 999 agg, agg_max = h_max ops agg, agg_hdr_base64 = hdr,
            total_drops = drops, passes_sub_us = ok\<rparr>))"

definition rate_sweep ::
    "'h hist_ops \<Rightarrow> (wait_strategy \<Rightarrow> u64 \<Rightarrow> nat \<Rightarrow> 'h) \<Rightarrow> u64 list \<Rightarrow> nat \<Rightarrow> panic + rate_result list" where
  "rate_sweep ops outcome rates n =
     and_then (collect_all (map (\<lambda>r. run_rate ops (outcome BusySpin r) r n True BusySpin) rates)) (\<lambda>spin.
     and_then (collect_all (map (\<lambda>r. run_rate ops (outcome Yield r) r n True Yield) rates)) (\<lambda>yield.
     Inr (spin @ yield)))"

definition tail_bench ::
    "'h hist_ops \<Rightarrow> (wait_strategy \<Rightarrow> u64 \<Rightarrow> nat \<Rightarrow> 'h) \<Rightarrow> chars option \<Rightarrow> chars option
      \<Rightarrow> panic + rate_result list" where
  "tail_bench ops outcome rates_var trials_var =
     rate_sweep ops outcome (rates_of rates_var) (unat (number_of DEFAULT_TRIALS trials_var))"

section \<open>One rate\<close>

text \<open>Adding a histogram of the same bounds succeeds, as the \<open>hdrhistogram\<close> crate documents.\<close>

definition adds :: "'h hist_ops \<Rightarrow> ('h \<Rightarrow> 'h \<Rightarrow> 'h) \<Rightarrow> bool" where
  "adds ops merge \<longleftrightarrow> (\<forall>a b. h_add ops a b = Inr (merge a b))"

lemma rate_loop_ok:
  assumes "adds ops merge" and "rate \<noteq> 0"
  shows "rate_loop ops outcome rate is (agg, p99s, drops) =
    Inr (foldl merge agg (map outcome is), p99s @ map (\<lambda>i. h_quantile ops 990 (outcome i)) is, drops)"
  using assms by (induction "is" arbitrary: agg p99s) (simp_all add: adds_def trial_outcome_def interval_of_def)

lemma rate_loop_zero:
  "is \<noteq> [] \<Longrightarrow> rate_loop ops outcome 0 is st = Inl AssertFailed"
  by (cases "is"; cases st) (simp_all add: trial_outcome_def interval_of_def)

definition p99s_of :: "'h hist_ops \<Rightarrow> (nat \<Rightarrow> 'h) \<Rightarrow> nat \<Rightarrow> u64 list" where
  "p99s_of ops outcome n = map (\<lambda>i. h_quantile ops 990 (outcome i)) [0..<n]"

definition aggregate :: "'h hist_ops \<Rightarrow> ('h \<Rightarrow> 'h \<Rightarrow> 'h) \<Rightarrow> (nat \<Rightarrow> 'h) \<Rightarrow> nat \<Rightarrow> 'h" where
  "aggregate ops merge outcome n = foldl merge (h_new ops) (map outcome [0..<n])"

lemma run_rate_Inr:
  assumes "adds ops merge" and "rate \<noteq> 0 \<or> n = 0"
  shows "\<exists>r. run_rate ops outcome rate n pin wait = Inr r \<and>
    p99_per_trial r = sort (p99s_of ops outcome n) \<and>
    p99_median r = median (sort (p99s_of ops outcome n)) \<and> p99_iqr r = iqr (sort (p99s_of ops outcome n)) \<and>
    passes_sub_us r = passes (p99s_of ops outcome n) \<and>
    agg_max r = h_max ops (aggregate ops merge outcome n) \<and>
    b64_decode (agg_hdr_base64 r) = Some (h_serialize ops (aggregate ops merge outcome n)) \<and>
    total_drops r = 0 \<and> rate_hz r = rate \<and> trials r = n \<and> pinned r = pin \<and> wait_label r = strategy_label wait"
proof -
  let ?agg = "aggregate ops merge outcome n"
  have "rate_loop ops outcome rate [0..<n] (h_new ops, [], 0) = Inr (?agg, p99s_of ops outcome n, 0)"
    using rate_loop_ok [OF assms(1), of rate outcome "[0..<n]" "h_new ops" "[]" 0] assms(2)
    by (cases "n = 0") (auto simp: p99s_of_def aggregate_def)
  moreover obtain hdr where "base64_encode (h_serialize ops ?agg) = Inr hdr" "b64_decode hdr = Some (h_serialize ops ?agg)"
    using base64_encode_spec [of "h_serialize ops ?agg"] by (auto simp: base64_encode_def)
  ultimately show ?thesis by (simp add: run_rate_def rate_verdict_def passes_def Let_def)
qed

lemma run_rate_zero: "0 < n \<Longrightarrow> run_rate ops outcome 0 n pin wait = Inl AssertFailed"
  by (simp add: run_rate_def rate_loop_zero)

text \<open>The median lies between the extremes.\<close>

lemma median_between:
  fixes xs :: "u64 list"
  assumes "sorted xs" and "xs \<noteq> []" and "\<forall>x\<in>set xs. unat x < 2 ^ 63"
  shows "hd xs \<le> median xs \<and> median xs \<le> last xs"
proof -
  let ?n = "length xs"
  have n: "0 < ?n" using assms(2) by simp
  have ends: "hd xs \<le> xs ! i" "xs ! i \<le> last xs" if "i < ?n" for i
    using sorted_nth_mono [OF assms(1), of 0 i] sorted_nth_mono [OF assms(1), of i "?n - 1"] that assms(2)
    by (simp_all add: hd_conv_nth last_conv_nth)
  show ?thesis
  proof (cases "?n mod 2 = 1")
    case True
    then show ?thesis using ends [of "?n div 2"] n by (simp add: median_def Let_def)
  next
    case False
    then have i: "?n div 2 - 1 < ?n" "?n div 2 < ?n" using n by presburger+
    have le: "xs ! (?n div 2 - 1) \<le> xs ! (?n div 2)" using assms(1) i by (intro sorted_nth_mono) auto
    then have "xs ! (?n div 2 - 1) \<le> median xs" "median xs \<le> xs ! (?n div 2)"
      using low_le_mean [OF le] assms(3) i False n by (simp_all add: median_def Let_def)
    with ends(1) [OF i(1)] ends(2) [OF i(2)] show ?thesis by (meson order_trans)
  qed
qed

section \<open>Properties\<close>

text \<open>
  C27: One rate of the sweep: for a rate above zero \<open>run_rate\<close> returns, its list of 99th percentiles
  is a sorted permutation of those of its trials, the median lies between the smallest and the
  largest, no drop is reported, and the exported text decodes to the serialised aggregate of the
  histograms of all trials.
\<close>

theorem run_rate_result:
  assumes "adds ops merge" and "rate \<noteq> 0" and "\<forall>h. unat (h_quantile ops 990 h) < 2 ^ 63"
  shows "\<exists>r. run_rate ops outcome rate n pin wait = Inr r \<and>
    sorted (p99_per_trial r) \<and> mset (p99_per_trial r) = mset (map (\<lambda>i. h_quantile ops 990 (outcome i)) [0..<n]) \<and>
    (0 < n \<longrightarrow> hd (p99_per_trial r) \<le> p99_median r \<and> p99_median r \<le> last (p99_per_trial r)) \<and>
    total_drops r = 0 \<and>
    b64_decode (agg_hdr_base64 r) = Some (h_serialize ops (foldl merge (h_new ops) (map outcome [0..<n])))"
proof -
  obtain r where r: "run_rate ops outcome rate n pin wait = Inr r" "p99_per_trial r = sort (p99s_of ops outcome n)"
      "p99_median r = median (sort (p99s_of ops outcome n))" "total_drops r = 0"
      "b64_decode (agg_hdr_base64 r) = Some (h_serialize ops (aggregate ops merge outcome n))"
    using run_rate_Inr [OF assms(1), of rate n outcome pin wait] assms(2) by auto
  have "hd (p99_per_trial r) \<le> p99_median r \<and> p99_median r \<le> last (p99_per_trial r)" if "0 < n"
    unfolding r(2,3) using that assms(3)
    by (intro median_between) (auto simp: p99s_of_def simp flip: length_0_conv)
  with r show ?thesis by (auto simp: p99s_of_def aggregate_def)
qed

text \<open>A histogram that keeps every value, for concrete runs.\<close>

definition exact_hist :: "u64 list hist_ops" where
  "exact_hist = \<lparr>h_new = [], h_add = (\<lambda>a b. Inr (a @ b)),
     h_quantile = (\<lambda>q h. if h = [] then 0 else min (sort h ! (q * (length h - 1) div 1000)) (2 ^ 62)),
     h_min = (\<lambda>h. foldl min (2 ^ 62) h), h_max = foldl max 0,
     h_serialize = (\<lambda>h. concat (map to_le_bytes h))\<rparr>"

lemma exact_hist_ok: "adds exact_hist (@)" "\<forall>h. unat (h_quantile exact_hist 990 h) < 2 ^ 63"
proof -
  show "adds exact_hist (@)" by (simp add: adds_def exact_hist_def)
  have "unat (min a (2 ^ 62) :: u64) < 2 ^ 63" for a :: u64
  proof -
    have "min a (2 ^ 62) \<le> (2 ^ 62 :: u64)" by simp
    then have "unat (min a (2 ^ 62)) \<le> unat (2 ^ 62 :: u64)" by (rule iffD1 [OF word_le_nat_alt])
    then show ?thesis by simp
  qed
  then show "\<forall>h. unat (h_quantile exact_hist 990 h) < 2 ^ 63" by (simp add: exact_hist_def)
qed

theorem run_rate_result_witness:
  "\<exists>r. run_rate exact_hist (\<lambda>i. [900 - of_nat i, 700]) 1000 3 True BusySpin = Inr r \<and>
     sorted (p99_per_trial r) \<and> length (p99_per_trial r) = 3 \<and> total_drops r = 0"
proof -
  have "(1000 :: u64) \<noteq> 0" by simp
  then obtain r where r: "run_rate exact_hist (\<lambda>i. [900 - of_nat i, 700]) 1000 3 True BusySpin = Inr r"
      "sorted (p99_per_trial r)" "total_drops r = 0"
      "mset (p99_per_trial r) = mset (map (\<lambda>i. h_quantile exact_hist 990 [900 - of_nat i, 700]) [0..<3])"
    using run_rate_result [OF exact_hist_ok(1) _ exact_hist_ok(2), of 1000 "\<lambda>i. [900 - of_nat i, 700]" 3 True BusySpin]
    by blast
  have "size (mset (p99_per_trial r)) = 3" unfolding r(4) by (simp del: mset_map)
  then have "length (p99_per_trial r) = 3" by simp
  with r show ?thesis by blast
qed

lemma passes_sort: "passes (sort xs) = passes xs"
  by (simp add: passes_def rate_verdict_def sorted_sort_id)

definition rows_ok :: "wait_strategy \<Rightarrow> u64 list \<Rightarrow> nat \<Rightarrow> rate_result list \<Rightarrow> bool" where
  "rows_ok w rates n rs \<longleftrightarrow> map (\<lambda>r. (wait_label r, rate_hz r)) rs = map (Pair (strategy_label w)) rates \<and>
     (\<forall>r\<in>set rs. pinned r \<and> trials r = n \<and> passes_sub_us r = passes (p99_per_trial r))"

lemma sweep_rows:
  assumes "adds ops merge"
  shows "0 \<notin> set rates \<or> n = 0 \<Longrightarrow>
    \<exists>rs. collect_all (map (\<lambda>r. run_rate ops (outcome r) r n True w) rates) = Inr rs \<and> rows_ok w rates n rs"
proof (induction rates)
  case Nil
  then show ?case by (simp add: rows_ok_def)
next
  case (Cons x xs)
  obtain r where r: "run_rate ops (outcome x) x n True w = Inr r" "p99_per_trial r = sort (p99s_of ops (outcome x) n)"
      "passes_sub_us r = passes (p99s_of ops (outcome x) n)" "rate_hz r = x" "trials r = n" "pinned r"
      "wait_label r = strategy_label w"
    using run_rate_Inr [OF assms, of x n "outcome x" True w] Cons.prems by auto
  obtain rs where "collect_all (map (\<lambda>r. run_rate ops (outcome r) r n True w) xs) = Inr rs" "rows_ok w xs n rs"
    using Cons by auto
  with r show ?case by (intro exI [of _ "r # rs"]) (simp add: rows_ok_def passes_sort)
qed

lemma sweep_panics:
  assumes "adds ops merge" and "0 < n"
  shows "0 \<in> set rates \<Longrightarrow> collect_all (map (\<lambda>r. run_rate ops (outcome r) r n True w) rates) = Inl AssertFailed"
proof (induction rates)
  case (Cons x xs)
  show ?case
  proof (cases "x = 0")
    case False
    then obtain r where "run_rate ops (outcome x) x n True w = Inr r"
      using run_rate_Inr [OF assms(1), of x n "outcome x" True w] by blast
    with Cons False show ?thesis by simp
  qed (simp add: run_rate_zero assms(2))
qed simp

text \<open>
  The sweep as configured by the environment.  It yields one row per configured rate with the
  spinning consumer and then one per rate with the yielding consumer, in the order given, unless
  a configured rate is zero: the variable is accepted, and the run panics with a division by zero
  before anything is exported.
\<close>

lemma tail_bench_rows:
  assumes "adds ops merge"
  shows "if 0 \<in> set (rates_of rates_var) \<and> number_of DEFAULT_TRIALS trials_var \<noteq> 0
    then tail_bench ops outcome rates_var trials_var = Inl AssertFailed
    else \<exists>rs. tail_bench ops outcome rates_var trials_var = Inr rs \<and>
      map (\<lambda>r. (wait_label r, rate_hz r)) rs =
        map (Pair ''busy-spin'') (rates_of rates_var) @ map (Pair ''yield'') (rates_of rates_var) \<and>
      (\<forall>r\<in>set rs. pinned r \<and> trials r = unat (number_of DEFAULT_TRIALS trials_var) \<and>
         passes_sub_us r = passes (p99_per_trial r))"
proof -
  define n rates where "n = unat (number_of DEFAULT_TRIALS trials_var)" and "rates = rates_of rates_var"
  have run: "tail_bench ops outcome rates_var trials_var = rate_sweep ops outcome rates n"
    by (simp add: tail_bench_def n_def rates_def)
  have n0: "number_of DEFAULT_TRIALS trials_var \<noteq> 0 \<longleftrightarrow> 0 < n" by (simp add: n_def unat_gt_0)
  show ?thesis
  proof (cases "0 \<in> set rates \<and> 0 < n")
    case True
    then show ?thesis
      using sweep_panics [OF assms, of n rates "outcome BusySpin" BusySpin]
      unfolding run n0 rates_def [symmetric] by (simp add: rate_sweep_def)
  next
    case False
    then obtain rs rs' where
        "collect_all (map (\<lambda>r. run_rate ops (outcome BusySpin r) r n True BusySpin) rates) = Inr rs" "rows_ok BusySpin rates n rs"
        "collect_all (map (\<lambda>r. run_rate ops (outcome Yield r) r n True Yield) rates) = Inr rs'" "rows_ok Yield rates n rs'"
      using sweep_rows [OF assms, of rates n "outcome BusySpin" BusySpin] sweep_rows [OF assms, of rates n "outcome Yield" Yield]
      by blast
    then show ?thesis
      using False unfolding run n0 rates_def [symmetric] n_def [symmetric]
      by (auto simp: rate_sweep_def rows_ok_def)
  qed
qed

lemma tail_bench_rows_example:
  "tail_bench exact_hist (\<lambda>w r i. [700]) (Some [0x30]) None = Inl AssertFailed"
proof -
  have "rates_of (Some [0x30]) = [0]"
    by (simp add: rates_of_def trim_def is_whitespace_def parse_u64_def List.map_filter_simps)
  then have zero: "0 \<in> set (rates_of (Some [0x30])) \<and> number_of DEFAULT_TRIALS None \<noteq> 0"
    by (simp add: number_of_def DEFAULT_TRIALS_def)
  show ?thesis
    using tail_bench_rows [OF exact_hist_ok(1), of "Some [0x30]" None "\<lambda>w r i. [700]"]
    unfolding if_P [OF zero] .
qed

end
