(* ===== verification/Thread_Test.thy ===== *)
theory Thread_Test
  imports Spsc_Threads Rate_Run
begin

text \<open>
  The test \<open>threaded_spsc\<close> of \<open>crates/bus/src/spsc.rs\<close>, on the interleavings of the two threads: the
  consumer has received as many values as the producer had, and adds them up.  The test
  \<open>short_trial_records\<close> of \<open>crates/bench/src/tail_bench.rs\<close>, on the interleavings of a latency trial.
\<close>

definition threaded_values :: "u64 list" where
  "threaded_values = map of_nat [0..<100000]"

definition threaded_sum :: "u64 spsc_sys \<Rightarrow> u64" where
  "threaded_sum s = sum_list (got s)"

lemma all_received:
  assumes "spsc_inv vals s" and "length (got s) = length vals"
  shows "got s = vals"
proof -
  have vals: "map fst (calls s) @ in_call (ppc s) @ todo s = vals"
    using assms(1) by (simp add: spsc_inv_def inv_values_def)
  have pre: "prefix (got s) (sent s)" by (rule got_prefix [OF assms(1)])
  have len: "length (filter snd (calls s)) \<le> length (calls s)" by (rule length_filter_le)
  have "length (got s) \<le> length (filter snd (calls s))"
    using prefix_length_le [OF pre] by (simp add: oks_def)
  moreover have "length (calls s) \<le> length vals" using vals by (metis length_append length_map le_add1)
  ultimately have full: "length (filter snd (calls s)) = length (calls s)" "length (calls s) = length vals"
    using assms(2) len by linarith+
  then have "filter snd (calls s) = calls s" by (metis length_filter_less less_irrefl filter_True)
  then have "sent s = vals" using vals full(2) by (auto simp: oks_def)
  with pre assms(2) show ?thesis by (auto simp: prefix_def)
qed

text \<open>Whatever the interleaving, the sum is the one the test expects.\<close>

lemma threaded_test_passes:
  assumes "spsc_reach 1024 threaded_values s" and "length (got s) = 100000"
  shows "threaded_sum s = sum_list threaded_values"
proof -
  have "spsc_inv threaded_values s" using reach_inv [OF assms(1)] by simp
  then have "got s = threaded_values" using assms(2) by (intro all_received) (simp_all add: threaded_values_def)
  then show ?thesis by (simp add: threaded_sum_def)
qed

section \<open>A short trial\<close>

text \<open>The trial of the test runs at 100 kHz; its histogram is what the threads have left.\<close>

definition short_trial_records :: "'h hist_ops \<Rightarrow> 'h \<Rightarrow> bool" where
  "short_trial_records ops h =
     (case trial_outcome (\<lambda>i. h) 100000 0 of
        Inl p \<Rightarrow> False
      | Inr (h, drops) \<Rightarrow> drops = 0 \<and> h_max ops h \<ge> 1)"

text \<open>
  The test passes when the consumer leaves because the ring was empty after \<open>done\<close>, or has received
  anything after the warm-up: then the histogram holds a latency, and none is below one.  That it
  has is likely and not certain: the ring is larger than the trial, so by
  \<open>trial_may_miss_last_message\<close> and the bound of \<open>trial_records\<close> a consumer that is not run between
  an empty poll and its look at the flag may leave with less than the warm-up received.
\<close>

lemma short_trial_passes:
  assumes "publisher_messages start 10000 (100000 + 10000) = Inr msgs" and "trial_reach (2 ^ 17) 10000 msgs s"
    and "t_phase s = Exited True \<or> 10000 < received s"
    and "\<forall>x\<in>set (hist s). x \<le> h_max ops h"
  shows "short_trial_records ops h"
proof -
  have "trial_inv (unat (2 ^ 17 :: usize)) 10000 (map (due start 10000) [0..<110000]) s"
    using assms(1,2) trial_reach_inv [of "2 ^ 17" 10000 "map (due start 10000) [0..<110000]" s]
    by (simp add: publisher_messages_eq comp_def del: upt_conv_Cons)
  then have h: "hist s = drop 10000 (measured (clocks s) (take (received s) (map (due start 10000) [0..<110000])))"
    and c: "length (clocks s) = received s" "received s \<le> 110000"
    and left: "contents (t_ring s) @ t_todo s = map carrier (drop (received s) (map (due start 10000) [0..<110000]))"
    and ph: "t_done s \<longrightarrow> t_todo s = []" "phase_ok (t_phase s) s"
    by (simp_all add: trial_inv_def)
  have "received s = 110000" if "t_phase s = Exited True"
    using left ph that c(2) by simp
  then have r: "10000 < received s" using assms(3) by auto
  then have "hist s \<noteq> []" using h c by (simp add: measured_def)
  then obtain x where x: "x \<in> set (hist s)" by (cases "hist s") auto
  then have "x \<in> set (measured (clocks s) (take (received s) (map (due start 10000) [0..<110000])))"
    unfolding h by (rule in_set_dropD)
  then have "1 \<le> x" by (auto simp: measured_def latency_def)
  also have "x \<le> h_max ops h" using assms(4) x by blast
  finally show ?thesis by (simp add: short_trial_records_def trial_outcome_def interval_of_def)
qed

end
