(* ===== verification/Environment.thy ===== *)
theory Environment
  imports Config "HOL-Library.Sublist"
begin

text \<open>
  What the benchmarks record about the machine they run on: \<open>env_block\<close> of
  \<open>crates/bench/src/tail_bench.rs\<close> and the block that \<open>main\<close> of \<open>persist_verify.rs\<close> builds.  The files
  of \<open>/proc\<close> and \<open>/sys\<close> and the variables of the environment are parameters: maps from names to
  texts, with \<open>None\<close> for what cannot be read.
\<close>

section \<open>Texts\<close>

definition chars_of :: "string \<Rightarrow> chars" where
  "chars_of s = map of_char s"

text \<open>
  \<open>str::lines\<close>: pieces ended by a newline, without it and without a carriage return before it; what
  follows the last newline is a piece unless it is empty.
\<close>

definition strip_cr :: "chars \<Rightarrow> chars" where
  "strip_cr l = (if l \<noteq> [] \<and> last l = 0x0D then butlast l else l)"

definition text_lines :: "chars \<Rightarrow> chars list" where
  "text_lines s =
     (let pieces = split_on 0x0A s in
      map strip_cr (butlast pieces) @ (if last pieces = [] then [] else [last pieces]))"

text \<open>\<open>str::split_whitespace\<close>: the maximal runs of characters that are not white space.\<close>

fun split_whitespace :: "chars \<Rightarrow> chars list" where
  "split_whitespace [] = []"
| "split_whitespace (c # cs) =
     (if is_whitespace c then split_whitespace cs
      else if cs = [] \<or> is_whitespace (hd cs) then [c] # split_whitespace cs
      else (case split_whitespace cs of [] \<Rightarrow> [[c]] | w # ws \<Rightarrow> (c # w) # ws))"

text \<open>\<open>str::contains\<close> and \<open>str::split(..).nth(1)\<close>.\<close>

definition text_contains :: "chars \<Rightarrow> chars \<Rightarrow> bool" where
  "text_contains s pat = list_ex (prefix pat) (suffixes s)"

definition nth_piece :: "nat \<Rightarrow> nat \<Rightarrow> chars \<Rightarrow> chars option" where
  "nth_piece c i s = (let ps = split_on c s in if i < length ps then Some (ps ! i) else None)"

section \<open>The blocks\<close>

type_synonym names = "string \<Rightarrow> chars option"

definition read_trim :: "names \<Rightarrow> string \<Rightarrow> chars option" where
  "read_trim files path = map_option trim (files path)"

definition or_text :: "chars option \<Rightarrow> string \<Rightarrow> chars" where
  "or_text t fallback = (case t of None \<Rightarrow> chars_of fallback | Some s \<Rightarrow> s)"

definition cpu_model_of :: "chars \<Rightarrow> chars" where
  "cpu_model_of cpuinfo =
     or_text (map_option trim
       (Option.bind (List.find (prefix (chars_of ''model name'')) (text_lines cpuinfo)) (nth_piece 0x3A 1)))
       ''unknown''"

definition tsc_flags_of :: "chars \<Rightarrow> chars" where
  "tsc_flags_of cpuinfo =
     (let v = (if text_contains cpuinfo (chars_of ''constant_tsc'') then [chars_of ''constant_tsc''] else []) @
              (if text_contains cpuinfo (chars_of ''nonstop_tsc'') then [chars_of ''nonstop_tsc''] else []) in
      if v = [] then chars_of ''none (TSC may be unreliable)'' else join_with 0x2C v)"

definition isolcpus_of :: "chars \<Rightarrow> chars" where
  "isolcpus_of cmdline = or_text (List.find (prefix (chars_of ''isolcpus='')) (split_whitespace cmdline)) ''none''"

record env_info =
  os :: chars
  arch :: chars
  logical_cores :: nat
  cpu_model :: chars
  governor :: chars
  turbo_disabled :: chars
  isolcpus :: chars
  tsc_flags :: chars
  env_kernel :: chars
  rustc :: chars
  rustflags :: chars
  lat_msgs :: nat
  lat_warmup :: nat
  env_capacity :: nat

definition env_block :: "names \<Rightarrow> names \<Rightarrow> chars \<Rightarrow> chars \<Rightarrow> nat \<Rightarrow> env_info" where
  "env_block files vars os_name arch_name cores =
     (let cpuinfo = or_text (files ''/proc/cpuinfo'') [];
          cmdline = or_text (read_trim files ''/proc/cmdline'') [] in
      \<lparr>os = os_name, arch = arch_name, logical_cores = cores,
       cpu_model = cpu_model_of cpuinfo,
       governor = or_text (read_trim files ''/sys/devices/system/cpu/cpu0/cpufreq/scaling_governor'') ''unknown'',
       turbo_disabled = or_text (read_trim files ''/sys/devices/system/cpu/intel_pstate/no_turbo'') ''unknown'',
       isolcpus = isolcpus_of cmdline,
       tsc_flags = tsc_flags_of cpuinfo,
       env_kernel = or_text (read_trim files ''/proc/sys/kernel/osrelease'') ''unknown'',
       rustc = or_text (vars ''CADENCE_RUSTC'') ''unset'',
       rustflags = or_text (vars ''CADENCE_RUSTFLAGS'') ''unset'',
       lat_msgs = 100000, lat_warmup = 10000, env_capacity = 2 ^ 17\<rparr>)"

text \<open>\<open>main\<close> of \<open>tail_bench.rs\<close> warns unless the system is Linux with isolated processors.\<close>

definition warns :: "env_info \<Rightarrow> bool" where
  "warns e \<longleftrightarrow> os e \<noteq> chars_of ''linux'' \<or> isolcpus e = chars_of ''none''"

record verify_info =
  v_os :: chars
  v_arch :: chars
  v_kernel :: chars
  device :: chars
  filesystem :: chars
  v_rustc :: chars
  record_bytes :: nat

definition verify_env :: "names \<Rightarrow> names \<Rightarrow> chars \<Rightarrow> chars \<Rightarrow> verify_info" where
  "verify_env files vars os_name arch_name =
     \<lparr>v_os = os_name, v_arch = arch_name,
      v_kernel = or_text (read_trim files ''/proc/sys/kernel/osrelease'') ''unknown'',
      device = or_text (vars ''CADENCE_DEVICE'') ''unset (record the block device!)'',
      filesystem = or_text (vars ''CADENCE_FS'') ''unset'',
      v_rustc = or_text (vars ''CADENCE_RUSTC'') ''unset'', record_bytes = 64\<rparr>"

section \<open>Lines and words\<close>

lemma split_newlines: "list_all (\<lambda>l. 0x0A \<notin> set l) ls \<Longrightarrow> split_on 0x0A (concat (map (\<lambda>l. l @ [0x0A]) ls)) = ls @ [[]]"
  by (induction ls) (simp_all add: split_on_append)

lemma lines_of_text:
  assumes "list_all (\<lambda>l. 0x0A \<notin> set l \<and> (l = [] \<or> last l \<noteq> 0x0D)) ls"
  shows "text_lines (concat (map (\<lambda>l. l @ [0x0A]) ls)) = ls"
proof -
  have "map strip_cr ls = ls"
    using assms by (intro map_idI) (auto simp: strip_cr_def list_all_iff)
  then show ?thesis
    using assms split_newlines [of ls] by (simp add: text_lines_def Let_def list_all_iff)
qed

text \<open>The words are what is written between white space.\<close>

definition is_word :: "chars \<Rightarrow> bool" where
  "is_word w \<longleftrightarrow> w \<noteq> [] \<and> list_all (\<lambda>c. \<not> is_whitespace c) w"

lemma split_whitespace_blank: "list_all is_whitespace pre \<Longrightarrow> split_whitespace (pre @ s) = split_whitespace s"
  by (induction pre) simp_all

lemma split_whitespace_word:
  "is_word w \<Longrightarrow> s = [] \<or> is_whitespace (hd s) \<Longrightarrow> split_whitespace (w @ s) = w # split_whitespace s"
proof (induction w)
  case (Cons c w)
  show ?case
  proof (cases w)
    case Nil
    then show ?thesis using Cons.prems by (simp add: is_word_def)
  next
    case (Cons d w')
    then have "is_word w" "\<not> is_whitespace c" "\<not> is_whitespace d" using Cons.prems(1) by (simp_all add: is_word_def)
    with Cons.IH [OF _ Cons.prems(2)] Cons show ?thesis by simp
  qed
qed (simp add: is_word_def)

lemma words_are_words: "list_all is_word (split_whitespace s)"
  by (induction s rule: split_whitespace.induct) (auto simp: is_word_def split: list.splits)

lemma concat_split_whitespace: "concat (split_whitespace s) = filter (\<lambda>c. \<not> is_whitespace c) s"
proof (induction s rule: split_whitespace.induct)
  case (2 c cs)
  have "split_whitespace cs \<noteq> []" if "cs \<noteq> []" "\<not> is_whitespace (hd cs)"
    using that by (cases cs) (auto split: list.splits)
  with 2 show ?case by (auto split: list.splits)
qed simp

lemmas text_simps = text_lines_def strip_cr_def nth_piece_def trim_def is_whitespace_def or_text_def chars_of_def Let_def

section \<open>Properties\<close>

text \<open>
  The processor model is what its first \<open>model name\<close> line says between the first colon and the
  next, without the white space around it.
\<close>

lemma cpu_model_of_lines:
  assumes "list_all (\<lambda>l. 0x0A \<notin> set l \<and> (l = [] \<or> last l \<noteq> 0x0D)) (before @ l # after)"
    and "list_all (\<lambda>l. \<not> prefix (chars_of ''model name'') l) before"
    and "l = chars_of ''model name'' @ gap @ 0x3A # pre @ m @ post"
    and "0x3A \<notin> set gap" and "0x3A \<notin> set (pre @ m @ post)"
    and "list_all is_whitespace pre" "list_all is_whitespace post"
    and "m \<noteq> []" "\<not> is_whitespace (hd m)" "\<not> is_whitespace (last m)"
  shows "cpu_model_of (concat (map (\<lambda>l. l @ [0x0A]) (before @ l # after))) = m"
proof -
  have "List.find (prefix (chars_of ''model name'')) (before @ l # after) = Some l"
    using assms(2) by (induction before) (simp_all add: assms(3))
  moreover have "split_on 0x3A l = [chars_of ''model name'' @ gap, pre @ m @ post]"
  proof -
    have "0x3A \<notin> set (chars_of ''model name'' @ gap)" using assms(4) by (simp add: chars_of_def)
    from split_on_append [OF this, of "pre @ m @ post"] show ?thesis
      unfolding assms(3) using split_on_none [OF assms(5)] by simp
  qed
  moreover have "trim (pre @ m @ post) = m"
    using assms(6-10) by (intro trim_padded) (auto simp: list_all_iff)
  ultimately show ?thesis
    using lines_of_text [OF assms(1)] by (simp add: cpu_model_of_def nth_piece_def or_text_def Let_def)
qed

lemma cpu_model_of_lines_example:
  "cpu_model_of (chars_of (''processor : 0'' @ [CHR 0x0A] @ ''model name : Ryzen 7'' @ [CHR 0x0A])) = chars_of ''Ryzen 7''"
  by (simp add: text_simps cpu_model_of_def)

text \<open>A model name that has a colon in it is cut there.\<close>

lemma cpu_model_cut_at_colon:
  "cpu_model_of (chars_of (''model name : A: B'' @ [CHR 0x0A])) = chars_of ''A''"
  by (simp add: text_simps cpu_model_of_def)

text \<open>
  The isolated processors are the first word of the kernel's command line that starts with the
  parameter's name; without one the run is marked as not valid for tail latencies.
\<close>

lemma isolcpus_first_word:
  "isolcpus_of s = (case filter (prefix (chars_of ''isolcpus='')) (split_whitespace s) of
     [] \<Rightarrow> chars_of ''none'' | w # ws \<Rightarrow> w)"
proof -
  have "List.find P xs = (case filter P xs of [] \<Rightarrow> None | x # ys \<Rightarrow> Some x)" for P and xs :: "chars list"
    by (induction xs) simp_all
  then show ?thesis by (simp add: isolcpus_of_def or_text_def split: list.split)
qed

lemma warns_without_isolcpus:
  assumes "\<forall>w\<in>set (split_whitespace (or_text (read_trim files ''/proc/cmdline'') [])). \<not> prefix (chars_of ''isolcpus='') w"
  shows "warns (env_block files vars os_name arch_name cores)"
proof -
  have "filter (prefix (chars_of ''isolcpus='')) (split_whitespace (or_text (read_trim files ''/proc/cmdline'') [])) = []"
    using assms by (simp add: filter_empty_conv)
  then show ?thesis by (simp add: warns_def env_block_def Let_def isolcpus_first_word)
qed

lemma no_warning_with_isolcpus:
  assumes "files ''/proc/cmdline'' = Some (chars_of (''quiet isolcpus=2,3 ro'' @ [CHR 0x0A]))"
  shows "\<not> warns (env_block files vars (chars_of ''linux'') arch_name cores)"
proof -
  have "isolcpus_of (trim (chars_of (''quiet isolcpus=2,3 ro'' @ [CHR 0x0A]))) = chars_of ''isolcpus=2,3''"
    by (simp add: text_simps isolcpus_of_def)
  moreover have "chars_of ''isolcpus=2,3'' \<noteq> chars_of ''none''" by (simp add: chars_of_def)
  ultimately show ?thesis
    using assms by (simp add: warns_def env_block_def Let_def read_trim_def or_text_def)
qed

text \<open>A file that cannot be read yields the documented default in every field.\<close>

lemma env_block_unreadable:
  "env_block (\<lambda>f. None) (\<lambda>v. None) o_name a_name n =
     \<lparr>os = o_name, arch = a_name, logical_cores = n, cpu_model = chars_of ''unknown'', governor = chars_of ''unknown'',
      turbo_disabled = chars_of ''unknown'', isolcpus = chars_of ''none'',
      tsc_flags = chars_of ''none (TSC may be unreliable)'', env_kernel = chars_of ''unknown'',
      rustc = chars_of ''unset'', rustflags = chars_of ''unset'', lat_msgs = 100000, lat_warmup = 10000,
      env_capacity = 2 ^ 17\<rparr>"
proof -
  have "cpu_model_of [] = chars_of ''unknown''" "isolcpus_of [] = chars_of ''none''"
    "tsc_flags_of [] = chars_of ''none (TSC may be unreliable)''"
    by (simp_all add: cpu_model_of_def isolcpus_of_def tsc_flags_of_def text_lines_def text_contains_def or_text_def chars_of_def)
  moreover have "chars_of [] = []" by (simp add: chars_of_def)
  ultimately show ?thesis by (simp add: env_block_def Let_def read_trim_def or_text_def)
qed

end
