(* ===== verification/Format.thy ===== *)
theory Format
  imports Environment Float64
begin

text \<open>
  The pieces of \<open>std::fmt\<close> that the benchmarks print with: numbers padded to a width, and
  floating-point numbers with a fixed number of decimals, rounded from their exact value, to the
  even digit on ties.  A text is the list of its code points.
\<close>

section \<open>Widths\<close>

text \<open>\<open>{:>w}\<close>, and \<open>{:w}\<close> on a string.\<close>

definition pad_left :: "nat \<Rightarrow> chars \<Rightarrow> chars" where
  "pad_left w s = replicate (w - length s) 0x20 @ s"

definition pad_right :: "nat \<Rightarrow> chars \<Rightarrow> chars" where
  "pad_right w s = s @ replicate (w - length s) 0x20"

lemma length_pads: "length (pad_left w s) = max w (length s)" "length (pad_right w s) = max w (length s)"
  by (simp_all add: pad_left_def pad_right_def)

section \<open>Rounding\<close>

definition round_even :: "rat \<Rightarrow> int" where
  "round_even x =
     (let f = \<lfloor>x\<rfloor>; r = x - of_int f in
      if r < 1 / 2 then f else if 1 / 2 < r then f + 1 else if even f then f else f + 1)"

lemma round_even_close: "\<bar>of_int (round_even x) - x\<bar> \<le> 1 / 2"
proof -
  have "of_int \<lfloor>x\<rfloor> \<le> x" "x < of_int \<lfloor>x\<rfloor> + 1" by linarith+
  then show ?thesis by (auto simp: round_even_def Let_def)
qed

lemma round_even_range: "\<lfloor>x\<rfloor> \<le> round_even x \<and> round_even x \<le> \<lfloor>x\<rfloor> + 1"
  by (simp add: round_even_def Let_def)

lemma round_even_of_int [simp]: "round_even (of_int n) = n"
  by (simp add: round_even_def)

lemma round_even_mono: "x \<le> y \<Longrightarrow> round_even x \<le> round_even y"
proof -
  assume le: "x \<le> y"
  then have "\<lfloor>x\<rfloor> \<le> \<lfloor>y\<rfloor>" by (rule floor_mono)
  show ?thesis
  proof (cases "\<lfloor>x\<rfloor> = \<lfloor>y\<rfloor>")
    case True
    then show ?thesis using le by (simp add: round_even_def Let_def)
  next
    case False
    then have "\<lfloor>x\<rfloor> + 1 \<le> \<lfloor>y\<rfloor>" using \<open>\<lfloor>x\<rfloor> \<le> \<lfloor>y\<rfloor>\<close> by simp
    then show ?thesis using round_even_range [of x] round_even_range [of y] by simp
  qed
qed

lemma round_even_nonneg: "0 \<le> x \<Longrightarrow> 0 \<le> round_even x"
  using round_even_mono [of 0 x] round_even_of_int [of 0] by simp

section \<open>Fixed decimals\<close>

fun frac_digits :: "nat \<Rightarrow> nat \<Rightarrow> chars" where
  "frac_digits 0 m = []"
| "frac_digits (Suc n) m = frac_digits n (m div 10) @ [0x30 + m mod 10]"

definition show_scaled :: "nat \<Rightarrow> nat \<Rightarrow> chars" where
  "show_scaled n m = decimal (m div 10 ^ n) @ (if n = 0 then [] else 0x2E # frac_digits n m)"

definition fixed :: "nat \<Rightarrow> rat \<Rightarrow> chars" where
  "fixed n x = (if x < 0 then [0x2D] else []) @ show_scaled n (nat (round_even (\<bar>x\<bar> * 10 ^ n)))"

text \<open>\<open>{:.n}\<close> on an \<open>f64\<close>.\<close>

fun fixed_f64 :: "nat \<Rightarrow> f64 \<Rightarrow> chars" where
  "fixed_f64 n (Fin x) = fixed n x"
| "fixed_f64 n PInf = chars_of ''inf''"
| "fixed_f64 n NaN = chars_of ''NaN''"

section \<open>Reading it back\<close>

definition read_decimal :: "chars \<Rightarrow> rat" where
  "read_decimal s =
     (case split_on 0x2E s of
        [a] \<Rightarrow> of_nat (denotes 0 a)
      | [a, b] \<Rightarrow> of_nat (denotes 0 a) + of_nat (denotes 0 b) / 10 ^ length b
      | _ \<Rightarrow> 0)"

lemma frac_digits_props:
  "length (frac_digits n m) = n \<and> list_all is_digit (frac_digits n m) \<and> denotes 0 (frac_digits n m) = m mod 10 ^ n"
proof (induction n arbitrary: m)
  case (Suc n)
  have "m mod 10 ^ Suc n = 10 * (m div 10 mod 10 ^ n) + m mod 10"
    by (simp add: mod_mult2_eq)
  then show ?case using Suc [of "m div 10"] by (simp add: is_digit_def)
qed simp

lemma digits_no_point: "list_all is_digit ds \<Longrightarrow> 0x2E \<notin> set ds"
  by (auto simp: list_all_iff is_digit_def)

lemma read_show_scaled: "read_decimal (show_scaled n m) = of_nat m / 10 ^ n"
proof (cases "n = 0")
  case True
  have "0x2E \<notin> set (decimal m)" using decimal_props [of m] digits_no_point by blast
  then show ?thesis using True decimal_props [of m] split_on_none
    by (simp add: read_decimal_def show_scaled_def)
next
  case False
  have *: "0x2E \<notin> set (decimal (m div 10 ^ n))" "0x2E \<notin> set (frac_digits n m)"
    using decimal_props [of "m div 10 ^ n"] frac_digits_props [of n m] digits_no_point by blast+
  have "split_on 0x2E (show_scaled n m) = [decimal (m div 10 ^ n), frac_digits n m]"
    using split_on_append [OF *(1)] split_on_none [OF *(2)] False by (simp add: show_scaled_def)
  then have "read_decimal (show_scaled n m) = of_nat (m div 10 ^ n) + of_nat (m mod 10 ^ n) / 10 ^ n"
    using decimal_props [of "m div 10 ^ n"] frac_digits_props [of n m] by (simp add: read_decimal_def)
  also have "\<dots> = (of_nat (m div 10 ^ n) * 10 ^ n + of_nat (m mod 10 ^ n)) / 10 ^ n"
    by (simp add: field_simps)
  also have "of_nat (m div 10 ^ n) * 10 ^ n + of_nat (m mod 10 ^ n) = (of_nat (m div 10 ^ n * 10 ^ n + m mod 10 ^ n) :: rat)"
    by (simp only: of_nat_add of_nat_mult of_nat_power of_nat_numeral)
  finally show ?thesis unfolding div_mult_mod_eq .
qed

lemma read_fixed_close:
  assumes "0 \<le> x"
  shows "\<bar>read_decimal (fixed n x) - x\<bar> \<le> 1 / (2 * 10 ^ n)"
proof -
  let ?m = "round_even (x * 10 ^ n)"
  have m: "0 \<le> ?m" using assms by (intro round_even_nonneg) simp
  then have "read_decimal (fixed n x) = of_int ?m / 10 ^ n"
    using assms by (simp add: fixed_def read_show_scaled)
  also have "\<dots> - x = (of_int ?m - x * 10 ^ n) / 10 ^ n" by (simp add: field_simps)
  finally have "read_decimal (fixed n x) - x = (of_int ?m - x * 10 ^ n) / 10 ^ n" by simp
  then have "\<bar>read_decimal (fixed n x) - x\<bar> = \<bar>of_int ?m - x * 10 ^ n\<bar> / 10 ^ n" by simp
  also have "\<dots> \<le> (1 / 2) / 10 ^ n"
    using round_even_close [of "x * 10 ^ n"] by (intro divide_right_mono) simp_all
  finally show ?thesis by simp
qed

lemma read_fixed_mono:
  assumes "0 \<le> x" "x \<le> y"
  shows "read_decimal (fixed n x) \<le> read_decimal (fixed n y)"
proof -
  have "0 \<le> round_even (x * 10 ^ n)" using assms by (intro round_even_nonneg) simp
  moreover have "round_even (x * 10 ^ n) \<le> round_even (y * 10 ^ n)"
    using assms by (intro round_even_mono) simp
  ultimately show ?thesis using assms
    by (simp add: fixed_def read_show_scaled divide_right_mono)
qed

lemma read_decimal_of_nat: "read_decimal (decimal n) = of_nat n"
  using read_show_scaled [of 0 n] by (simp add: show_scaled_def)

section \<open>Words of a line\<close>

text \<open>Literals are words and blanks; the collection takes a line apart.\<close>

lemma word_decimal: "is_word (decimal n)"
  using decimal_props [of n] digit_plain by (auto simp: is_word_def list_all_iff)

lemma word_fixed: "is_word (fixed n x)"
proof -
  let ?m = "nat (round_even (\<bar>x\<bar> * 10 ^ n))"
  have "list_all (\<lambda>c. \<not> is_whitespace c) (show_scaled n ?m)"
    using word_decimal [of "?m div 10 ^ n"] frac_digits_props [of n ?m] digit_plain
    by (auto simp: show_scaled_def is_word_def list_all_iff is_whitespace_def)
  moreover have "show_scaled n ?m \<noteq> []" using word_decimal by (simp add: show_scaled_def is_word_def)
  ultimately show ?thesis by (auto simp: fixed_def is_word_def is_whitespace_def)
qed

lemma word_fixed_f64: "is_word (fixed_f64 n x)"
proof (cases x)
  case (Fin y)
  then show ?thesis by (simp add: word_fixed)
qed (simp_all add: is_word_def chars_of_def is_whitespace_def)

lemma words_blank: "split_whitespace (replicate n 0x20 @ s) = split_whitespace s"
  by (rule split_whitespace_blank) (simp add: list_all_iff is_whitespace_def)

lemma words_space: "is_word w \<Longrightarrow> split_whitespace (w @ 0x20 # s) = w # split_whitespace s"
  by (subst split_whitespace_word) (simp_all add: is_whitespace_def)

lemma words_end: "is_word w \<Longrightarrow> split_whitespace w = [w]"
  using split_whitespace_word [of w "[]"] by simp

lemma words_pad_left: "split_whitespace (pad_left k w @ s) = split_whitespace (w @ s)"
  by (simp add: pad_left_def words_blank)

end
