(* ===== verification/Bus_Trial.thy ===== *)
theory Bus_Trial
  imports Bus Latency_Trial
begin

text \<open>
  The latency trial over the bus, \<open>crossbeam_latency\<close> of \<open>crates/bench/src/main.rs\<close>: one
  subscription to the topic \<open>bench\<close>, a publisher that offers messages at their due times and
  does not wait when the queue is full, and a consumer that receives with a time-out and looks
  at the flag when it has received nothing.  The drops are those the bus has counted.
\<close>

section \<open>The trial\<close>

record 'c bus_trial =
  b_bus :: "'c bus"
  b_rx :: nat
  b_todo :: "message list"
  b_done :: bool
  b_phase :: phase
  b_received :: nat
  b_clocks :: "u64 list"
  b_hist :: "u64 list"

definition bus_trial_init ::
    "(usize \<Rightarrow> 'c) \<Rightarrow> ('c \<Rightarrow> 'c) \<Rightarrow> usize \<Rightarrow> message list \<Rightarrow> 'c bus_trial" where
  "bus_trial_init bounded drop_tx cap msgs =
     (let ((sid, rx), b) = subscribe bounded drop_tx (bytes_of ''bench'') (bus_new cap) in
      \<lparr>b_bus = b, b_rx = rx, b_todo = msgs, b_done = False, b_phase = Polling,
        b_received = 0, b_clocks = [], b_hist = []\<rparr>)"

text \<open>A receive that returns an error is a time-out: the queue was empty when time was up.\<close>

inductive bus_trial_step ::
    "(message \<Rightarrow> 'c \<Rightarrow> (message try_send_error + unit) \<times> 'c) \<Rightarrow> ('c \<Rightarrow> (try_recv_error + message) \<times> 'c)
      \<Rightarrow> nat \<Rightarrow> 'c bus_trial \<Rightarrow> 'c bus_trial \<Rightarrow> bool" for snd_op rcv_op warmup where
  b_offer: "b_todo s = m # ms \<Longrightarrow> iterates order (b_bus s) \<Longrightarrow>
     offer snd_op order clock m (b_bus s) = Inr (r, b') \<Longrightarrow>
     bus_trial_step snd_op rcv_op warmup s (s\<lparr>b_bus := b', b_todo := ms\<rparr>)"
| b_joined: "b_todo s = [] \<Longrightarrow> bus_trial_step snd_op rcv_op warmup s (s\<lparr>b_done := True\<rparr>)"
| b_message: "b_phase s = Polling \<Longrightarrow> rcv_op (chans (b_bus s) ! b_rx s) = (Inr m, c) \<Longrightarrow>
     intended_of m = Inr intended \<Longrightarrow>
     bus_trial_step snd_op rcv_op warmup s
       (s\<lparr>b_bus := (b_bus s)\<lparr>chans := (chans (b_bus s))[b_rx s := c]\<rparr>,
          b_received := b_received s + 1, b_clocks := b_clocks s @ [now],
          b_hist := (if b_received s \<ge> warmup then b_hist s @ [latency now intended] else b_hist s)\<rparr>)"
| b_timeout: "b_phase s = Polling \<Longrightarrow> rcv_op (chans (b_bus s) ! b_rx s) = (Inl e, c) \<Longrightarrow>
     bus_trial_step snd_op rcv_op warmup s
       (s\<lparr>b_bus := (b_bus s)\<lparr>chans := (chans (b_bus s))[b_rx s := c]\<rparr>, b_phase := Missed (b_done s)\<rparr>)"
| b_exit: "b_phase s = Missed b \<Longrightarrow> b_done s \<Longrightarrow>
     bus_trial_step snd_op rcv_op warmup s (s\<lparr>b_phase := Exited b\<rparr>)"
| b_again: "b_phase s = Missed b \<Longrightarrow> \<not> b_done s \<Longrightarrow>
     bus_trial_step snd_op rcv_op warmup s (s\<lparr>b_phase := Polling\<rparr>)"

inductive bus_trial_reach ::
    "(message \<Rightarrow> 'c \<Rightarrow> (message try_send_error + unit) \<times> 'c) \<Rightarrow> (usize \<Rightarrow> 'c)
      \<Rightarrow> ('c \<Rightarrow> (try_recv_error + message) \<times> 'c) \<Rightarrow> ('c \<Rightarrow> 'c) \<Rightarrow> usize \<Rightarrow> nat \<Rightarrow> message list
      \<Rightarrow> 'c bus_trial \<Rightarrow> bool" for snd_op bounded rcv_op drop_tx cap warmup msgs where
  b_start: "bus_trial_reach snd_op bounded rcv_op drop_tx cap warmup msgs (bus_trial_init bounded drop_tx cap msgs)"
| b_next: "bus_trial_reach snd_op bounded rcv_op drop_tx cap warmup msgs s \<Longrightarrow>
     bus_trial_step snd_op rcv_op warmup s s' \<Longrightarrow>
     bus_trial_reach snd_op bounded rcv_op drop_tx cap warmup msgs s'"

section \<open>The invariant\<close>

text \<open>The bus of a trial: one subscription, whose filter the messages match.\<close>

definition bench_sub :: sub where
  "bench_sub = \<lparr>sub_filter = Exact (bytes_of ''bench''), tx = 0\<rparr>"

definition bench_bus :: "'c bus \<Rightarrow> bool" where
  "bench_bus b \<longleftrightarrow> subs b = [0 \<mapsto> bench_sub] \<and> length (chans b) = 1"

definition carries :: "u64 \<Rightarrow> message \<Rightarrow> bool" where
  "carries intended m \<longleftrightarrow> intended_of m = Inr intended"

lemma carries_stamp [simp]: "carries d (stamp clock (carrier d))"
  by (simp add: carries_def intended_of_def stamp_def slice_range_def carrier_def)

lemma carries_unique: "carries d m \<Longrightarrow> intended_of m = Inr e \<Longrightarrow> e = d"
  by (simp add: carries_def)

lemma wf_carrier [simp]: "wf_message (carrier d)"
  by (simp add: wf_message_def carrier_def)

lemma topic_of_carrier [simp]: "topic_of (carrier d) = bytes_of ''bench''"
proof -
  have "utf8_valid (bytes_of ''bench'')" by (rule utf8_valid_ascii) (simp add: bytes_of_def)
  moreover have "0 \<notin> set (bytes_of ''bench'')" by (simp add: bytes_of_def)
  moreover have "message_new (bytes_of ''bench'') (to_le_bytes d) =
      Inr ((carrier d)\<lparr>payload := pad_to 24 (to_le_bytes d)\<rparr>)"
    by (simp add: message_new_eq carrier_def)
  ultimately have "topic_of ((carrier d)\<lparr>payload := pad_to 24 (to_le_bytes d)\<rparr>) = topic_as_sent (bytes_of ''bench'')"
    by (rule topic_of_new(1))
  moreover have "topic_of (m\<lparr>payload := p\<rparr>) = topic_of m" for m p
    by (simp add: topic_of_def topic_prefix_def)
  ultimately show ?thesis by (simp add: topic_as_sent_def bytes_of_def)
qed

lemma bench_subscribers: "bench_bus b \<Longrightarrow> subscribers b (bytes_of ''bench'') = {0}"
  by (auto simp: bench_bus_def subscribers_def bench_sub_def split: if_splits)

definition bt_phase_ok :: "('c \<Rightarrow> message list) \<Rightarrow> 'c bus_trial \<Rightarrow> bool" where
  "bt_phase_ok queued s \<longleftrightarrow>
     (case b_phase s of
        Polling \<Rightarrow> True
      | Missed b \<Rightarrow> b \<longrightarrow> b_done s \<and> queued (chans (b_bus s) ! 0) = []
      | Exited b \<Rightarrow> b_done s \<and> (b \<longrightarrow> queued (chans (b_bus s) ! 0) = []))"

text \<open>
  \<open>us\<close> are the due times of the messages the queue has accepted, out of the first \<open>k\<close>.
\<close>

definition bt_inv ::
    "('c \<Rightarrow> message list) \<Rightarrow> ('c \<Rightarrow> bool) \<Rightarrow> ('c \<Rightarrow> bool) \<Rightarrow> nat \<Rightarrow> u64 list \<Rightarrow> nat \<Rightarrow> u64 list
      \<Rightarrow> 'c bus_trial \<Rightarrow> bool" where
  "bt_inv queued rx_alive ch_ok warmup dues k us s \<longleftrightarrow>
     bench_bus (b_bus s) \<and> b_rx s = 0 \<and> ch_ok (chans (b_bus s) ! 0) \<and> rx_alive (chans (b_bus s) ! 0) \<and>
     k \<le> length dues \<and> b_todo s = map carrier (drop k dues) \<and>
     subseq us (take k dues) \<and> drop_count (b_bus s) = of_nat (k - length us) \<and>
     b_received s \<le> length us \<and> length (b_clocks s) = b_received s \<and>
     list_all2 carries (drop (b_received s) us) (queued (chans (b_bus s) ! 0)) \<and>
     b_hist s = drop warmup (measured (b_clocks s) (take (b_received s) us)) \<and>
     (b_done s \<longrightarrow> b_todo s = []) \<and> bt_phase_ok queued s"

lemma bench_bus_wf: "bench_bus b \<Longrightarrow> ok (chans b ! 0) \<Longrightarrow> wf_bus ok b"
  by (auto simp: bench_bus_def wf_bus_def bench_sub_def list_all_length split: if_splits)

lemma distinct_singleton:
  assumes "distinct xs" and "set xs = {x}"
  shows "xs = [x]"
proof (cases xs)
  case Nil
  then show ?thesis using assms(2) by simp
next
  case (Cons y ys)
  then have "y = x" and "set ys \<subseteq> {x}" and "x \<notin> set ys" using assms by auto
  then have "ys = []" by (cases ys) auto
  with Cons \<open>y = x\<close> show ?thesis by simp
qed

lemma bench_iterates: "bench_bus b \<Longrightarrow> iterates order b \<Longrightarrow> order = [0]"
  by (rule distinct_singleton) (simp_all add: bench_bus_def iterates_def)

context bus_over_channel begin

lemma bench_offer:
  assumes b: "bench_bus b" "ch_ok (chans b ! 0)" "rx_alive (chans b ! 0)" and it: "iterates order b"
    and m: "wf_message m" "topic_of m = bytes_of ''bench''"
    and eq: "offer ch_send order clock m b = Inr (r, b')"
  shows "bench_bus b' \<and> ch_ok (chans b' ! 0) \<and> rx_alive (chans b' ! 0) \<and>
    (queued (chans b' ! 0) = queued (chans b ! 0) @ [stamp clock m] \<and> drop_count b' = drop_count b \<or>
     queued (chans b' ! 0) = queued (chans b ! 0) \<and> drop_count b' = drop_count b + 1)"
proof -
  have wf: "wf_bus ch_ok b" using bench_bus_wf [of b ch_ok] b by simp
  have sub: "subs b 0 = Some bench_sub" "tx bench_sub = 0"
    using b(1) by (simp_all add: bench_bus_def bench_sub_def)
  have match: "filter_matches (sub_filter bench_sub) (topic_of m)" by (simp add: bench_sub_def m(2))
  have c: "chans b' ! 0 = snd (ch_send (stamp clock m) (chans b ! 0))"
    using offer_chan [OF wf it m(1) eq sub(1)] match sub(2) by simp
  have cb: "chan_of b 0 = chans b ! 0" using sub by (simp add: chan_of_def)
  have "bench_bus b'"
    using eq offer_spec [OF wf it m(1), of ch_send clock] b(1) by (auto simp: bench_bus_def)
  moreover have "drop_count b' = drop_count b +
      (if length (queued (chans b ! 0)) = ch_cap (chans b ! 0) then 1 else 0)"
    using offer_counts(2,3) [OF wf it m(1) eq] m(2) bench_subscribers [OF b(1)] b(3) cb
    by (auto simp: Collect_conv_if)
  moreover note room_or_full [OF b(2)] ch_send_queued [OF b(2), of "stamp clock m"]
    ch_send_ok [OF b(2), of "stamp clock m"] ch_send_rx [OF b(2), of "stamp clock m"]
  ultimately show ?thesis using b(3) c by auto
qed

abbreviation trial_ok :: "nat \<Rightarrow> u64 list \<Rightarrow> nat \<Rightarrow> u64 list \<Rightarrow> 'c bus_trial \<Rightarrow> bool" where
  "trial_ok \<equiv> bt_inv queued rx_alive ch_ok"

lemma bt_init_inv:
  assumes "cap_ok cap"
  shows "trial_ok warmup dues 0 [] (bus_trial_init ch_bounded drop_tx cap (map carrier dues))"
  using ch_bounded [OF assms]
  by (simp add: bt_inv_def bus_trial_init_def subscribe_def bus_new_def Let_def drop_sub_def
      bench_bus_def bench_sub_def filter_parse_def bytes_of_def measured_def bt_phase_ok_def)

lemma bt_offer_inv:
  assumes inv: "trial_ok warmup dues k us s" and todo: "b_todo s = m # ms"
    and it: "iterates order (b_bus s)" and eq: "offer ch_send order clock m (b_bus s) = Inr (r, b')"
  shows "\<exists>us'. trial_ok warmup dues (Suc k) us' (s\<lparr>b_bus := b', b_todo := ms\<rparr>)"
proof -
  let ?b = "b_bus s"
  have b: "bench_bus ?b" "ch_ok (chans ?b ! 0)" "rx_alive (chans ?b ! 0)"
    and dr: "b_todo s = map carrier (drop k dues)"
    using inv by (simp_all add: bt_inv_def)
  have k: "k < length dues" using todo dr by (metis drop_all list.distinct(1) list.map_disc_iff not_le)
  then have dk: "drop k dues = dues ! k # drop (Suc k) dues" by (simp add: Cons_nth_drop_Suc)
  have m: "m = carrier (dues ! k)" and ms: "ms = map carrier (drop (Suc k) dues)"
    using todo dr by (simp_all add: dk)
  have tk: "take (Suc k) dues = take k dues @ [dues ! k]" using k by (rule take_Suc_conv_app_nth)
  have us: "subseq us (take k dues)" "length us \<le> k"
    using inv k list_emb_length [of "(=)" us "take k dues"] by (simp_all add: bt_inv_def)
  have nd: "\<not> b_done s" using inv todo by (auto simp: bt_inv_def)
  then have ph: "bt_phase_ok queued (s\<lparr>b_bus := b', b_todo := ms\<rparr>)"
    using inv by (auto simp: bt_inv_def bt_phase_ok_def split: phase.splits)
  note o = bench_offer [OF b it _ _ eq, unfolded m, OF wf_carrier topic_of_carrier]
  from o consider
      (put) "queued (chans b' ! 0) = queued (chans ?b ! 0) @ [stamp clock (carrier (dues ! k))]"
        "drop_count b' = drop_count ?b"
    | (drop) "queued (chans b' ! 0) = queued (chans ?b ! 0)" "drop_count b' = drop_count ?b + 1"
    by blast
  then show ?thesis
  proof cases
    case put
    have "subseq (us @ [dues ! k]) (take (Suc k) dues)"
      using us(1) by (simp add: tk list_emb_append_mono)
    then have "trial_ok warmup dues (Suc k) (us @ [dues ! k]) (s\<lparr>b_bus := b', b_todo := ms\<rparr>)"
      using inv o k ms nd ph put by (auto simp: bt_inv_def list_all2_appendI)
    then show ?thesis ..
  next
    case drop
    have "subseq us (take (Suc k) dues)" using us(1) by (simp add: tk list_emb_prefix)
    moreover have "drop_count b' = of_nat (Suc k - length us)"
      using drop(2) inv us(2) by (simp add: bt_inv_def Suc_diff_le)
    ultimately have "trial_ok warmup dues (Suc k) us (s\<lparr>b_bus := b', b_todo := ms\<rparr>)"
      using inv o k ms nd ph drop by (auto simp: bt_inv_def)
    then show ?thesis ..
  qed
qed

lemma bt_message_inv:
  assumes inv: "trial_ok warmup dues k us s" and ph: "b_phase s = Polling"
    and eq: "ch_recv (chans (b_bus s) ! b_rx s) = (Inr m, c)" and int: "intended_of m = Inr intended"
  shows "trial_ok warmup dues k us
    (s\<lparr>b_bus := (b_bus s)\<lparr>chans := (chans (b_bus s))[b_rx s := c]\<rparr>,
       b_received := b_received s + 1, b_clocks := b_clocks s @ [now],
       b_hist := (if b_received s \<ge> warmup then b_hist s @ [latency now intended] else b_hist s)\<rparr>)"
proof -
  let ?c = "chans (b_bus s) ! 0" and ?n = "b_received s"
  have rx: "b_rx s = 0" and ok: "ch_ok ?c" and len1: "length (chans (b_bus s)) = 1"
    and al: "list_all2 carries (drop ?n us) (queued ?c)" and lc: "length (b_clocks s) = ?n"
    using inv by (simp_all add: bt_inv_def bench_bus_def)
  have e: "ch_recv ?c = (Inr m, c)" using eq rx by simp
  obtain vs where q: "queued ?c = m # vs"
    using e ch_recv_some [OF ok] ch_recv_empty [OF ok] by (cases "queued ?c") force+
  with ch_recv_some [OF ok q] e have c: "ch_ok c" "queued c = vs" "rx_alive c = rx_alive ?c" by auto
  have lt: "?n < length us" using al q by (cases "?n < length us") simp_all
  then have dn: "drop ?n us = us ! ?n # drop (Suc ?n) us" by (simp add: Cons_nth_drop_Suc)
  have al': "list_all2 carries (drop (Suc ?n) us) vs" and "carries (us ! ?n) m"
    using al q by (simp_all add: dn)
  then have i: "intended = us ! ?n" using carries_unique int by blast
  have me: "measured (b_clocks s @ [now]) (take (Suc ?n) us) =
      measured (b_clocks s) (take ?n us) @ [latency now intended]"
    using lt lc i by (simp add: take_Suc_conv_app_nth measured_snoc)
  have "length (measured (b_clocks s) (take ?n us)) = ?n" using lc lt by (simp add: measured_def)
  then have h: "drop warmup (measured (b_clocks s @ [now]) (take (Suc ?n) us)) =
      (if warmup \<le> ?n then b_hist s @ [latency now intended] else b_hist s)"
    using inv me by (auto simp: bt_inv_def)
  show ?thesis
    using inv c al' lt h rx len1 ph by (auto simp: bt_inv_def bench_bus_def bt_phase_ok_def)
qed

lemma bt_timeout_inv:
  assumes inv: "trial_ok warmup dues k us s" and ph: "b_phase s = Polling"
    and eq: "ch_recv (chans (b_bus s) ! b_rx s) = (Inl e, c)"
  shows "trial_ok warmup dues k us
    (s\<lparr>b_bus := (b_bus s)\<lparr>chans := (chans (b_bus s))[b_rx s := c]\<rparr>, b_phase := Missed (b_done s)\<rparr>)"
proof -
  let ?c = "chans (b_bus s) ! 0"
  have rx: "b_rx s = 0" and ok: "ch_ok ?c" and len1: "length (chans (b_bus s)) = 1"
    using inv by (simp_all add: bt_inv_def bench_bus_def)
  have "queued ?c = []" using eq rx ch_recv_some [OF ok] by (cases "queued ?c") force+
  moreover from this have "c = ?c" using eq rx ch_recv_empty [OF ok] by simp
  ultimately show ?thesis
    using inv rx len1 by (auto simp: bt_inv_def bench_bus_def bt_phase_ok_def)
qed

lemma bt_step_inv:
  assumes "bus_trial_step ch_send ch_recv warmup s s'" and inv: "trial_ok warmup dues k us s"
  shows "\<exists>k' us'. trial_ok warmup dues k' us' s'"
  using assms(1)
proof cases
  case (b_offer m ms order clock r b')
  then show ?thesis using bt_offer_inv [OF inv] by blast
next
  case b_joined
  then have "trial_ok warmup dues k us s'"
    using inv by (auto simp: bt_inv_def bt_phase_ok_def split: phase.splits)
  then show ?thesis by blast
next
  case (b_message m c intended now)
  then show ?thesis using bt_message_inv [OF inv] by blast
next
  case (b_timeout e c)
  then show ?thesis using bt_timeout_inv [OF inv] by blast
next
  case (b_exit b)
  then have "trial_ok warmup dues k us s'" using inv by (auto simp: bt_inv_def bt_phase_ok_def)
  then show ?thesis by blast
next
  case (b_again b)
  then have "trial_ok warmup dues k us s'" using inv by (auto simp: bt_inv_def bt_phase_ok_def)
  then show ?thesis by blast
qed

lemma bt_reach_inv:
  assumes "cap_ok cap"
    and "bus_trial_reach ch_send ch_bounded ch_recv drop_tx cap warmup (map carrier dues) s"
  shows "\<exists>k us. trial_ok warmup dues k us s"
  using assms(2)
proof (induction rule: bus_trial_reach.induct)
  case b_start
  then show ?case using bt_init_inv [OF assms(1)] by blast
next
  case (b_next s s')
  then show ?case using bt_step_inv by blast
qed

end

section \<open>Properties\<close>

lemma bus_trial_result:
  assumes "bus_over_channel ch_send queued ch_cap rx_alive ch_ok ch_bounded ch_recv tx_alive drop_tx drop_rx cap_ok"
    and "cap_ok cap" and "publisher_messages start interval n = Inr msgs"
    and "bus_trial_reach ch_send ch_bounded ch_recv drop_tx cap warmup msgs s"
  shows "\<exists>us. subseq us (map (due start interval) [0..<n]) \<and> b_received s \<le> length us \<and>
    b_hist s = map (\<lambda>i. latency (b_clocks s ! i) (us ! i)) [warmup..<b_received s] \<and>
    (b_todo s = [] \<longrightarrow> drop_count (b_bus s) = of_nat (n - length us)) \<and>
    (b_phase s = Exited True \<longrightarrow> b_received s = length us \<and>
       read_drop_count (b_bus s) = of_nat (n - b_received s))"
proof -
  define dues where "dues = map (due start interval) [0..<n]"
  have "msgs = map carrier dues" using assms(3) by (simp add: publisher_messages_eq dues_def comp_def)
  then obtain k us where inv: "bt_inv queued rx_alive ch_ok warmup dues k us s"
    using bus_over_channel.bt_reach_inv [OF assms(1,2), of warmup dues s] assms(4) by blast
  have len: "length dues = n" by (simp add: dues_def)
  have us: "subseq us (take k dues)" "b_received s \<le> length us" and k: "k \<le> n"
    and lc: "length (b_clocks s) = b_received s"
    using inv len by (simp_all add: bt_inv_def)
  have "subseq (take k dues) dues" by (metis append_take_drop_id list_emb_prefix subseq_order.refl)
  with us(1) have "subseq us dues" by (rule subseq_order.trans)
  moreover have "b_hist s = map (\<lambda>i. latency (b_clocks s ! i) (us ! i)) [warmup..<b_received s]"
    using inv us(2) lc by (intro nth_equalityI) (auto simp: bt_inv_def measured_def)
  moreover have todo: "drop_count (b_bus s) = of_nat (n - length us)" if "b_todo s = []"
    using inv that len k by (auto simp: bt_inv_def)
  moreover have "b_received s = length us \<and> read_drop_count (b_bus s) = of_nat (n - b_received s)"
    if e: "b_phase s = Exited True"
  proof -
    have "b_todo s = []" "queued (chans (b_bus s) ! 0) = []"
      using inv e by (auto simp: bt_inv_def bt_phase_ok_def)
    moreover from this(2) have "b_received s = length us" using inv us(2) by (simp add: bt_inv_def)
    ultimately show ?thesis using todo by (simp add: read_drop_count_def)
  qed
  ultimately show ?thesis using us(2) unfolding dues_def by blast
qed

text \<open>
  C22: In the trial over the bus the messages the queue accepts are among those sent, in order;
  every latency recorded is that of the accepted message with its number, from the first after
  the warm-up on.  A consumer that timed out after \<open>done\<close> was set has received all of them,
  and the drops the bus has counted are exactly the messages sent and not received.
\<close>

theorem bus_trial_records:
  assumes "bus_over_channel ch_send queued ch_cap rx_alive ch_ok ch_bounded ch_recv tx_alive drop_tx drop_rx cap_ok"
    and "cap_ok cap" and "publisher_messages start interval n = Inr msgs"
    and "bus_trial_reach ch_send ch_bounded ch_recv drop_tx cap warmup msgs s"
  shows "\<exists>us. subseq us (map (due start interval) [0..<n]) \<and> b_received s \<le> length us \<and>
    b_hist s = map (\<lambda>i. latency (b_clocks s ! i) (us ! i)) [warmup..<b_received s] \<and>
    (b_todo s = [] \<longrightarrow> drop_count (b_bus s) = of_nat (n - length us)) \<and>
    (b_phase s = Exited True \<longrightarrow> b_received s = length us \<and>
       read_drop_count (b_bus s) = of_nat (n - b_received s))"
  by (rule bus_trial_result [OF assms])

text \<open>A queue of one message and two messages sent before the first receive.\<close>

definition ex_two :: "message list" where
  "ex_two = [carrier 7, carrier 107]"

definition ex_try :: "message \<Rightarrow> message ring_channel bus \<Rightarrow> offer_result \<times> message ring_channel bus" where
  "ex_try m b = (case offer rc_send [0] (Some 5) m b of Inr rb \<Rightarrow> rb)"

definition ex_b0 :: "message ring_channel bus" where
  "ex_b0 = b_bus (bus_trial_init rc_bounded rc_drop_tx 1 ex_two)"

definition ex_b1 :: "message ring_channel bus" where
  "ex_b1 = snd (ex_try (carrier 7) ex_b0)"

definition ex_b2 :: "message ring_channel bus" where
  "ex_b2 = snd (ex_try (carrier 107) ex_b1)"

definition ex_c :: "message ring_channel" where
  "ex_c = snd (rc_recv (chans ex_b2 ! 0))"

lemma ex_try_eq: "offer rc_send [0] (Some 5) (carrier d) b = Inr (ex_try (carrier d) b)"
  by (simp add: ex_try_def offer_def topic_str_eq Let_def del: offer_loop.simps)

lemma ex_received:
  "fst (rc_recv (chans ex_b2 ! 0)) = Inr (stamp (Some 5) (carrier 7))"
  "fst (rc_recv ex_c) = Inl RecvEmpty"
  by code_simp+

lemma bench_iterates_single: "bench_bus b \<Longrightarrow> iterates [0] b"
  by (simp add: bench_bus_def iterates_def)

lemma ex_benches: "bench_bus ex_b0" "bench_bus ex_b1"
proof -
  have one: "is_power_of_two 1" by code_simp
  have "ex_two = map carrier [7, 107]" by (simp add: ex_two_def)
  then have b0: "bench_bus ex_b0 \<and> rc_ok (chans ex_b0 ! 0) \<and> rc_rx (chans ex_b0 ! 0)"
    using ring_bus.bt_init_inv [OF one, of 0 "[7, 107]"] by (simp add: bt_inv_def ex_b0_def)
  then show "bench_bus ex_b0" by simp
  from ring_bus.bench_offer [of ex_b0 "[0]" "carrier 7" "Some 5" "fst (ex_try (carrier 7) ex_b0)" ex_b1] b0
  show "bench_bus ex_b1"
    by (simp add: ex_try_eq ex_b1_def bench_iterates_single)
qed

theorem bus_trial_records_witness:
  "\<exists>s. bus_trial_reach rc_send rc_bounded rc_recv rc_drop_tx 1 0 ex_two s \<and> b_phase s = Exited True \<and>
     b_received s = 1 \<and> b_hist s = [50] \<and> read_drop_count (b_bus s) = 1"
proof -
  let ?R = "bus_trial_reach rc_send rc_bounded rc_recv rc_drop_tx 1 0 ex_two"
  let ?s0 = "bus_trial_init rc_bounded rc_drop_tx 1 ex_two"
  let ?s1 = "?s0\<lparr>b_bus := ex_b1, b_todo := [carrier 107]\<rparr>"
  let ?s2 = "?s1\<lparr>b_bus := ex_b2, b_todo := []\<rparr>"
  let ?s3 = "?s2\<lparr>b_done := True\<rparr>"
  let ?s4 = "?s3\<lparr>b_bus := ex_b2\<lparr>chans := (chans ex_b2)[0 := ex_c]\<rparr>, b_received := b_received ?s3 + 1,
    b_clocks := b_clocks ?s3 @ [57],
    b_hist := (if b_received ?s3 \<ge> 0 then b_hist ?s3 @ [latency 57 7] else b_hist ?s3)\<rparr>"
  let ?s5 = "?s4\<lparr>b_bus := (b_bus ?s4)\<lparr>chans := (chans (b_bus ?s4))[0 := snd (rc_recv ex_c)]\<rparr>, b_phase := Missed True\<rparr>"
  let ?s6 = "?s5\<lparr>b_phase := Exited True\<rparr>"
  have init: "b_bus ?s0 = ex_b0" "b_todo ?s0 = ex_two" "b_rx ?s0 = 0" "b_phase ?s0 = Polling"
      "b_received ?s0 = 0" "b_clocks ?s0 = []" "b_hist ?s0 = []"
    by (simp_all add: ex_b0_def) (simp_all add: bus_trial_init_def subscribe_def bus_new_def Let_def)
  have len: "length (chans ex_b2) = 1" by code_simp
  have o1: "offer rc_send [0] (Some 5) (carrier 7) ex_b0 = Inr (fst (ex_try (carrier 7) ex_b0), ex_b1)"
    and o2: "offer rc_send [0] (Some 5) (carrier 107) ex_b1 = Inr (fst (ex_try (carrier 107) ex_b1), ex_b2)"
    by (simp_all add: ex_try_eq ex_b1_def ex_b2_def)
  have todo: "b_todo ?s0 = [carrier 7, carrier 107]" by (simp add: init(2)) (simp add: ex_two_def)
  have 1: "?R ?s1"
    by (rule b_next [OF b_start], rule bus_trial_step.b_offer [where order = "[0]" and clock = "Some 5" and m = "carrier 7"])
      (simp_all add: init(1) todo bench_iterates_single ex_benches o1)
  have 2: "?R ?s2"
    by (rule b_next [OF 1], rule bus_trial_step.b_offer [where order = "[0]" and clock = "Some 5" and m = "carrier 107"])
      (simp_all add: bench_iterates_single ex_benches o2)
  have 3: "?R ?s3" by (rule b_next [OF 2], rule bus_trial_step.b_joined) simp
  have r: "rc_recv (chans ex_b2 ! 0) = (Inr (stamp (Some 5) (carrier 7)), ex_c)"
    using ex_received(1) by (simp add: ex_c_def prod_eq_iff)
  have int: "intended_of (stamp (Some 5) (carrier 7)) = Inr 7"
    using carries_stamp [of 7 "Some 5"] by (simp add: carries_def)
  have 4: "?R ?s4"
    using b_next [OF 3 bus_trial_step.b_message [OF _ _ int, of ?s3 rc_recv ex_c rc_send 0 57]] by (simp add: init r)
  have e: "rc_recv ex_c = (Inl RecvEmpty, snd (rc_recv ex_c))"
    using ex_received(2) by (simp add: prod_eq_iff)
  have 5: "?R ?s5"
    using b_next [OF 4 bus_trial_step.b_timeout [of ?s4 rc_recv RecvEmpty "snd (rc_recv ex_c)" rc_send 0]]
    by (simp add: init len e [symmetric])
  have 6: "?R ?s6" by (rule b_next [OF 5], rule bus_trial_step.b_exit) simp_all
  have pub: "publisher_messages 7 100 2 = Inr ex_two"
    by (simp add: publisher_messages_eq ex_two_def due_def upt_rec)
  have one: "is_power_of_two 1" by code_simp
  have "latency 57 7 = 50" by code_simp
  with 6 bus_trial_records [OF ring_axioms one pub 6] show ?thesis
    by (intro exI [of _ ?s6]) (auto simp: init)
qed

end
