(* ===== verification/Throughput.thy ===== *)
theory Throughput
  imports Bus_Trial
begin

text \<open>
  The throughput trials of \<open>crates/bench/src/main.rs\<close>: \<open>spsc_throughput\<close> sends a fixed number of
  messages through the ring as fast as it goes, \<open>crossbeam_throughput\<close> publishes them on the
  bus, which drops what does not fit.  The consumer empties the queue, looks at the flag, and
  starts again.  Elapsed times are left out.
\<close>

section \<open>The trials\<close>

definition throughput_messages :: "nat \<Rightarrow> panic + message list" where
  "throughput_messages n = collect_all (map (\<lambda>_. message_new (bytes_of ''bench'') []) [0..<n])"

record throughput =
  th_ring :: "message ring"
  th_todo :: "message list"
  th_done :: bool
  th_phase :: phase
  th_count :: nat

definition throughput_init :: "usize \<Rightarrow> message list \<Rightarrow> ring_fault + throughput" where
  "throughput_init cap msgs =
     (case spsc cap of
        Inl f \<Rightarrow> Inl f
      | Inr r \<Rightarrow> Inr \<lparr>th_ring = r, th_todo = msgs, th_done = False, th_phase = Polling, th_count = 0\<rparr>)"

inductive throughput_step :: "throughput \<Rightarrow> throughput \<Rightarrow> bool" where
  th_send: "th_todo s = m # ms \<Longrightarrow> try_send m (th_ring s) = Inr (Inr (), r) \<Longrightarrow>
     throughput_step s (s\<lparr>th_ring := r, th_todo := ms\<rparr>)"
| th_full: "th_todo s = m # ms \<Longrightarrow> try_send m (th_ring s) = Inr (Inl m', r) \<Longrightarrow>
     throughput_step s (s\<lparr>th_ring := r, th_todo := m' # ms\<rparr>)"
| th_joined: "th_todo s = [] \<Longrightarrow> throughput_step s (s\<lparr>th_done := True\<rparr>)"
| th_message: "th_phase s = Polling \<Longrightarrow> try_recv (th_ring s) = Inr (Some m, r) \<Longrightarrow>
     throughput_step s (s\<lparr>th_ring := r, th_count := th_count s + 1\<rparr>)"
| th_empty: "th_phase s = Polling \<Longrightarrow> try_recv (th_ring s) = Inr (None, r) \<Longrightarrow>
     throughput_step s (s\<lparr>th_ring := r, th_phase := Missed (th_done s)\<rparr>)"
| th_exit: "th_phase s = Missed b \<Longrightarrow> th_done s \<Longrightarrow> throughput_step s (s\<lparr>th_phase := Exited b\<rparr>)"
| th_again: "th_phase s = Missed b \<Longrightarrow> \<not> th_done s \<Longrightarrow> throughput_step s (s\<lparr>th_phase := Polling\<rparr>)"

text \<open>The same over the bus; the publisher is the main thread.\<close>

record 'c bus_throughput =
  bh_bus :: "'c bus"
  bh_rx :: nat
  bh_todo :: "message list"
  bh_done :: bool
  bh_phase :: phase
  bh_count :: nat

definition bus_throughput_init ::
    "(usize \<Rightarrow> 'c) \<Rightarrow> ('c \<Rightarrow> 'c) \<Rightarrow> usize \<Rightarrow> message list \<Rightarrow> 'c bus_throughput" where
  "bus_throughput_init bounded drop_tx cap msgs =
     (let ((sid, rx), b) = subscribe bounded drop_tx (bytes_of ''bench'') (bus_new cap) in
      \<lparr>bh_bus = b, bh_rx = rx, bh_todo = msgs, bh_done = False, bh_phase = Polling, bh_count = 0\<rparr>)"

inductive bus_throughput_step ::
    "(message \<Rightarrow> 'c \<Rightarrow> (message try_send_error + unit) \<times> 'c) \<Rightarrow> ('c \<Rightarrow> (try_recv_error + message) \<times> 'c)
      \<Rightarrow> 'c bus_throughput \<Rightarrow> 'c bus_throughput \<Rightarrow> bool" for snd_op rcv_op where
  bh_publish: "bh_todo s = m # ms \<Longrightarrow> iterates order (bh_bus s) \<Longrightarrow>
     publish snd_op order clock m (bh_bus s) = Inr (k, b') \<Longrightarrow>
     bus_throughput_step snd_op rcv_op s (s\<lparr>bh_bus := b', bh_todo := ms\<rparr>)"
| bh_finished: "bh_todo s = [] \<Longrightarrow> bus_throughput_step snd_op rcv_op s (s\<lparr>bh_done := True\<rparr>)"
| bh_message: "bh_phase s = Polling \<Longrightarrow> rcv_op (chans (bh_bus s) ! bh_rx s) = (Inr m, c) \<Longrightarrow>
     bus_throughput_step snd_op rcv_op s
       (s\<lparr>bh_bus := (bh_bus s)\<lparr>chans := (chans (bh_bus s))[bh_rx s := c]\<rparr>, bh_count := bh_count s + 1\<rparr>)"
| bh_empty: "bh_phase s = Polling \<Longrightarrow> rcv_op (chans (bh_bus s) ! bh_rx s) = (Inl e, c) \<Longrightarrow>
     bus_throughput_step snd_op rcv_op s
       (s\<lparr>bh_bus := (bh_bus s)\<lparr>chans := (chans (bh_bus s))[bh_rx s := c]\<rparr>, bh_phase := Missed (bh_done s)\<rparr>)"
| bh_exit: "bh_phase s = Missed b \<Longrightarrow> bh_done s \<Longrightarrow>
     bus_throughput_step snd_op rcv_op s (s\<lparr>bh_phase := Exited b\<rparr>)"
| bh_again: "bh_phase s = Missed b \<Longrightarrow> \<not> bh_done s \<Longrightarrow>
     bus_throughput_step snd_op rcv_op s (s\<lparr>bh_phase := Polling\<rparr>)"

section \<open>The ring trial counts every message\<close>

definition th_phase_ok :: "throughput \<Rightarrow> bool" where
  "th_phase_ok s \<longleftrightarrow>
     (case th_phase s of
        Polling \<Rightarrow> True
      | Missed b \<Rightarrow> b \<longrightarrow> th_done s \<and> contents (th_ring s) = []
      | Exited b \<Rightarrow> th_done s \<and> (b \<longrightarrow> contents (th_ring s) = []))"

definition th_inv :: "nat \<Rightarrow> nat \<Rightarrow> throughput \<Rightarrow> bool" where
  "th_inv cap n s \<longleftrightarrow>
     wf_ring (th_ring s) \<and> ring_cap (th_ring s) = cap \<and>
     th_count s + length (contents (th_ring s)) + length (th_todo s) = n \<and>
     (th_done s \<longrightarrow> th_todo s = []) \<and> th_phase_ok s"

lemma th_init_inv:
  "throughput_init cap msgs = Inr s \<Longrightarrow> th_inv (unat cap) (length msgs) s"
  using spsc_wf [of cap "th_ring s"]
  by (auto simp: throughput_init_def th_inv_def th_phase_ok_def simp flip: length_contents split: sum.splits)

lemma th_step_inv:
  assumes "throughput_step s s'" and inv: "th_inv cap n s"
  shows "th_inv cap n s'"
proof -
  have wf: "wf_ring (th_ring s)" using inv by (simp add: th_inv_def)
  show ?thesis
    using assms(1)
  proof cases
    case (th_send m ms r)
    then show ?thesis using inv rq.sent [OF wf th_send(3)]
      by (auto simp: th_inv_def th_phase_ok_def split: phase.splits)
  next
    case (th_full m ms m' r)
    then show ?thesis using inv rq.handed_back [OF wf th_full(3)]
      by (auto simp: th_inv_def th_phase_ok_def split: phase.splits)
  next
    case th_joined
    then show ?thesis using inv by (auto simp: th_inv_def th_phase_ok_def split: phase.splits)
  next
    case (th_message m r)
    then show ?thesis using inv rq.got [OF wf th_message(3)]
      by (auto simp: th_inv_def th_phase_ok_def)
  next
    case (th_empty r)
    then show ?thesis using inv rq.nothing [OF wf th_empty(3)]
      by (auto simp: th_inv_def th_phase_ok_def)
  qed (use inv in \<open>auto simp: th_inv_def th_phase_ok_def\<close>)
qed

lemma th_steps_inv: "throughput_step\<^sup>*\<^sup>* s s' \<Longrightarrow> th_inv cap n s \<Longrightarrow> th_inv cap n s'"
  by (induction rule: rtranclp_induct) (auto intro: th_step_inv)

section \<open>The ring trial can always finish\<close>

definition th_finishes :: "throughput \<Rightarrow> bool" where
  "th_finishes s \<longleftrightarrow> (\<exists>s' b. throughput_step\<^sup>*\<^sup>* s s' \<and> th_todo s' = [] \<and> th_phase s' = Exited b)"

lemma finishes_step: "throughput_step s s' \<Longrightarrow> th_finishes s' \<Longrightarrow> th_finishes s"
  unfolding th_finishes_def by (blast intro: converse_rtranclp_into_rtranclp)

lemma finishes_exited: "th_todo s = [] \<Longrightarrow> th_phase s = Exited b \<Longrightarrow> th_finishes s"
  unfolding th_finishes_def by blast

lemma finishes_missed: "th_todo s = [] \<Longrightarrow> th_done s \<Longrightarrow> th_phase s = Missed b \<Longrightarrow> th_finishes s"
  by (rule finishes_step [OF throughput_step.th_exit], assumption+, rule finishes_exited) simp_all

lemma finishes_drain:
  "wf_ring (th_ring s) \<Longrightarrow> th_todo s = [] \<Longrightarrow> th_done s \<Longrightarrow> th_finishes s"
proof (induction "contents (th_ring s)" arbitrary: s)
  case Nil
  note r = rq.recv_empty [OF Nil(2) Nil(1) [symmetric]]
  show ?case
    using finishes_step [OF throughput_step.th_empty [OF _ r]] finishes_exited finishes_missed Nil(3,4)
    by (cases "th_phase s") simp_all
next
  case (Cons v vs)
  obtain r where r: "try_recv (th_ring s) = Inr (Some v, r)" "wf_ring r" "contents r = vs"
    using rq.recv_some [OF Cons(3) Cons(2) [symmetric]] by blast
  show ?case
    using finishes_step [OF throughput_step.th_message [OF _ r(1)]] Cons(1) [of "s\<lparr>th_ring := r, th_count := th_count s + 1\<rparr>"]
      finishes_exited finishes_missed Cons(4,5) r(2,3)
    by (cases "th_phase s") simp_all
qed

lemma finishes_done: "wf_ring (th_ring s) \<Longrightarrow> th_todo s = [] \<Longrightarrow> th_finishes s"
  by (rule finishes_step [OF throughput_step.th_joined], assumption, rule finishes_drain) simp_all

lemma finishes_polling:
  "wf_ring (th_ring s) \<Longrightarrow> th_phase s = Polling \<Longrightarrow> th_finishes s"
proof (induction "th_todo s" arbitrary: s)
  case Nil
  then show ?case by (simp add: finishes_done)
next
  case (Cons m ms)
  have go: "th_finishes t" if t: "wf_ring (th_ring t)" "th_phase t = Polling" "th_todo t = m # ms"
      "length (contents (th_ring t)) < ring_cap (th_ring t)" for t
  proof -
    obtain r where r: "try_send m (th_ring t) = Inr (Inr (), r)" "wf_ring r"
      using rq.send_room [OF t(1,4), of m] by blast
    show ?thesis
      by (rule finishes_step [OF throughput_step.th_send [OF t(3) r(1)]], rule Cons(1)) (simp_all add: r(2) t(2))
  qed
  show ?case
  proof (cases "length (contents (th_ring s)) < ring_cap (th_ring s)")
    case True
    with go Cons.prems Cons.hyps(2) show ?thesis by simp
  next
    case False
    then obtain v vs where c: "contents (th_ring s) = v # vs"
      using wf_ring_cap(1) [OF Cons.prems(1)] by (cases "contents (th_ring s)") (simp_all flip: length_contents)
    obtain r where r: "try_recv (th_ring s) = Inr (Some v, r)" "wf_ring r" "contents r = vs"
        "ring_cap r = ring_cap (th_ring s)"
      using rq.recv_some [OF Cons.prems(1) c] by blast
    let ?s = "s\<lparr>th_ring := r, th_count := th_count s + 1\<rparr>"
    have "length vs < ring_cap (th_ring s)"
      using rq.items_bounded [OF Cons.prems(1)] c by (simp del: length_contents)
    then have "th_finishes ?s"
      using go [of ?s] Cons.prems(2) Cons.hyps(2) [symmetric] r by (simp del: length_contents)
    then show ?thesis by (rule finishes_step [OF throughput_step.th_message [OF Cons.prems(2) r(1)]])
  qed
qed

lemma th_inv_finishes:
  assumes inv: "th_inv cap n s"
  shows "th_finishes s"
proof (cases "th_done s")
  case True
  with inv show ?thesis by (simp add: th_inv_def finishes_done)
next
  case False
  have wf: "wf_ring (th_ring s)" using inv by (simp add: th_inv_def)
  show ?thesis
  proof (cases "th_phase s")
    case (Missed b)
    with finishes_step [OF throughput_step.th_again [OF Missed False]] finishes_polling wf show ?thesis by simp
  qed (use False inv finishes_polling [OF wf] in \<open>simp_all add: th_inv_def th_phase_ok_def\<close>)
qed

section \<open>The bus trial counts what it did not drop\<close>

definition plain_message :: message where
  "plain_message = \<lparr>timestamp_ns = 0, topic = pad_to 32 (bytes_of ''bench''), payload = pad_to 24 []\<rparr>"

lemma throughput_messages_eq: "throughput_messages n = Inr (replicate n plain_message)"
  unfolding throughput_messages_def message_new_eq plain_message_def [symmetric] collect_all_Inr
  by (simp add: map_replicate_const)

lemma plain_message_ok: "wf_message plain_message" "topic_of plain_message = bytes_of ''bench''"
proof -
  show "wf_message plain_message" by (simp add: wf_message_def plain_message_def)
  have "topic_of m = topic_of m'" if "topic m = topic m'" for m m'
    using that by (simp add: topic_of_def topic_prefix_def)
  from this [of plain_message "carrier 0"] show "topic_of plain_message = bytes_of ''bench''"
    unfolding topic_of_carrier by (simp add: plain_message_def carrier_def)
qed

definition bh_phase_ok :: "('c \<Rightarrow> message list) \<Rightarrow> 'c bus_throughput \<Rightarrow> bool" where
  "bh_phase_ok queued s \<longleftrightarrow>
     (case bh_phase s of
        Polling \<Rightarrow> True
      | Missed b \<Rightarrow> b \<longrightarrow> bh_done s \<and> queued (chans (bh_bus s) ! 0) = []
      | Exited b \<Rightarrow> bh_done s \<and> (b \<longrightarrow> queued (chans (bh_bus s) ! 0) = []))"

definition bh_inv ::
    "('c \<Rightarrow> message list) \<Rightarrow> ('c \<Rightarrow> bool) \<Rightarrow> ('c \<Rightarrow> bool) \<Rightarrow> nat \<Rightarrow> 'c bus_throughput \<Rightarrow> bool" where
  "bh_inv queued rx_alive ch_ok n s \<longleftrightarrow>
     bench_bus (bh_bus s) \<and> bh_rx s = 0 \<and> ch_ok (chans (bh_bus s) ! 0) \<and> rx_alive (chans (bh_bus s) ! 0) \<and>
     set (bh_todo s) \<subseteq> {plain_message} \<and>
     bh_count s + length (queued (chans (bh_bus s) ! 0)) + length (bh_todo s) \<le> n \<and>
     drop_count (bh_bus s) = of_nat (n - (bh_count s + length (queued (chans (bh_bus s) ! 0)) + length (bh_todo s))) \<and>
     (bh_done s \<longrightarrow> bh_todo s = []) \<and> bh_phase_ok queued s"

context bus_over_channel begin

abbreviation thr_ok :: "nat \<Rightarrow> 'c bus_throughput \<Rightarrow> bool" where
  "thr_ok \<equiv> bh_inv queued rx_alive ch_ok"

lemma bh_init_inv:
  assumes "cap_ok cap"
  shows "thr_ok n (bus_throughput_init ch_bounded drop_tx cap (replicate n plain_message))"
  using ch_bounded [OF assms]
  by (simp add: bh_inv_def bus_throughput_init_def subscribe_def bus_new_def Let_def drop_sub_def
      bench_bus_def bench_sub_def filter_parse_def bytes_of_def bh_phase_ok_def set_replicate_conv_if)

lemma bh_recv:
  assumes "ch_ok c" and "ch_recv c = (res, c')"
  shows "ch_ok c' \<and> rx_alive c' = rx_alive c \<and>
    (case res of Inr m \<Rightarrow> queued c = m # queued c' | Inl e \<Rightarrow> queued c = [] \<and> queued c' = [])"
  using ch_recv_empty [OF assms(1)] ch_recv_some [OF assms(1)] assms
  by (cases "queued c") force+

lemma bh_step_inv:
  assumes "bus_throughput_step ch_send ch_recv s s'" and inv: "thr_ok n s"
  shows "thr_ok n s'"
proof -
  have b: "bench_bus (bh_bus s)" "ch_ok (chans (bh_bus s) ! 0)" "rx_alive (chans (bh_bus s) ! 0)" "bh_rx s = 0"
    and len: "length (chans (bh_bus s)) = 1"
    using inv by (simp_all add: bh_inv_def bench_bus_def)
  show ?thesis
    using assms(1)
  proof cases
    case (bh_publish m ms order clock k b')
    then obtain r where o: "offer ch_send order clock m (bh_bus s) = Inr (r, b')"
      by (auto simp: publish_def and_then_Inr_iff)
    have "m = plain_message" using inv bh_publish(2) by (auto simp: bh_inv_def)
    with bench_offer [OF b(1-3) bh_publish(3) _ _ o] plain_message_ok
    have c: "bench_bus b' \<and> ch_ok (chans b' ! 0) \<and> rx_alive (chans b' ! 0) \<and>
      (length (queued (chans b' ! 0)) = Suc (length (queued (chans (bh_bus s) ! 0))) \<and> drop_count b' = drop_count (bh_bus s) \<or>
       length (queued (chans b' ! 0)) = length (queued (chans (bh_bus s) ! 0)) \<and> drop_count b' = drop_count (bh_bus s) + 1)"
      by auto
    have nd: "\<not> bh_done s" using inv bh_publish(2) by (auto simp: bh_inv_def)
    then have ph: "bh_phase_ok queued (s\<lparr>bh_bus := b', bh_todo := ms\<rparr>)"
      using inv by (auto simp: bh_inv_def bh_phase_ok_def split: phase.splits)
    from c show ?thesis
    proof (elim conjE disjE)
      assume "length (queued (chans b' ! 0)) = Suc (length (queued (chans (bh_bus s) ! 0)))"
        and "drop_count b' = drop_count (bh_bus s)"
      then show ?thesis using inv c bh_publish(1,2) nd ph by (auto simp: bh_inv_def)
    next
      assume q: "length (queued (chans b' ! 0)) = length (queued (chans (bh_bus s) ! 0))"
        and d: "drop_count b' = drop_count (bh_bus s) + 1"
      define used where "used = bh_count s + length (queued (chans b' ! 0)) + length ms"
      have "Suc used \<le> n" and "drop_count (bh_bus s) = of_nat (n - Suc used)"
        using inv bh_publish(2) q by (simp_all add: bh_inv_def used_def)
      moreover from this(1) have "n - used = Suc (n - Suc used)" by simp
      ultimately have "drop_count b' = of_nat (n - used)" using d by (simp only: of_nat_Suc add.commute)
      then have "drop_count b' = of_nat (n - (bh_count s + length (queued (chans b' ! 0)) + length ms))"
        by (simp only: used_def)
      then show ?thesis using inv c bh_publish(1,2) nd ph q by (auto simp: bh_inv_def)
    qed
  next
    case bh_finished
    then show ?thesis using inv by (auto simp: bh_inv_def bh_phase_ok_def split: phase.splits)
  next
    case (bh_message m c)
    then show ?thesis using inv bh_recv [OF b(2), of "Inr m" c] len b(4)
      by (auto simp: bh_inv_def bench_bus_def bh_phase_ok_def)
  next
    case (bh_empty e c)
    then show ?thesis using inv bh_recv [OF b(2), of "Inl e" c] len b(4)
      by (auto simp: bh_inv_def bench_bus_def bh_phase_ok_def)
  qed (use inv in \<open>auto simp: bh_inv_def bh_phase_ok_def\<close>)
qed

lemma bh_steps_inv:
  "(bus_throughput_step ch_send ch_recv)\<^sup>*\<^sup>* s s' \<Longrightarrow> thr_ok n s \<Longrightarrow> thr_ok n s'"
  by (induction rule: rtranclp_induct) (auto intro: bh_step_inv)

end

section \<open>Properties\<close>

text \<open>
  C23: At every moment of the throughput trial on the ring, the messages counted, those in the
  ring and those still to be sent add up to the number the trial was started with; a consumer
  that found the ring empty after \<open>done\<close> was set has counted them all.
\<close>

theorem throughput_counts:
  assumes "throughput_messages n = Inr msgs" and "throughput_init cap msgs = Inr s0"
    and "throughput_step\<^sup>*\<^sup>* s0 s"
  shows "th_count s + length (contents (th_ring s)) + length (th_todo s) = n \<and>
    length (contents (th_ring s)) \<le> unat cap \<and> (th_phase s = Exited True \<longrightarrow> th_count s = n)"
proof -
  have "length msgs = n" using assms(1) by (auto simp: throughput_messages_eq)
  then have inv: "th_inv (unat cap) n s" using th_steps_inv [OF assms(3)] th_init_inv [OF assms(2)] by simp
  then have "length (contents (th_ring s)) \<le> unat cap"
    using rq.items_bounded [of "th_ring s"] by (simp add: th_inv_def)
  with inv show ?thesis by (auto simp: th_inv_def th_phase_ok_def simp flip: length_contents)
qed

text \<open>
  The throughput trial on the ring never gets stuck: from every state it can reach, some
  continuation sends every message, sets the flag, and lets the consumer leave its loop.
\<close>

lemma throughput_can_finish:
  assumes "throughput_init cap msgs = Inr s0" and "throughput_step\<^sup>*\<^sup>* s0 s"
  shows "\<exists>s' b. throughput_step\<^sup>*\<^sup>* s s' \<and> th_todo s' = [] \<and> th_phase s' = Exited b"
  using th_inv_finishes [OF th_steps_inv [OF assms(2) th_init_inv [OF assms(1)]]]
  unfolding th_finishes_def .

definition ex_ring_new :: "message ring" where
  "ex_ring_new = \<lparr>head = 0, tail = 0, slots = [None], rmask = 0\<rparr>"

definition ex_ring_full :: "message ring" where
  "ex_ring_full = \<lparr>head = 1, tail = 0, slots = [Some plain_message], rmask = 0\<rparr>"

definition ex_ring_drained :: "message ring" where
  "ex_ring_drained = \<lparr>head = 1, tail = 1, slots = [None], rmask = 0\<rparr>"

definition ex_start :: throughput where
  "ex_start = \<lparr>th_ring = ex_ring_new, th_todo = [plain_message], th_done = False, th_phase = Polling, th_count = 0\<rparr>"

lemma ex_throughput_init: "throughput_init 1 [plain_message] = Inr ex_start"
proof -
  have "is_power_of_two 1" by code_simp
  then have "spsc 1 = Inr ex_ring_new" by (simp add: spsc_def ex_ring_new_def)
  then show ?thesis by (simp add: throughput_init_def ex_start_def)
qed

lemma ex_throughput_calls:
  "try_send plain_message ex_ring_new = Inr (Inr (), ex_ring_full)"
  "try_recv ex_ring_full = Inr (Some plain_message, ex_ring_drained)"
  "try_recv ex_ring_drained = Inr (None, ex_ring_drained)"
  by (simp_all add: try_send_def try_recv_def slot_write_def slot_take_def ex_ring_new_def ex_ring_full_def
      ex_ring_drained_def)

theorem throughput_counts_witness:
  "\<exists>s. throughput_step\<^sup>*\<^sup>* ex_start s \<and> th_phase s = Exited True \<and> th_count s = 1"
proof -
  let ?s1 = "ex_start\<lparr>th_ring := ex_ring_full, th_todo := []\<rparr>"
  let ?s2 = "?s1\<lparr>th_done := True\<rparr>"
  let ?s3 = "?s2\<lparr>th_ring := ex_ring_drained, th_count := th_count ?s2 + 1\<rparr>"
  let ?s4 = "?s3\<lparr>th_ring := ex_ring_drained, th_phase := Missed (th_done ?s3)\<rparr>"
  let ?s5 = "?s4\<lparr>th_phase := Exited (th_done ?s3)\<rparr>"
  have 1: "throughput_step ex_start ?s1"
    by (rule throughput_step.th_send [where m = plain_message]) (simp_all add: ex_start_def ex_throughput_calls)
  have 2: "throughput_step ?s1 ?s2" by (rule throughput_step.th_joined) simp
  have 3: "throughput_step ?s2 ?s3"
    by (rule throughput_step.th_message [where m = plain_message]) (simp_all add: ex_start_def ex_throughput_calls)
  have 4: "throughput_step ?s3 ?s4"
    by (rule throughput_step.th_empty) (simp_all add: ex_start_def ex_throughput_calls)
  have 5: "throughput_step ?s4 ?s5" by (rule throughput_step.th_exit) simp_all
  have run: "throughput_step\<^sup>*\<^sup>* ex_start ?s5"
    by (rule converse_rtranclp_into_rtranclp, rule 1, rule converse_rtranclp_into_rtranclp, rule 2,
        rule converse_rtranclp_into_rtranclp, rule 3, rule converse_rtranclp_into_rtranclp, rule 4,
        rule r_into_rtranclp, rule 5)
  have msgs: "throughput_messages 1 = Inr [plain_message]" by (simp add: throughput_messages_eq)
  show ?thesis
    by (intro exI [of _ ?s5] conjI run) (use throughput_counts [OF msgs ex_throughput_init run] in simp_all)
qed

lemma throughput_can_finish_example:
  "\<exists>s' b. throughput_step\<^sup>*\<^sup>* ex_start s' \<and> th_phase s' = Exited b"
  using throughput_can_finish [OF ex_throughput_init rtranclp.rtrancl_refl] by blast

text \<open>
  In the throughput trial over the bus the messages counted, queued, still to be published and
  dropped add up to the number the trial was started with; when the consumer leaves after an
  empty poll that came after \<open>done\<close>, the drop counter of the bus is exactly what it has not counted.
\<close>

lemma bus_throughput_counts:
  assumes "bus_over_channel ch_send queued ch_cap rx_alive ch_ok ch_bounded ch_recv tx_alive drop_tx drop_rx cap_ok"
    and "cap_ok cap" and "throughput_messages n = Inr msgs"
    and "(bus_throughput_step ch_send ch_recv)\<^sup>*\<^sup>* (bus_throughput_init ch_bounded drop_tx cap msgs) s"
  shows "\<exists>lost. bh_count s + length (queued (chans (bh_bus s) ! bh_rx s)) + length (bh_todo s) + lost = n \<and>
    read_drop_count (bh_bus s) = of_nat lost \<and>
    (bh_phase s = Exited True \<longrightarrow> read_drop_count (bh_bus s) = of_nat (n - bh_count s))"
proof -
  have "msgs = replicate n plain_message" using assms(3) by (simp add: throughput_messages_eq)
  then have inv: "bh_inv queued rx_alive ch_ok n s"
    using bus_over_channel.bh_steps_inv [OF assms(1,4)] bus_over_channel.bh_init_inv [OF assms(1,2)] by simp
  define lost where "lost = n - (bh_count s + length (queued (chans (bh_bus s) ! 0)) + length (bh_todo s))"
  have "bh_phase s = Exited True \<longrightarrow> lost = n - bh_count s"
    using inv by (auto simp: bh_inv_def bh_phase_ok_def lost_def)
  then show ?thesis
    using inv by (intro exI [of _ lost]) (auto simp: bh_inv_def read_drop_count_def lost_def)
qed

text \<open>Two messages published on a queue of one before the consumer starts.\<close>

definition ex_bus_start :: "message ring_channel bus_throughput" where
  "ex_bus_start = bus_throughput_init rc_bounded rc_drop_tx 1 [plain_message, plain_message]"

definition ex_publish :: "message ring_channel bus \<Rightarrow> usize \<times> message ring_channel bus" where
  "ex_publish b = (case publish rc_send [0] (Some 5) plain_message b of Inr kb \<Rightarrow> kb)"

lemma ex_publish_eq: "publish rc_send [0] (Some 5) plain_message b = Inr (ex_publish b)"
  by (simp add: ex_publish_def publish_def offer_def topic_str_eq Let_def plain_message_ok split_beta
      del: offer_loop.simps)

lemma bus_throughput_counts_example:
  "\<exists>s. (bus_throughput_step rc_send rc_recv)\<^sup>*\<^sup>* ex_bus_start s \<and> bh_todo s = [plain_message] \<and>
     (\<exists>lost. bh_count s + length (rc_queued (chans (bh_bus s) ! 0)) + 1 + lost = 2)"
proof -
  let ?s = "ex_bus_start\<lparr>bh_bus := snd (ex_publish (bh_bus ex_bus_start)), bh_todo := [plain_message]\<rparr>"
  have one: "is_power_of_two 1" by code_simp
  have "bench_bus (bh_bus ex_bus_start)"
    using ring_bus.bh_init_inv [OF one, of 2] by (simp add: bh_inv_def ex_bus_start_def numeral_2_eq_2)
  then have it: "iterates [0] (bh_bus ex_bus_start)" by (rule bench_iterates_single)
  have "publish rc_send [0] (Some 5) plain_message (bh_bus ex_bus_start) =
      Inr (fst (ex_publish (bh_bus ex_bus_start)), snd (ex_publish (bh_bus ex_bus_start)))"
    by (simp add: ex_publish_eq)
  moreover have "bh_todo ex_bus_start = [plain_message, plain_message]"
    by (simp add: ex_bus_start_def bus_throughput_init_def subscribe_def Let_def)
  ultimately have run: "(bus_throughput_step rc_send rc_recv)\<^sup>*\<^sup>* ex_bus_start ?s"
    by (intro r_into_rtranclp bus_throughput_step.bh_publish [OF _ it])
  then have run': "(bus_throughput_step rc_send rc_recv)\<^sup>*\<^sup>*
      (bus_throughput_init rc_bounded rc_drop_tx 1 [plain_message, plain_message]) ?s"
    by (simp only: ex_bus_start_def)
  have rx: "bh_rx ?s = 0"
    by (simp add: ex_bus_start_def bus_throughput_init_def subscribe_def bus_new_def Let_def)
  have msgs: "throughput_messages 2 = Inr [plain_message, plain_message]"
    by (simp add: throughput_messages_eq numeral_2_eq_2)
  note counts = bus_throughput_counts [OF ring_axioms one msgs run', unfolded rx]
  show ?thesis
    by (intro exI [of _ ?s] conjI run) (use counts in auto)
qed

end
