(* ===== verification/Bench_Mains.thy ===== *)
theory Bench_Mains
  imports Cells Config
begin

text \<open>
  The programs built from the measuring loops: \<open>crates/bench/src/persist_bench.rs\<close>, which measures
  the standard writer and then the io_uring writer at every batch size, and the configuration of
  \<open>persist_verify.rs\<close> by the environment.  The platform, the durations and the rounding of
  floating-point results are parameters; the platform is Linux.
\<close>

section \<open>Durations\<close>

text \<open>A duration is its number of nanoseconds; \<open>as_secs_f64\<close> adds whole seconds and the fraction.\<close>

definition as_millis :: "nat \<Rightarrow> nat" where
  "as_millis ns = ns div 1000000"

definition as_secs_f64 :: "rounding \<Rightarrow> nat \<Rightarrow> f64" where
  "as_secs_f64 rnd ns =
     f_add rnd (f_of_nat rnd (ns div 1000000000))
       (f_div rnd (f_of_nat rnd (ns mod 1000000000)) (Fin 1000000000))"

section \<open>\<open>persist_bench\<close>\<close>

record bench_row =
  row_writer :: string
  row_batch :: nat
  row_count :: nat
  elapsed_ms :: u64
  row_mmsg_s :: f64
  row_mb_s :: f64

text \<open>\<open>name()\<close> of the writers.\<close>

fun writer_name :: "any_writer \<Rightarrow> string" where
  "writer_name (Std w) = ''std-BufWriter''"
| "writer_name (Uring w) = ''io_uring-Write''"
| "writer_name (Fixed w) = ''io_uring-WriteFixed''"

text \<open>\<open>bench_writer\<close> with the row it returns; the end state of the writer is kept for the proofs.\<close>

definition bench_trial ::
    "rounding \<Rightarrow> platform \<Rightarrow> nat \<Rightarrow> any_writer \<Rightarrow> nat \<Rightarrow> (panic + (bench_row \<times> any_world)) option" where
  "bench_trial rnd P ns w batch =
     (case bench_writer any_batch any_sync batch (deploy P w) of
        None \<Rightarrow> None
      | Some (Inl p, W) \<Rightarrow> Some (Inl p)
      | Some (Inr ntotal, W) \<Rightarrow>
          (let (mmsg, mb) = throughputs rnd ntotal (as_secs_f64 rnd ns) in
           Some (Inr (\<lparr>row_writer = writer_name w, row_batch = batch, row_count = ntotal,
                       elapsed_ms = of_nat (as_millis ns), row_mmsg_s = mmsg, row_mb_s = mb\<rparr>, W))))"

text \<open>The two ways \<open>main\<close> creates a writer, both on a log file removed before.\<close>

definition bench_std :: "platform \<Rightarrow> nat \<Rightarrow> panic + any_writer" where
  "bench_std P batch = and_then (unwrap (std_create (open_failure P) fresh_log)) (\<lambda>w. Inr (Std w))"

definition bench_uring :: "platform \<Rightarrow> nat \<Rightarrow> panic + any_writer" where
  "bench_uring P batch =
     and_then (unwrap (uring_create (open_failure P) (ring_new_op P) (of_nat (min batch 512)) fresh_log))
       (\<lambda>w. Inr (Uring w))"

fun bench_loop ::
    "rounding \<Rightarrow> platform \<Rightarrow> (nat \<Rightarrow> nat) \<Rightarrow> (nat \<Rightarrow> panic + any_writer) \<Rightarrow> nat list
      \<Rightarrow> (bench_row \<times> any_world) list \<Rightarrow> (panic + (bench_row \<times> any_world) list) option" where
  "bench_loop rnd P ns mk [] results = Some (Inr results)"
| "bench_loop rnd P ns mk (batch # batches) results =
     and_run (Some (mk batch)) (\<lambda>w.
     and_run (bench_trial rnd P (ns batch) w batch) (\<lambda>r.
     bench_loop rnd P ns mk batches (results @ [r])))"

definition persist_bench ::
    "rounding \<Rightarrow> platform \<Rightarrow> (string \<Rightarrow> nat \<Rightarrow> nat) \<Rightarrow> (panic + (bench_row \<times> any_world) list) option" where
  "persist_bench rnd P ns =
     and_run (bench_loop rnd P (ns ''std'') (bench_std P) BATCH_SIZES []) (\<lambda>results.
       bench_loop rnd P (ns ''io_uring'') (bench_uring P) BATCH_SIZES results)"

section \<open>\<open>persist_verify\<close> as configured\<close>

definition DEFAULT_MSGS :: u64 where
  "DEFAULT_MSGS = 200000"

definition VERIFY_TRIALS :: u64 where
  "VERIFY_TRIALS = 5"

definition verify_main ::
    "rounding \<Rightarrow> platform \<Rightarrow> (string \<Rightarrow> nat \<Rightarrow> durability \<Rightarrow> nat \<Rightarrow> f64) \<Rightarrow> chars option \<Rightarrow> chars option
      \<Rightarrow> (panic + (cell list \<times> bool)) option" where
  "verify_main rnd P secs msgs_var trials_var =
     persist_verify rnd P secs (unat (number_of DEFAULT_MSGS msgs_var)) (unat (number_of VERIFY_TRIALS trials_var))"

section \<open>One row\<close>

lemma bench_writer_is_time_writer: "bench_writer wb sy batch w = time_writer wb sy batch SyncEnd MSG_COUNT w"
  by (simp add: bench_writer_def time_writer_def)

definition row_ok :: "bench_row \<times> any_world \<Rightarrow> bool" where
  "row_ok = (\<lambda>(r, W). row_count r = whole_batches (row_batch r) MSG_COUNT \<and>
     length (any_saved W) = 64 * row_count r \<and>
     (\<forall>i<row_count r. from_bytes (record_at i (any_saved W)) = Inr (bench_message (i mod row_batch r))))"

lemma bench_trial_ok:
  assumes "platform_ok P" and "built_ok w" and "0 < batch" and "batch \<le> 4096"
  shows "\<exists>r W. bench_trial rnd P ns w batch = Some (Inr (r, W)) \<and> row_writer r = writer_name w \<and>
    row_batch r = batch \<and> row_ok (r, W)"
proof -
  let ?k = "(MSG_COUNT + batch - 1) div batch"
  have ok: "any_ok (deploy P w)" "any_written (deploy P w) = []" using deploy_ok [OF assms(1,2)] by simp_all
  have "64 * (MSG_COUNT + batch) < 2 ^ 63" using assms(4) by (simp add: MSG_COUNT_def)
  then obtain W where W: "bench_writer any_batch any_sync batch (deploy P w) = Some (Inr (batch * ?k), W)"
      "any_saved W = encode_all (concat (replicate ?k (map bench_message [0..<batch])))"
    unfolding bench_writer_is_time_writer
    using anyw.time_writer_total [OF ok(1) assms(3), of MSG_COUNT SyncEnd] ok(2) by auto
  then show ?thesis
    using repeated_records [OF assms(3), of ?k]
    by (simp add: bench_trial_def row_ok_def whole_batches_def split: prod.split)
qed

lemma bench_std_built: "platform_ok P \<Longrightarrow> \<exists>w. bench_std P batch = Inr w \<and> built_ok w \<and> writer_name w = ''std-BufWriter''"
  by (auto simp: bench_std_def std_create_def unwrap_def platform_ok_def fresh_log_def)

lemma bench_uring_built:
  assumes P: "platform_ok P" and "0 < batch"
  shows "\<exists>w. bench_uring P batch = Inr w \<and> built_ok w \<and> writer_name w = ''io_uring-Write''"
proof -
  let ?d = "of_nat (min batch 512) :: u32"
  have d: "0 < unat ?d" "unat ?d \<le> 512" using assms(2) by (subst unat_of_nat, simp add: min_def)+
  then obtain n where "ring_new_op P ?d = Inr n" using P by (auto simp: platform_ok_def)
  then obtain u where u: "uring_create (open_failure P) (ring_new_op P) ?d fresh_log = Inr u"
    using P by (auto simp: platform_ok_def uring_create_Inr)
  moreover have "built_ok (Uring u)"
    using build_uring_ready [OF _ u] P d(2) by (simp add: platform_ok_def fresh_log_def)
  ultimately show ?thesis by (simp add: bench_uring_def unwrap_def del: built_ok.simps)
qed

lemma bench_loop_ok:
  assumes "platform_ok P" and mk: "\<And>b. 0 < b \<Longrightarrow> \<exists>w. mk b = Inr w \<and> built_ok w \<and> writer_name w = name"
  shows "list_all (\<lambda>b. 0 < b \<and> b \<le> 4096) batches \<Longrightarrow>
    \<exists>rs. bench_loop rnd P ns mk batches results = Some (Inr (results @ rs)) \<and>
      map (\<lambda>r. (row_writer (fst r), row_batch (fst r))) rs = map (Pair name) batches \<and> list_all row_ok rs"
proof (induction batches arbitrary: results)
  case (Cons b bs)
  then have b: "0 < b" "b \<le> 4096" by simp_all
  obtain w where w: "mk b = Inr w" "built_ok w" "writer_name w = name" using mk [OF b(1)] by blast
  obtain r W where r: "bench_trial rnd P (ns b) w b = Some (Inr (r, W))" "row_writer r = name" "row_batch r = b"
      "row_ok (r, W)" using bench_trial_ok [OF assms(1) w(2) b] w(3) by blast
  obtain rs where "bench_loop rnd P ns mk bs (results @ [(r, W)]) = Some (Inr ((results @ [(r, W)]) @ rs))"
      "map (\<lambda>r. (row_writer (fst r), row_batch (fst r))) rs = map (Pair name) bs" "list_all row_ok rs"
    using Cons.IH [of "results @ [(r, W)]"] Cons.prems by auto
  with w r show ?case by (intro exI [of _ "(r, W) # rs"]) simp
qed simp

lemma batch_sizes_ok: "list_all (\<lambda>b. 0 < b \<and> b \<le> 4096) BATCH_SIZES"
  by (simp add: BATCH_SIZES_def)

section \<open>Properties\<close>

text \<open>
  C24: On a platform without failures \<open>persist_bench\<close> ends without a panic.  It has one row per batch
  size for the standard writer and then one per batch size for the io_uring writer; each counts
  the messages asked for rounded up to whole batches, and when its clock stopped exactly that many
  records, readable in order, were on the disk.
\<close>

theorem persist_bench_rows:
  assumes "platform_ok P"
  shows "\<exists>rows. persist_bench rnd P ns = Some (Inr rows) \<and>
    map (\<lambda>r. (row_writer (fst r), row_batch (fst r))) rows =
      map (Pair ''std-BufWriter'') BATCH_SIZES @ map (Pair ''io_uring-Write'') BATCH_SIZES \<and>
    (\<forall>(r, W)\<in>set rows. row_count r = whole_batches (row_batch r) MSG_COUNT \<and>
      length (any_saved W) = 64 * row_count r \<and>
      (\<forall>i<row_count r. from_bytes (record_at i (any_saved W)) = Inr (bench_message (i mod row_batch r))))"
proof -
  obtain rs where rs: "bench_loop rnd P (ns ''std'') (bench_std P) BATCH_SIZES [] = Some (Inr rs)"
      "map (\<lambda>r. (row_writer (fst r), row_batch (fst r))) rs = map (Pair ''std-BufWriter'') BATCH_SIZES" "list_all row_ok rs"
    using bench_loop_ok [OF assms _ batch_sizes_ok, where mk = "bench_std P" and name = "''std-BufWriter''" and rnd = rnd and ns = "ns ''std''" and results = "[]"]
      bench_std_built [OF assms] by auto
  obtain us where us: "bench_loop rnd P (ns ''io_uring'') (bench_uring P) BATCH_SIZES rs = Some (Inr (rs @ us))"
      "map (\<lambda>r. (row_writer (fst r), row_batch (fst r))) us = map (Pair ''io_uring-Write'') BATCH_SIZES" "list_all row_ok us"
    using bench_loop_ok [OF assms _ batch_sizes_ok, where mk = "bench_uring P" and name = "''io_uring-Write''" and rnd = rnd and ns = "ns ''io_uring''" and results = rs]
      bench_uring_built [OF assms] by auto
  show ?thesis
    using rs us by (intro exI [of _ "rs @ us"]) (auto simp: persist_bench_def case_prod_beta list_all_iff row_ok_def)
qed

theorem persist_bench_rows_witness:
  "\<exists>rows. persist_bench Fin ex_platform (\<lambda>k b. 1000000000) = Some (Inr rows) \<and> length rows = 10"
proof -
  obtain rows where r: "persist_bench Fin ex_platform (\<lambda>k b. 1000000000) = Some (Inr rows)"
      "map (\<lambda>r. (row_writer (fst r), row_batch (fst r))) rows =
        map (Pair ''std-BufWriter'') BATCH_SIZES @ map (Pair ''io_uring-Write'') BATCH_SIZES"
    using persist_bench_rows [OF ex_platform_ok, of Fin "\<lambda>k b. 1000000000"] by blast
  have "length (map (\<lambda>r. (row_writer (fst r), row_batch (fst r))) rows) = 10" unfolding r(2) by (simp add: BATCH_SIZES_def)
  with r(1) show ?thesis by auto
qed

text \<open>
  As configured by the environment: with variables that are unset or no numbers, the defaults; the
  number of rows and their order do not depend on the configuration.
\<close>

lemma verify_main_defaults:
  assumes "Option.bind msgs_var parse_u64 = None" and "Option.bind trials_var parse_u64 = None"
  shows "verify_main rnd P secs msgs_var trials_var = persist_verify rnd P secs 200000 5"
  using assms by (simp add: verify_main_def number_of_def DEFAULT_MSGS_def VERIFY_TRIALS_def)

lemma verify_main_configured:
  assumes "m < 2 ^ 64" and "t < 2 ^ 64"
  shows "verify_main rnd P secs (Some (decimal m)) (Some (decimal t)) = persist_verify rnd P secs m t"
  using assms by (simp add: verify_main_def number_of_def parse_decimal unat_of_nat)

end
