(* ===== verification/Bench_Report.thy ===== *)
theory Bench_Report
  imports Throughput Bench_Mains Rate_Run
begin

text \<open>
  What \<open>crates/bench/src/main.rs\<close> reports: the rows of the latency and throughput trials and the
  order \<open>main\<close> puts them in.  A latency row is made of the end state of its trial (theories
  \<open>Bus_Trial\<close> and \<open>Latency_Trial\<close>); \<open>h_of\<close> is the histogram that recording a list of latencies
  gives, which belongs to the \<open>hdrhistogram\<close> crate like the operations on it.
\<close>

section \<open>The parameters\<close>

definition LAT_RATE_HZ :: u64 where
  "LAT_RATE_HZ = 10000"

definition LAT_INTERVAL :: u64 where
  "LAT_INTERVAL = 1000000000 div LAT_RATE_HZ"

definition LAT_MSGS :: nat where
  "LAT_MSGS = 100000"

definition LAT_WARMUP :: nat where
  "LAT_WARMUP = 5000"

definition THR_MSGS :: nat where
  "THR_MSGS = 1000000"

definition CAPACITY :: usize where
  "CAPACITY = 131072"   \<comment> \<open>\<open>1 << 17\<close>\<close>

section \<open>The rows\<close>

record 'h lat_ops = "'h hist_ops" +
  h_mean :: "'h \<Rightarrow> f64"

record pct =
  min_ns :: u64
  mean_ns :: f64
  p50_ns :: u64
  p95_ns :: u64
  p99_ns :: u64
  p99_9_ns :: u64
  max_ns :: u64

record lat_result =
  lat_label :: string
  lat_rate_hz :: u64
  lat_msg_count :: nat
  lat_drop_count :: u64
  lat_pinned :: bool
  lat_latency :: pct
  hdr_base64 :: string

record thr_result =
  thr_label :: string
  thr_msg_count :: nat
  thr_elapsed_ms :: u64
  throughput_mmsg_per_sec :: f64
  thr_pinned :: bool

definition to_pct :: "'h lat_ops \<Rightarrow> 'h \<Rightarrow> pct" where
  "to_pct ops h =
     \<lparr>min_ns = h_min ops h, mean_ns = h_mean ops h,
      p50_ns = h_quantile ops 500 h, p95_ns = h_quantile ops 950 h,
      p99_ns = h_quantile ops 990 h, p99_9_ns = h_quantile ops 999 h,
      max_ns = h_max ops h\<rparr>"

definition hdr_b64 :: "'h lat_ops \<Rightarrow> 'h \<Rightarrow> panic + string" where
  "hdr_b64 ops h = base64_encode (h_serialize ops h)"

definition lat_row :: "'h lat_ops \<Rightarrow> string \<Rightarrow> u64 \<Rightarrow> bool \<Rightarrow> 'h \<Rightarrow> panic + lat_result" where
  "lat_row ops label drops pin h =
     and_then (hdr_b64 ops h) (\<lambda>hdr.
     Inr \<lparr>lat_label = label, lat_rate_hz = LAT_RATE_HZ, lat_msg_count = LAT_MSGS, lat_drop_count = drops,
          lat_pinned = pin, lat_latency = to_pct ops h, hdr_base64 = hdr\<rparr>)"

text \<open>\<open>crossbeam_latency\<close> reports the counter of the bus, \<open>spsc_latency\<close> no drops.\<close>

definition crossbeam_row :: "'h lat_ops \<Rightarrow> (u64 list \<Rightarrow> 'h) \<Rightarrow> string \<Rightarrow> 'c bus_trial \<Rightarrow> panic + lat_result" where
  "crossbeam_row ops h_of label s = lat_row ops label (read_drop_count (b_bus s)) False (h_of (b_hist s))"

definition spsc_row :: "'h lat_ops \<Rightarrow> (u64 list \<Rightarrow> 'h) \<Rightarrow> string \<Rightarrow> bool \<Rightarrow> trial \<Rightarrow> panic + lat_result" where
  "spsc_row ops h_of label pin s = lat_row ops label 0 pin (h_of (hist s))"

text \<open>The time runs from before the first message to after the last; what was counted is not used.\<close>

definition thr_row :: "rounding \<Rightarrow> string \<Rightarrow> bool \<Rightarrow> nat \<Rightarrow> thr_result" where
  "thr_row rnd label pin ns =
     \<lparr>thr_label = label, thr_msg_count = THR_MSGS, thr_elapsed_ms = of_nat (as_millis ns),
      throughput_mmsg_per_sec = f_div rnd (f_div rnd (f_of_nat rnd THR_MSGS) (as_secs_f64 rnd ns)) (Fin 1000000),
      thr_pinned = pin\<rparr>"

text \<open>\<open>main\<close> up to the export, from the end states of its trials and the times measured.\<close>

definition bench_main ::
    "rounding \<Rightarrow> 'h lat_ops \<Rightarrow> (u64 list \<Rightarrow> 'h) \<Rightarrow> 'c bus_trial \<Rightarrow> (bool \<Rightarrow> trial) \<Rightarrow> nat \<Rightarrow> (bool \<Rightarrow> nat)
      \<Rightarrow> panic + (lat_result list \<times> thr_result list)" where
  "bench_main rnd ops h_of bus_end spsc_end bus_ns spsc_ns =
     and_then (crossbeam_row ops h_of ''crossbeam-Bus'' bus_end) (\<lambda>r1.
     and_then (spsc_row ops h_of ''spsc-ring-buffer'' False (spsc_end False)) (\<lambda>r2.
     and_then (spsc_row ops h_of ''spsc-ring-buffer'' True (spsc_end True)) (\<lambda>r3.
     Inr ([r1, r2, r3],
       [thr_row rnd ''crossbeam-Bus'' False bus_ns,
        thr_row rnd ''spsc-ring-buffer'' False (spsc_ns False),
        thr_row rnd ''spsc-ring-buffer'' True (spsc_ns True)]))))"

section \<open>The rows are made of their trials\<close>

lemma lat_row_Inr:
  "\<exists>r. lat_row ops label drops pin h = Inr r \<and> lat_label r = label \<and> lat_drop_count r = drops \<and>
     lat_pinned r = pin \<and> lat_latency r = to_pct ops h \<and> b64_decode (hdr_base64 r) = Some (h_serialize ops h)"
proof -
  obtain hdr where "base64_encode (h_serialize ops h) = Inr hdr" "b64_decode hdr = Some (h_serialize ops h)"
    using base64_encode_spec [of "h_serialize ops h"] by (auto simp: base64_encode_def)
  then show ?thesis by (simp add: lat_row_def hdr_b64_def)
qed

text \<open>The capacity is a power of two, so \<open>spsc\<close> accepts it.\<close>

lemma CAPACITY_ok: "is_power_of_two CAPACITY" "unat CAPACITY = 131072"
proof -
  show "unat CAPACITY = 131072" unfolding CAPACITY_def by simp
  show "is_power_of_two CAPACITY" by code_simp
qed

text \<open>
  The row of the trial over the bus, when its consumer timed out after \<open>done\<close> was set: drops and
  receptions add up to all messages published, the histogram has a value for each message received
  after the warm-up, and the exported text decodes to it.
\<close>

lemma crossbeam_row_accounts:
  assumes "bus_over_channel ch_send queued ch_cap rx_alive ch_ok ch_bounded ch_recv tx_alive drop_tx drop_rx cap_ok"
    and "cap_ok CAPACITY" and "publisher_messages start LAT_INTERVAL (LAT_MSGS + LAT_WARMUP) = Inr msgs"
    and "bus_trial_reach ch_send ch_bounded ch_recv drop_tx CAPACITY LAT_WARMUP msgs s"
    and "b_phase s = Exited True"
  shows "\<exists>r. crossbeam_row ops h_of label s = Inr r \<and>
    unat (lat_drop_count r) + b_received s = LAT_MSGS + LAT_WARMUP \<and>
    length (b_hist s) = b_received s - LAT_WARMUP \<and>
    b64_decode (hdr_base64 r) = Some (h_serialize ops (h_of (b_hist s)))"
proof -
  obtain us where us: "subseq us (map (due start LAT_INTERVAL) [0..<LAT_MSGS + LAT_WARMUP])"
      "b_hist s = map (\<lambda>i. latency (b_clocks s ! i) (us ! i)) [LAT_WARMUP..<b_received s]"
      "b_received s = length us" "read_drop_count (b_bus s) = of_nat (LAT_MSGS + LAT_WARMUP - b_received s)"
    using bus_trial_result [OF assms(1-4)] assms(5) by blast
  have "b_received s \<le> LAT_MSGS + LAT_WARMUP"
    using list_emb_length [OF us(1)] us(3) by simp
  moreover have "unat (read_drop_count (b_bus s)) = LAT_MSGS + LAT_WARMUP - b_received s"
    unfolding us(4) by (simp add: unat_of_nat LAT_MSGS_def LAT_WARMUP_def)
  moreover have "length (b_hist s) = b_received s - LAT_WARMUP" by (simp add: us(2))
  ultimately show ?thesis
    using lat_row_Inr [of ops label "read_drop_count (b_bus s)" False "h_of (b_hist s)"]
    by (auto simp: crossbeam_row_def)
qed

text \<open>\<open>main\<close> does not panic while it reports, and has its six rows in this order.\<close>

lemma bench_main_rows:
  "\<exists>lat thr. bench_main rnd ops h_of bus_end spsc_end bus_ns spsc_ns = Inr (lat, thr) \<and>
     map (\<lambda>r. (lat_label r, lat_pinned r)) lat =
       [(''crossbeam-Bus'', False), (''spsc-ring-buffer'', False), (''spsc-ring-buffer'', True)] \<and>
     map (\<lambda>r. (thr_label r, thr_pinned r)) thr = map (\<lambda>r. (lat_label r, lat_pinned r)) lat \<and>
     map lat_drop_count lat = [read_drop_count (b_bus bus_end), 0, 0]"
proof -
  obtain r1 r2 r3 where
      "crossbeam_row ops h_of ''crossbeam-Bus'' bus_end = Inr r1" "lat_label r1 = ''crossbeam-Bus''" "\<not> lat_pinned r1"
        "lat_drop_count r1 = read_drop_count (b_bus bus_end)"
      "spsc_row ops h_of ''spsc-ring-buffer'' False (spsc_end False) = Inr r2" "lat_label r2 = ''spsc-ring-buffer''"
        "\<not> lat_pinned r2" "lat_drop_count r2 = 0"
      "spsc_row ops h_of ''spsc-ring-buffer'' True (spsc_end True) = Inr r3" "lat_label r3 = ''spsc-ring-buffer''"
        "lat_pinned r3" "lat_drop_count r3 = 0"
    unfolding crossbeam_row_def spsc_row_def using lat_row_Inr by metis
  then show ?thesis by (simp add: bench_main_def thr_row_def)
qed

text \<open>
  The number of messages a throughput row over the bus reports, and computes its rate from, is that
  of the messages received and of those the bus has dropped.
\<close>

lemma crossbeam_throughput_counts_drops:
  assumes "bus_over_channel ch_send queued ch_cap rx_alive ch_ok ch_bounded ch_recv tx_alive drop_tx drop_rx cap_ok"
    and "cap_ok CAPACITY" and "throughput_messages THR_MSGS = Inr msgs"
    and "(bus_throughput_step ch_send ch_recv)\<^sup>*\<^sup>* (bus_throughput_init ch_bounded drop_tx CAPACITY msgs) s"
    and "bh_phase s = Exited True"
  shows "thr_msg_count (thr_row rnd label False ns) = bh_count s + unat (read_drop_count (bh_bus s))"
proof -
  have le: "bh_count s \<le> THR_MSGS" and drops: "read_drop_count (bh_bus s) = of_nat (THR_MSGS - bh_count s)"
    using bus_throughput_counts [OF assms(1-4)] assms(5) by auto
  have "unat (read_drop_count (bh_bus s)) = THR_MSGS - bh_count s"
    unfolding drops by (simp add: unat_of_nat THR_MSGS_def)
  then show ?thesis using le by (simp add: thr_row_def)
qed

lemma one_second_row:
  "throughput_mmsg_per_sec (thr_row Fin label pin 1000000000) = Fin 1 \<and> thr_elapsed_ms (thr_row Fin label pin 1000000000) = 1000"
  by (simp add: thr_row_def as_secs_f64_def as_millis_def f_of_nat_def THR_MSGS_def)

end
