(* ===== verification/Console.thy ===== *)
theory Console
  imports Format Bench_Report
begin

text \<open>
  What the benchmarks print: the console output of \<open>crates/bench/src/main.rs\<close>, \<open>tail_bench.rs\<close>,
  \<open>persist_verify.rs\<close> and \<open>persist_bench.rs\<close> for the results they have computed, as the list of its
  lines.  Names of the system are parameters.  The platform is Linux.
\<close>

section \<open>Pieces\<close>

abbreviation num :: "nat \<Rightarrow> chars" where
  "num n \<equiv> decimal n"

abbreviation num64 :: "u64 \<Rightarrow> chars" where
  "num64 w \<equiv> decimal (unat w)"

fun commas :: "chars list \<Rightarrow> chars" where
  "commas [] = []"
| "commas [s] = s"
| "commas (s # t # ts) = s @ chars_of '', '' @ commas (t # ts)"

text \<open>\<open>{:?}\<close> of a list of numbers.\<close>

definition debug_list :: "nat list \<Rightarrow> chars" where
  "debug_list ns = chars_of ''['' @ commas (map num ns) @ chars_of '']''"

definition pin_label :: "bool \<Rightarrow> chars" where
  "pin_label pin = chars_of (if pin then ''pinned'' else ''unpinned'')"

section \<open>\<open>main.rs\<close>\<close>

definition print_lat :: "lat_result \<Rightarrow> chars list" where
  "print_lat r =
     (let p = lat_latency r;
          drop_warn = (if 0 < lat_drop_count r
            then [0x20, 0x26A0, 0x20] @ num64 (lat_drop_count r) @ chars_of '' drops'' else []);
          bar = chars_of ''  '' @ [0x2502] @ chars_of ''  '' in
      [[], chars_of ''  '' @ [0x250C, 0x2500, 0x20] @ chars_of (lat_label r) @ chars_of '' ['' @ pin_label (lat_pinned r)
         @ chars_of '']'' @ drop_warn,
       bar @ chars_of ''min     '' @ pad_left 12 (num64 (min_ns p)) @ chars_of '' ns'',
       bar @ chars_of ''mean    '' @ pad_left 15 (fixed_f64 0 (mean_ns p)) @ chars_of '' ns'',
       bar @ chars_of ''p50     '' @ pad_left 12 (num64 (p50_ns p)) @ chars_of '' ns'',
       bar @ chars_of ''p95     '' @ pad_left 12 (num64 (p95_ns p)) @ chars_of '' ns'',
       bar @ chars_of ''p99     '' @ pad_left 12 (num64 (p99_ns p)) @ chars_of '' ns'',
       bar @ chars_of ''p99.9   '' @ pad_left 12 (num64 (p99_9_ns p)) @ chars_of '' ns'',
       chars_of ''  '' @ [0x2514, 0x2500] @ chars_of '' max     '' @ pad_left 12 (num64 (max_ns p)) @ chars_of '' ns''])"

definition print_thr :: "thr_result \<Rightarrow> chars list" where
  "print_thr r =
     [chars_of ''  '' @ chars_of (thr_label r) @ chars_of '' ['' @ pin_label (thr_pinned r) @ chars_of '']: ''
        @ fixed_f64 2 (throughput_mmsg_per_sec r) @ chars_of '' Mmsg/s  ('' @ num (thr_msg_count r)
        @ chars_of '' msgs in '' @ num64 (thr_elapsed_ms r) @ chars_of '' ms)'']"

definition bench_stdout ::
    "nat \<Rightarrow> chars \<Rightarrow> chars \<Rightarrow> lat_result list \<times> thr_result list \<Rightarrow> chars list" where
  "bench_stdout cores os_name arch_name = (\<lambda>(lat, thr).
     [chars_of ''Cadence '' @ [0x2014] @ chars_of '' Phase 3 vs Phase 4 benchmark'',
      chars_of ''  Logical cores: '' @ num cores @ chars_of ''  OS: '' @ os_name @ chars_of ''  Arch: '' @ arch_name,
      chars_of ''  Note: for sub-'' @ [0xB5] @ chars_of ''s tail latency, rerun on Linux with isolated cores (isolcpus).'',
      chars_of ''  Latency: '' @ num64 (LAT_RATE_HZ div 1000) @ chars_of '' k msg/s open-loop, '' @ num LAT_MSGS
        @ chars_of '' msgs + '' @ num LAT_WARMUP @ chars_of '' warmup'',
      chars_of ''  Throughput: '' @ num (THR_MSGS div 1000000) @ chars_of '' M msgs max-rate push'',
      [],
      chars_of ''=== Latency (open-loop '' @ num64 (LAT_RATE_HZ div 1000) @ chars_of '' k msg/s, CO-corrected) ===''] @
     concat (map print_lat lat) @
     [[], chars_of ''=== Throughput (max-rate, '' @ num (THR_MSGS div 1000000) @ chars_of '' M msgs) ===''] @
     concat (map print_thr thr) @
     [[], chars_of ''Exported '' @ [0x2192] @ chars_of '' bench_results.json'',
      chars_of ''Generated '' @ [0x2192] @ chars_of '' latency_histogram.svg''])"

section \<open>\<open>persist_bench.rs\<close>\<close>

definition print_result :: "bench_row \<Rightarrow> chars list" where
  "print_result r =
     [chars_of ''  '' @ pad_right 20 (chars_of (row_writer r)) @ chars_of '' batch='' @ pad_left 5 (num (row_batch r))
        @ chars_of ''  '' @ pad_left 7 (fixed_f64 2 (row_mmsg_s r)) @ chars_of '' Mmsg/s  ''
        @ pad_left 7 (fixed_f64 1 (row_mb_s r)) @ chars_of '' MB/s  ('' @ num64 (elapsed_ms r) @ chars_of '' ms)'']"

definition persist_bench_stdout :: "chars \<Rightarrow> chars \<Rightarrow> bench_row list \<Rightarrow> bench_row list \<Rightarrow> chars list" where
  "persist_bench_stdout os_name arch_name std_rows uring_rows =
     [chars_of ''Cadence Phase 4b '' @ [0x2014] @ chars_of '' persistence benchmark'',
      chars_of ''  Platform: '' @ arch_name @ chars_of ''  OS: '' @ os_name,
      chars_of ''  Messages per trial: '' @ num MSG_COUNT @ chars_of ''  Record size: 64 bytes'',
      chars_of ''  Batch sizes: '' @ debug_list BATCH_SIZES,
      [],
      chars_of ''=== std BufWriter ===''] @
     concat (map print_result std_rows) @
     [[], chars_of ''=== io_uring Write ===''] @
     concat (map print_result uring_rows) @
     [[], chars_of ''Exported '' @ [0x2192] @ chars_of '' persist_bench_results.json'',
      [],
      chars_of ''Interpretation:'',
      chars_of ''  batch=1   '' @ [0x2192] @ chars_of '' naive swap: one syscall per record regardless of impl.'',
      chars_of ''  batch=N   '' @ [0x2192] @ chars_of '' where batching helps: fewer syscalls, better throughput.'',
      chars_of ''  io_uring advantage is in batching + registered buffers (Linux '' @ [0x2265] @ chars_of ''5.1).'',
      chars_of ''  On this platform ('' @ os_name @ chars_of ''), only std baseline is available.'',
      chars_of ''  Results without io_uring are honest '' @ [0x2014] @ chars_of '' not extrapolated.'']"

section \<open>\<open>persist_verify.rs\<close>\<close>

definition cell_line :: "cell \<Rightarrow> chars" where
  "cell_line r =
     chars_of ''  '' @ pad_right 22 (chars_of (cell_writer r)) @ chars_of '' batch='' @ pad_left 5 (num (batch_size r))
       @ chars_of ''  '' @ pad_left 7 (fixed_f64 2 (mb_s_median r)) @ chars_of '' MB/s (median)  ''
       @ fixed_f64 3 (mmsg_s_median r) @ chars_of '' Mmsg/s''"

definition verify_warnings :: "verify_info \<Rightarrow> chars list" where
  "verify_warnings env =
     (if v_os env \<noteq> chars_of ''linux''
      then [[0x20, 0x20, 0x26A0] @ chars_of '' Not Linux '' @ [0x2014] @ chars_of '' std baseline only; io_uring writers skipped.'']
      else []) @
     (if prefix (chars_of ''unset'') (device env)
      then [[0x20, 0x20, 0x26A0] @ chars_of '' No block device recorded '' @ [0x2014] @ chars_of '' run via run_verification.sh on a real disk,'',
            chars_of ''    not tmpfs/overlay, or the MB/s figures are meaningless.'']
      else [])"

definition durability_table :: "cell list \<Rightarrow> durability \<Rightarrow> chars list" where
  "durability_table cells dur =
     (chars_of ''=== durability: '' @ chars_of (durability_label dur) @ chars_of '' ==='')
     # map cell_line (filter (\<lambda>r. cell_durability r = durability_label dur) cells) @ [[]]"

definition verdict_line :: "bool \<Rightarrow> chars" where
  "verdict_line ok =
     chars_of ''Claim D (WriteFixed '' @ [0x2265] @ chars_of ''1.5'' @ [0xD7] @ chars_of '' std at batch'' @ [0x2265] @ chars_of ''64): '' @
     (if ok then chars_of ''PASS (see ratio_vs_std)''
      else chars_of ''NOT met on this run '' @ [0x2014] @ chars_of '' report honestly per BENCHMARKING.md '' @ [0xA7] @ chars_of ''8'')"

definition verify_stdout :: "verify_info \<Rightarrow> nat \<Rightarrow> nat \<Rightarrow> cell list \<times> bool \<Rightarrow> chars list" where
  "verify_stdout env msgs ntrials = (\<lambda>(cells, ok).
     [chars_of ''Cadence '' @ [0x2014] @ chars_of '' Test D: disk-write / io_uring verification'',
      chars_of ''  OS='' @ v_os env @ chars_of '' arch='' @ v_arch env @ chars_of '' kernel='' @ v_kernel env,
      chars_of ''  device='' @ device env @ chars_of '' fs='' @ filesystem env,
      chars_of ''  msgs/trial='' @ num msgs @ chars_of '' trials='' @ num ntrials @ chars_of '' batches='' @ debug_list BATCH_SIZES] @
     verify_warnings env @ [[]] @
     concat (map (durability_table cells) [SyncEnd, SyncPerBatch]) @
     [verdict_line ok, [], chars_of ''Exported '' @ [0x2192] @ chars_of '' persist_verify_results.json''])"

section \<open>\<open>tail_bench.rs\<close>\<close>

definition rate_line :: "rate_result \<Rightarrow> chars" where
  "rate_line r =
     chars_of ''  rate='' @ pad_left 9 (num64 (rate_hz r)) @ chars_of ''/s  ['' @ chars_of (wait_label r)
       @ chars_of (if pinned r then '', pinned'' else '''') @ chars_of '']  trials='' @ num (trials r)
       @ chars_of ''  p99 median='' @ pad_left 6 (num64 (p99_median r)) @ chars_of '' ns  IQR='' @ pad_left 6 (num64 (p99_iqr r))
       @ chars_of '' ns  '' @ (if passes_sub_us r then chars_of ''PASS <1'' @ [0xB5] @ chars_of ''s stable'' else [0x2014])"

definition tail_stdout :: "env_info \<Rightarrow> rate_result list \<Rightarrow> rate_result list \<Rightarrow> chars list" where
  "tail_stdout env spin yield =
     [chars_of ''Cadence '' @ [0x2014] @ chars_of '' Test T: tail-latency verification'',
      chars_of ''  OS='' @ os env @ chars_of '' arch='' @ arch env @ chars_of '' cores='' @ num (logical_cores env),
      chars_of ''  governor='' @ governor env @ chars_of '' turbo_disabled='' @ turbo_disabled env @ chars_of '' isolcpus='' @ isolcpus env,
      chars_of ''  tsc='' @ tsc_flags env @ chars_of '' kernel='' @ env_kernel env] @
     (if warns env
      then [[0x20, 0x20, 0x26A0] @ chars_of '' NOT a valid tail-latency environment (need Linux + isolcpus).'',
            chars_of ''    Numbers below are indicative only '' @ [0x2014] @ chars_of '' see VERIFICATION_PLAN.md '' @ [0xA7] @ chars_of ''Where to run.'']
      else []) @
     [[], chars_of ''=== pinned, busy-spin consumer (the claim) ===''] @ map rate_line spin @
     [[], chars_of ''=== pinned, yielding consumer (contrast: cost of yielding) ===''] @ map rate_line yield @
     [[], chars_of ''Exported '' @ [0x2192] @ chars_of '' tail_bench_results.json'',
      chars_of ''Reproduce a histogram: paste agg_hdr_base64 into'',
      chars_of ''  https://hdrhistogram.github.io/HdrHistogramJSDemo/logparser.html'']"

section \<open>Reading the output\<close>

lemmas line_simps = chars_of_def is_whitespace_def

text \<open>Words of a line whose pieces are literals, numbers padded on the left and blanks.\<close>

lemma word_chars: "is_word w \<Longrightarrow> s \<noteq> [] \<Longrightarrow> hd s = 0x20 \<Longrightarrow> split_whitespace (w @ s) = w # split_whitespace s"
  by (rule split_whitespace_word) (simp_all add: is_whitespace_def)

lemma words_pad_right:
  assumes "is_word w" and "s \<noteq> []" and "hd s = 0x20"
  shows "split_whitespace (pad_right k w @ s) = w # split_whitespace s"
proof (cases "k - length w")
  case 0
  then show ?thesis using word_chars [OF assms] by (simp add: pad_right_def)
next
  case (Suc n)
  then have "pad_right k w @ s = w @ 0x20 # replicate n 0x20 @ s" by (simp add: pad_right_def)
  then show ?thesis using words_space [OF assms(1)] words_blank by simp
qed

text \<open>A number shorter than its field has a blank before it.\<close>

lemma words_field:
  assumes "is_word w" "is_word v" "length v < k"
  shows "split_whitespace (w @ pad_left k v @ s) = w # split_whitespace (v @ s)"
proof -
  obtain n where "k - length v = Suc n" using assms(3) by (metis Suc_diff_Suc)
  then have "w @ pad_left k v @ s = w @ 0x20 # replicate n 0x20 @ v @ s" by (simp add: pad_left_def)
  then show ?thesis using words_space [OF assms(1)] words_blank by simp
qed

lemma length_decimal: "n < 10 ^ Suc k \<Longrightarrow> length (decimal n) \<le> Suc k"
proof (induction k arbitrary: n)
  case 0
  then show ?case by (simp add: decimal.simps [of n])
next
  case (Suc k)
  then have "n div 10 < 10 ^ Suc k" by simp
  from Suc.IH [OF this] show ?case by (simp add: decimal.simps [of n])
qed

lemmas line_words = words_pad_left words_pad_right words_space words_end word_decimal word_fixed_f64 line_simps

text \<open>A line of the table is a mark, a label, a value and the unit.\<close>

lemma print_lat_line:
  assumes "is_word w"
  shows "split_whitespace (chars_of ''  '' @ [0x2502] @ chars_of ''  '' @ chars_of ''min     '' @ pad_left k w @ chars_of '' ns'') =
      [[0x2502], chars_of ''min'', w, chars_of ''ns'']"
    "split_whitespace (chars_of ''  '' @ [0x2502] @ chars_of ''  '' @ chars_of ''mean    '' @ pad_left k w @ chars_of '' ns'') =
      [[0x2502], chars_of ''mean'', w, chars_of ''ns'']"
    "split_whitespace (chars_of ''  '' @ [0x2502] @ chars_of ''  '' @ chars_of ''p50     '' @ pad_left k w @ chars_of '' ns'') =
      [[0x2502], chars_of ''p50'', w, chars_of ''ns'']"
    "split_whitespace (chars_of ''  '' @ [0x2502] @ chars_of ''  '' @ chars_of ''p95     '' @ pad_left k w @ chars_of '' ns'') =
      [[0x2502], chars_of ''p95'', w, chars_of ''ns'']"
    "split_whitespace (chars_of ''  '' @ [0x2502] @ chars_of ''  '' @ chars_of ''p99     '' @ pad_left k w @ chars_of '' ns'') =
      [[0x2502], chars_of ''p99'', w, chars_of ''ns'']"
    "split_whitespace (chars_of ''  '' @ [0x2502] @ chars_of ''  '' @ chars_of ''p99.9   '' @ pad_left k w @ chars_of '' ns'') =
      [[0x2502], chars_of ''p99.9'', w, chars_of ''ns'']"
    "split_whitespace (chars_of ''  '' @ [0x2514, 0x2500] @ chars_of '' max     '' @ pad_left k w @ chars_of '' ns'') =
      [[0x2514, 0x2500], chars_of ''max'', w, chars_of ''ns'']"
  using assms by (simp_all add: line_words)

lemma print_lat_words:
  "map split_whitespace (drop 2 (print_lat r)) = (let p = lat_latency r; row = (\<lambda>l v. [[0x2502], chars_of l, v, chars_of ''ns'']) in
     [row ''min'' (num64 (min_ns p)), row ''mean'' (fixed_f64 0 (mean_ns p)), row ''p50'' (num64 (p50_ns p)),
      row ''p95'' (num64 (p95_ns p)), row ''p99'' (num64 (p99_ns p)), row ''p99.9'' (num64 (p99_9_ns p)),
      [[0x2514, 0x2500], chars_of ''max'', num64 (max_ns p), chars_of ''ns'']])"
  by (simp add: print_lat_def Let_def print_lat_line [simplified] word_decimal word_fixed_f64)

text \<open>
  The mean has a field of fifteen characters where every other number has one of twelve, so its
  column ends three characters further right.
\<close>

lemma mean_column_off:
  assumes "length (num64 (min_ns (lat_latency r))) \<le> 12" and "length (fixed_f64 0 (mean_ns (lat_latency r))) \<le> 15"
  shows "length (print_lat r ! 3) = length (print_lat r ! 2) + 3"
  using assms by (simp add: print_lat_def Let_def length_pads chars_of_def)

text \<open>The closing remark of \<open>persist_bench\<close> does not depend on the system: it also follows rows of io_uring.\<close>

lemma always_std_only:
  "(chars_of ''  On this platform ('' @ chars_of ''linux'' @ chars_of ''), only std baseline is available.'')
     \<in> set (persist_bench_stdout (chars_of ''linux'') arch_name std_rows uring_rows)"
  by (simp add: persist_bench_stdout_def)

text \<open>The console of \<open>persist_verify\<close> has each cell once, in the order of the report.\<close>

lemma verify_shows_cells:
  assumes "map cell_durability cells = replicate n (durability_label SyncEnd) @ replicate m (durability_label SyncPerBatch)"
  shows "concat (map (durability_table cells) [SyncEnd, SyncPerBatch]) =
    (chars_of ''=== durability: sync-end ==='') # map cell_line (take n cells) @
    [[], chars_of ''=== durability: sync-per-batch ===''] @ map cell_line (drop n cells) @ [[]]"
proof -
  have "map cell_durability (take n cells) = replicate n (durability_label SyncEnd)"
    "map cell_durability (drop n cells) = replicate m (durability_label SyncPerBatch)"
    using assms by (simp_all add: take_map [symmetric] drop_map [symmetric])
  then have lab: "\<forall>r\<in>set (take n cells). cell_durability r = durability_label SyncEnd"
    "\<forall>r\<in>set (drop n cells). cell_durability r = durability_label SyncPerBatch"
    by (metis (no_types, lifting) in_set_replicate image_eqI list.set_map)+
  have "filter (\<lambda>r. cell_durability r = durability_label d) (take n cells @ drop n cells) =
      (if d = SyncEnd then take n cells else drop n cells)" for d
    using lab unfolding filter_append by (cases d) (simp_all add: filter_True filter_False)
  then have "filter (\<lambda>r. cell_durability r = durability_label d) cells = (if d = SyncEnd then take n cells else drop n cells)" for d
    by simp
  from this [of SyncEnd] this [of SyncPerBatch] show ?thesis by (simp add: durability_table_def chars_of_def)
qed

text \<open>The line of a rate says that it passes exactly when the row does.\<close>

lemma rate_line_verdict: "last (rate_line r) = (if passes_sub_us r then 0x65 else 0x2014)"
  by (simp add: rate_line_def chars_of_def)

definition ex_lat_row :: lat_result where
  "ex_lat_row = \<lparr>lat_label = ''test'', lat_rate_hz = 1, lat_msg_count = 1, lat_drop_count = 0, lat_pinned = False,
     lat_latency = \<lparr>min_ns = 100, mean_ns = Fin (1001 / 2), p50_ns = 300, p95_ns = 800, p99_ns = 1000, p99_9_ns = 2000,
       max_ns = 5000\<rparr>, hdr_base64 = []\<rparr>"

definition ex_bench_row :: bench_row where
  "ex_bench_row = \<lparr>row_writer = ''std-BufWriter'', row_batch = 4096, row_count = 1003520, elapsed_ms = 250,
     row_mmsg_s = Fin 4, row_mb_s = Fin 245\<rparr>"

section \<open>Properties\<close>

text \<open>
  C32: What \<open>print_lat\<close> prints can be read back: after its mark each line of the table has three words, the
  name of a percentile, the value in decimals and the unit; the line named p95 has the 95th percentile of
  the row, and so for the minimum, the other percentiles and the maximum, exactly, and the mean is there to
  within half a nanosecond.
\<close>

theorem print_lat_reads_back:
  assumes "mean_ns (lat_latency r) = Fin x" and "0 \<le> x"
  shows "let word = (\<lambda>i k. split_whitespace (print_lat r ! i) ! k); p = lat_latency r in
    map (\<lambda>i. (word i 1, parse_u64 (word i 2), word i 3)) [2, 4, 5, 6, 7, 8] =
      [(chars_of ''min'', Some (min_ns p), chars_of ''ns''), (chars_of ''p50'', Some (p50_ns p), chars_of ''ns''),
       (chars_of ''p95'', Some (p95_ns p), chars_of ''ns''), (chars_of ''p99'', Some (p99_ns p), chars_of ''ns''),
       (chars_of ''p99.9'', Some (p99_9_ns p), chars_of ''ns''), (chars_of ''max'', Some (max_ns p), chars_of ''ns'')] \<and>
    word 3 1 = chars_of ''mean'' \<and> \<bar>read_decimal (word 3 2) - x\<bar> \<le> 1 / 2 \<and> word 3 3 = chars_of ''ns'' \<and>
    (\<forall>i\<in>{2..8}. length (split_whitespace (print_lat r ! i)) = 4)"
proof -
  have num: "parse_u64 (decimal (unat w)) = Some w" for w :: u64
    using parse_decimal [OF unat64_less, of w] by simp
  let ?ws = "map split_whitespace (drop 2 (print_lat r))"
  have nth: "split_whitespace (print_lat r ! (i + 2)) = ?ws ! i" if "i < 7" for i
  proof -
    have "length (print_lat r) = 9" by (simp add: print_lat_def Let_def)
    with that show ?thesis by (simp add: add.commute)
  qed
  have low: "0 + 2 = (2 :: nat)" "1 + 2 = (3 :: nat)" by simp_all
  note words = nth [of 0, unfolded low] nth [of 1, unfolded low] nth [of 2] nth [of 3] nth [of 4] nth [of 5] nth [of 6]
  have idx: "{2..8} = {2, 3, 4, 5, 6, 7, 8 :: nat}" by auto
  show ?thesis
    using words read_fixed_close [OF assms(2), of 0] assms(1) unfolding print_lat_words idx by (simp add: Let_def num)
qed

theorem print_lat_reads_back_witness:
  "split_whitespace (print_lat ex_lat_row ! 6) ! 1 = chars_of ''p99'' \<and>
     parse_u64 (split_whitespace (print_lat ex_lat_row ! 6) ! 2) = Some 1000 \<and>
     \<bar>read_decimal (split_whitespace (print_lat ex_lat_row ! 3) ! 2) - 1001 / 2\<bar> \<le> 1 / 2"
  using print_lat_reads_back [of ex_lat_row "1001 / 2"] by (simp add: ex_lat_row_def Let_def)

text \<open>
  A row of \<open>persist_bench\<close> is printed as nine words, whatever its numbers: the writer, the batch
  size, both throughputs to two and one decimals, and the time.
\<close>

lemma print_result_words:
  assumes "is_word (chars_of (row_writer r))" and "row_batch r < 10000"
  shows "map split_whitespace (print_result r) =
    [[chars_of (row_writer r), chars_of ''batch='', decimal (row_batch r), fixed_f64 2 (row_mmsg_s r), chars_of ''Mmsg/s'',
      fixed_f64 1 (row_mb_s r), chars_of ''MB/s'', chars_of ''('' @ decimal (unat (elapsed_ms r)), chars_of ''ms)'']]"
proof -
  have b: "length (decimal (row_batch r)) < 5" using length_decimal [of "row_batch r" 3] assms(2) by simp
  have "is_word (chars_of ''batch='')" by (simp add: is_word_def line_simps)
  note batch = words_field [OF this word_decimal b]
  have "\<not> is_whitespace (hd (num n @ s))" for n s
    using decimal_plain(1) [of n] word_decimal [of n] by (simp add: is_word_def)
  note paren = this [unfolded is_whitespace_def, simplified]
  let ?rest = "chars_of ''  '' @ pad_left 7 (fixed_f64 2 (row_mmsg_s r)) @ chars_of '' Mmsg/s  ''
    @ pad_left 7 (fixed_f64 1 (row_mb_s r)) @ chars_of '' MB/s  ('' @ num64 (elapsed_ms r) @ chars_of '' ms)''"
  let ?line = "chars_of ''  '' @ pad_right 20 (chars_of (row_writer r)) @ 0x20 # chars_of ''batch='' @ pad_left 5 (num (row_batch r)) @ ?rest"
  have rest: "split_whitespace (num (row_batch r) @ ?rest) =
    [num (row_batch r), fixed_f64 2 (row_mmsg_s r), chars_of ''Mmsg/s'',
      fixed_f64 1 (row_mb_s r), chars_of ''MB/s'', chars_of ''('' @ num64 (elapsed_ms r), chars_of ''ms)'']"
    by (simp add: line_words paren)
  have "split_whitespace ?line = split_whitespace (pad_right 20 (chars_of (row_writer r)) @ 0x20 # chars_of ''batch='' @ pad_left 5 (num (row_batch r)) @ ?rest)"
    by (rule split_whitespace_blank) (simp add: line_simps)
  also have "\<dots> = chars_of (row_writer r) # split_whitespace (0x20 # chars_of ''batch='' @ pad_left 5 (num (row_batch r)) @ ?rest)"
    by (rule words_pad_right [OF assms(1)]) simp_all
  also have "split_whitespace (0x20 # chars_of ''batch='' @ pad_left 5 (num (row_batch r)) @ ?rest) =
      split_whitespace (chars_of ''batch='' @ pad_left 5 (num (row_batch r)) @ ?rest)"
    using words_blank [of 1] by simp
  also have "\<dots> = chars_of ''batch='' # split_whitespace (num (row_batch r) @ ?rest)" by (rule batch)
  finally have "split_whitespace ?line = chars_of (row_writer r) # chars_of ''batch='' # split_whitespace (num (row_batch r) @ ?rest)" .
  moreover have "print_result r = [?line]" by (simp add: print_result_def chars_of_def)
  ultimately show ?thesis unfolding rest by simp
qed

lemma print_result_words_example:
  "map (\<lambda>l. take 4 (split_whitespace l)) (print_result ex_bench_row) =
     [[chars_of ''std-BufWriter'', chars_of ''batch='', chars_of ''4096'', chars_of ''4.00'']]"
proof -
  have "is_word (chars_of (row_writer ex_bench_row))" "row_batch ex_bench_row < 10000"
    by (simp_all add: ex_bench_row_def is_word_def line_simps)
  note words = print_result_words [OF this]
  have "map (\<lambda>l. take 4 (split_whitespace l)) (print_result ex_bench_row) =
      map (take 4) (map split_whitespace (print_result ex_bench_row))" by simp
  moreover have "decimal (row_batch ex_bench_row) = chars_of ''4096''"
    by (simp add: ex_bench_row_def decimal.simps chars_of_def)
  moreover have "fixed_f64 2 (row_mmsg_s ex_bench_row) = show_scaled 2 400"
    using round_even_of_int [of 400] by (simp add: ex_bench_row_def fixed_def)
  moreover have "show_scaled 2 400 = chars_of ''4.00''" by code_simp
  moreover have "row_writer ex_bench_row = ''std-BufWriter''" by (simp add: ex_bench_row_def)
  ultimately show ?thesis unfolding words by simp
qed

end
