(* ===== verification/Svg.thy ===== *)
theory Svg
  imports Console
begin

text \<open>
  The drawing of \<open>crates/bench/src/main.rs\<close>: \<open>render_latency_svg\<close> with the two scales it places
  points by.  Parameters: \<open>lg\<close> is \<open>f64::log10\<close>, whose precision is unspecified and may differ from one
  call to the next, so it has the call as an argument too; \<open>rnd\<close> is the rounding of a floating-point
  result, on values that do not overflow.  The sizes are integers, which \<open>f64\<close> adds exactly and
  \<open>{}\<close> prints without decimals.  The text is put together from elements; \<open>draw\<close> writes one.
\<close>

section \<open>Coordinates\<close>

text \<open>A coordinate is a number unless a division by zero went before.\<close>

datatype coord = Num rat | PosInf | NegInf | Undef

fun s_div :: "(rat \<Rightarrow> rat) \<Rightarrow> rat \<Rightarrow> rat \<Rightarrow> coord" where
  "s_div rnd a b =
     (if b = 0 then if a = 0 then Undef else if 0 < a then PosInf else NegInf else Num (rnd (a / b)))"

text \<open>\<open>start + (1.0 - t) * extent\<close>.\<close>

fun along :: "(rat \<Rightarrow> rat) \<Rightarrow> rat \<Rightarrow> rat \<Rightarrow> coord \<Rightarrow> coord" where
  "along rnd start extent (Num t) = Num (rnd (start + rnd (rnd (1 - t) * extent)))"
| "along rnd start extent PosInf = NegInf"
| "along rnd start extent NegInf = PosInf"
| "along rnd start extent Undef = Undef"

text \<open>\<open>{:.1}\<close>.\<close>

fun show1 :: "coord \<Rightarrow> chars" where
  "show1 (Num x) = fixed 1 x"
| "show1 PosInf = chars_of ''inf''"
| "show1 NegInf = chars_of ''-inf''"
| "show1 Undef = chars_of ''NaN''"

definition SVG_W :: nat where "SVG_W = 900"
definition SVG_H :: nat where "SVG_H = 480"
definition SVG_PL :: nat where "SVG_PL = 88"
definition SVG_PR :: nat where "SVG_PR = 210"
definition SVG_PT :: nat where "SVG_PT = 44"
definition SVG_PB :: nat where "SVG_PB = 64"

definition SVG_COLORS :: "string list" where
  "SVG_COLORS = [''#4e79a7'', ''#f28e2b'', ''#59a14f'']"

lemmas svg_sizes = SVG_W_def SVG_H_def SVG_PL_def SVG_PR_def SVG_PT_def SVG_PB_def

text \<open>
  A call of \<open>log10\<close> is named by its path: which part of the drawing, which of its items, which call
  there.  \<open>calls_of lg k\<close> are the calls made below step \<open>k\<close>.
\<close>

type_synonym log10 = "nat list \<Rightarrow> rat \<Rightarrow> rat"

definition calls_of :: "log10 \<Rightarrow> nat \<Rightarrow> log10" where
  "calls_of lg k = (\<lambda>c. lg (k # c))"

definition pct_x :: "log10 \<Rightarrow> (rat \<Rightarrow> rat) \<Rightarrow> rat \<Rightarrow> coord" where
  "pct_x lg rnd p =
     (let inv = max (rnd (1 - p)) (rnd (1 / 100000));
          lmin = lg [0] (rnd (1 - rnd (9999 / 10000)));
          t = s_div rnd (rnd (lg [1] inv - lmin)) (rnd (0 - lmin)) in
      along rnd (of_nat SVG_PL) (of_nat (SVG_W - SVG_PL - SVG_PR)) t)"

definition lat_y :: "log10 \<Rightarrow> (rat \<Rightarrow> rat) \<Rightarrow> u64 \<Rightarrow> u64 \<Rightarrow> coord" where
  "lat_y lg rnd ns most =
     (let lo = 3 / 2;
          hi = lg [0] (max (rnd (of_nat (unat most))) 1);
          t = s_div rnd (rnd (lg [1] (max (rnd (of_nat (unat ns))) 1) - lo)) (rnd (hi - lo)) in
      along rnd (of_nat SVG_PT) (of_nat (SVG_H - SVG_PT - SVG_PB)) t)"

section \<open>Elements\<close>

type_synonym attrs = "(chars \<times> chars) list"

datatype element = Shape chars attrs | Text attrs chars

fun draw_attrs :: "attrs \<Rightarrow> chars" where
  "draw_attrs [] = []"
| "draw_attrs ((n, v) # as) = 0x20 # n @ [0x3D, 0x27] @ v @ 0x27 # draw_attrs as"

fun draw :: "element \<Rightarrow> chars" where
  "draw (Shape n as) = 0x3C # n @ draw_attrs as @ [0x2F, 0x3E]"
| "draw (Text as inner) = 0x3C # chars_of ''text'' @ draw_attrs as @ 0x3E # inner @ chars_of ''</text>''"

abbreviation attr :: "string \<Rightarrow> chars \<Rightarrow> chars \<times> chars" where
  "attr n v \<equiv> (chars_of n, v)"

abbreviation lit :: "string \<Rightarrow> string \<Rightarrow> chars \<times> chars" where
  "lit n v \<equiv> (chars_of n, chars_of v)"

definition line_el :: "chars \<Rightarrow> chars \<Rightarrow> chars \<Rightarrow> chars \<Rightarrow> string \<Rightarrow> string \<Rightarrow> element" where
  "line_el x1 y1 x2 y2 color width =
     Shape (chars_of ''line'') [attr ''x1'' x1, attr ''y1'' y1, attr ''x2'' x2, attr ''y2'' y2, lit ''stroke'' color, lit ''stroke-width'' width]"

section \<open>The drawing\<close>

definition svg_open :: chars where
  "svg_open = chars_of ''<svg'' @
     draw_attrs [lit ''xmlns'' ''http://www.w3.org/2000/svg'', attr ''width'' (num SVG_W), attr ''height'' (num SVG_H),
       lit ''style'' ''font-family:monospace;background:#1e1e2e''] @ [0x3E]"

definition svg_title :: element where
  "svg_title = Text [attr ''x'' (num (SVG_W div 2)), lit ''y'' ''26'', lit ''fill'' ''#cdd6f4'', lit ''font-size'' ''14'',
     lit ''text-anchor'' ''middle'', lit ''font-weight'' ''bold'']
     (chars_of ''Cadence '' @ [0x2014] @ chars_of '' Latency Histogram (log scale, CO-corrected)'')"

definition y_labels :: "(u64 \<times> chars) list" where
  "y_labels = [(100, chars_of ''100ns''), (1000, chars_of ''1'' @ [0xB5] @ chars_of ''s''), (10000, chars_of ''10'' @ [0xB5] @ chars_of ''s''),
     (100000, chars_of ''100'' @ [0xB5] @ chars_of ''s''), (1000000, chars_of ''1ms''), (10000000, chars_of ''10ms'')]"

definition y_grid :: "log10 \<Rightarrow> (rat \<Rightarrow> rat) \<Rightarrow> u64 \<Rightarrow> element list" where
  "y_grid lg rnd gmax =
     concat (map (\<lambda>(i, ns, lbl).
       if ns > gmax * 3 then []
       else let y = show1 (lat_y (calls_of lg i) rnd ns gmax) in
         [line_el (num SVG_PL) y (num (SVG_W - SVG_PR)) y ''#45475a'' ''1'',
          Text [attr ''x'' (num (SVG_PL - 5)), attr ''y'' y, lit ''fill'' ''#a6adc8'', lit ''font-size'' ''10'',
            lit ''text-anchor'' ''end'', lit ''dominant-baseline'' ''middle''] lbl]) (enumerate 0 y_labels))"

definition x_labels :: "(rat \<times> chars) list" where
  "x_labels = [(0, chars_of ''p0''), (1 / 2, chars_of ''p50''), (9 / 10, chars_of ''p90''), (95 / 100, chars_of ''p95''),
     (99 / 100, chars_of ''p99''), (999 / 1000, chars_of ''p99.9''), (9999 / 10000, chars_of ''p99.99'')]"

definition x_grid :: "log10 \<Rightarrow> (rat \<Rightarrow> rat) \<Rightarrow> element list" where
  "x_grid lg rnd =
     concat (map (\<lambda>(i, p, lbl).
       let x = show1 (pct_x (calls_of lg i) rnd (rnd p)) in
         [line_el x (num SVG_PT) x (num (SVG_H - SVG_PB)) ''#45475a'' ''1'',
          Text [attr ''x'' x, attr ''y'' (num (SVG_H - SVG_PB + 13)), lit ''fill'' ''#a6adc8'', lit ''font-size'' ''10'',
            lit ''text-anchor'' ''middle''] lbl]) (enumerate 0 x_labels))"

definition svg_axes :: "element list" where
  "svg_axes =
     [line_el (num SVG_PL) (num SVG_PT) (num SVG_PL) (num (SVG_H - SVG_PB)) ''#cdd6f4'' ''1.5'',
      line_el (num SVG_PL) (num (SVG_H - SVG_PB)) (num (SVG_W - SVG_PR)) (num (SVG_H - SVG_PB)) ''#cdd6f4'' ''1.5'']"

text \<open>The label of the legend is cut at byte 22 of its UTF-8 form, which has to be a boundary.\<close>

definition utf8_len :: "nat \<Rightarrow> nat" where
  "utf8_len c = (if c < 0x80 then 1 else if c < 0x800 then 2 else if c < 0x10000 then 3 else 4)"

definition byte_len :: "chars \<Rightarrow> nat" where
  "byte_len s = sum_list (map utf8_len s)"

fun cut_bytes :: "nat \<Rightarrow> chars \<Rightarrow> panic + chars" where
  "cut_bytes n [] = (if n = 0 then Inr [] else Inl SliceIndex)"
| "cut_bytes n (c # cs) =
     (if n = 0 then Inr []
      else if utf8_len c \<le> n then and_then (cut_bytes (n - utf8_len c) cs) (\<lambda>s. Inr (c # s))
      else Inl SliceIndex)"

definition legend_label :: "chars \<Rightarrow> panic + chars" where
  "legend_label s = (if 22 < byte_len s then cut_bytes 22 s else Inr s)"

definition series_points :: "log10 \<Rightarrow> (rat \<Rightarrow> rat) \<Rightarrow> u64 \<Rightarrow> pct \<Rightarrow> (coord \<times> coord) list" where
  "series_points lg rnd gmax p =
     map (\<lambda>(i, q, ns). (pct_x (calls_of (calls_of lg i) 0) rnd (rnd q), lat_y (calls_of (calls_of lg i) 1) rnd ns gmax))
       (enumerate 0 [(0, min_ns p), (1 / 2, p50_ns p), (95 / 100, p95_ns p), (99 / 100, p99_ns p), (999 / 1000, p99_9_ns p),
        (9999 / 10000, max_ns p)])"

fun spaced :: "chars list \<Rightarrow> chars" where
  "spaced [] = []"
| "spaced [s] = s"
| "spaced (s # t # ts) = s @ 0x20 # spaced (t # ts)"

definition series :: "log10 \<Rightarrow> (rat \<Rightarrow> rat) \<Rightarrow> u64 \<Rightarrow> nat \<Rightarrow> lat_result \<Rightarrow> panic + element list" where
  "series lg rnd gmax i r =
     (let color = SVG_COLORS ! (i mod length SVG_COLORS);
          pts = map (\<lambda>(x, y). (show1 x, show1 y)) (series_points (calls_of lg i) rnd gmax (lat_latency r));
          lx = SVG_W - SVG_PR + 12;
          ly = SVG_PT + i * 22 in
      and_then (legend_label (chars_of (lat_label r))) (\<lambda>lbl.
      Inr ([Shape (chars_of ''polyline'') [attr ''points'' (spaced (map (\<lambda>(x, y). x @ 0x2C # y) pts)), lit ''fill'' ''none'', lit ''stroke'' color,
              lit ''stroke-width'' ''2.5'', lit ''stroke-linejoin'' ''round'']] @
           map (\<lambda>(x, y). Shape (chars_of ''circle'') [attr ''cx'' x, attr ''cy'' y, lit ''r'' ''3.5'', lit ''fill'' color]) pts @
           [Shape (chars_of ''rect'') [attr ''x'' (num lx), attr ''y'' (num ly), lit ''width'' ''12'', lit ''height'' ''12'', lit ''fill'' color],
            Text [attr ''x'' (num (lx + 16)), attr ''y'' (num (ly + 10)), lit ''fill'' ''#cdd6f4'', lit ''font-size'' ''10''] lbl])))"

definition axis_labels :: "element list" where
  "axis_labels =
     [Text [attr ''x'' (num (SVG_W div 2)), attr ''y'' (num (SVG_H - 6)), lit ''fill'' ''#a6adc8'', lit ''font-size'' ''11'',
        lit ''text-anchor'' ''middle''] (chars_of ''Percentile''),
      Text [lit ''x'' ''12'', attr ''y'' (num (SVG_H div 2)), lit ''fill'' ''#a6adc8'', lit ''font-size'' ''11'', lit ''text-anchor'' ''middle'',
        attr ''transform'' (chars_of ''rotate(-90,12,'' @ num (SVG_H div 2) @ chars_of '')'')] (chars_of ''Latency (ns, log)'')]"

definition gmax_of :: "lat_result list \<Rightarrow> u64" where
  "gmax_of rs = (if rs = [] then 10000000 else Max (set (map (\<lambda>r. max_ns (lat_latency r)) rs)))"

definition svg_elements :: "log10 \<Rightarrow> (rat \<Rightarrow> rat) \<Rightarrow> lat_result list \<Rightarrow> panic + element list" where
  "svg_elements lg rnd rs =
     (let gmax = gmax_of rs in
      and_then (collect_all (map (\<lambda>(i, r). series (calls_of lg 2) rnd gmax i r) (enumerate 0 rs))) (\<lambda>ss.
      Inr (svg_title # y_grid (calls_of lg 0) rnd gmax @ x_grid (calls_of lg 1) rnd @ svg_axes @ concat ss @ axis_labels)))"

definition render_latency_svg :: "log10 \<Rightarrow> (rat \<Rightarrow> rat) \<Rightarrow> lat_result list \<Rightarrow> panic + chars" where
  "render_latency_svg lg rnd rs =
     and_then (svg_elements lg rnd rs) (\<lambda>es. Inr (svg_open @ concat (map draw es) @ chars_of ''</svg>''))"

end
