(* ===== verification/Svg_Read.thy ===== *)
theory Svg_Read
  imports Svg
begin

text \<open>
  The drawing of theory \<open>Svg\<close> as a text: reading it gives back the elements it was made of, so it
  is well formed, and where the points of a curve are.
\<close>

section \<open>Reading\<close>

text \<open>The first argument bounds the number of attributes and of elements.\<close>

fun read_attrs :: "nat \<Rightarrow> chars \<Rightarrow> attrs \<times> chars" where
  "read_attrs 0 s = ([], s)"
| "read_attrs (Suc k) s =
     (if s \<noteq> [] \<and> hd s = 0x20
      then let n = takeWhile (\<lambda>c. c \<noteq> 0x3D) (tl s);
               r = drop 2 (dropWhile (\<lambda>c. c \<noteq> 0x3D) (tl s));
               v = takeWhile (\<lambda>c. c \<noteq> 0x27) r;
               (as, rest) = read_attrs k (drop 1 (dropWhile (\<lambda>c. c \<noteq> 0x27) r)) in
           ((n, v) # as, rest)
      else ([], s))"

definition read_element :: "nat \<Rightarrow> chars \<Rightarrow> (element \<times> chars) option" where
  "read_element k s =
     (let n = takeWhile (\<lambda>c. c \<noteq> 0x20 \<and> c \<noteq> 0x2F \<and> c \<noteq> 0x3E) (tl s);
          (as, rest) = read_attrs k (dropWhile (\<lambda>c. c \<noteq> 0x20 \<and> c \<noteq> 0x2F \<and> c \<noteq> 0x3E) (tl s)) in
      if s = [] \<or> hd s \<noteq> 0x3C \<or> n = [] then None
      else if prefix [0x2F, 0x3E] rest then Some (Shape n as, drop 2 rest)
      else if prefix [0x3E] rest \<and> n = chars_of ''text'' \<and> prefix (chars_of ''</text>'') (dropWhile (\<lambda>c. c \<noteq> 0x3C) rest)
      then Some (Text as (takeWhile (\<lambda>c. c \<noteq> 0x3C) (tl rest)), drop 7 (dropWhile (\<lambda>c. c \<noteq> 0x3C) rest))
      else None)"

fun read_elements :: "nat \<Rightarrow> chars \<Rightarrow> element list option" where
  "read_elements 0 s = None"
| "read_elements (Suc k) s =
     (if s = chars_of ''</svg>'' then Some []
      else (case read_element (length s) s of
              None \<Rightarrow> None
            | Some (e, rest) \<Rightarrow> map_option (Cons e) (read_elements k rest)))"

definition read_svg :: "chars \<Rightarrow> element list option" where
  "read_svg s = (if prefix svg_open s then read_elements (length s) (drop (length svg_open) s) else None)"

section \<open>Reading what was drawn\<close>

definition attrs_ok :: "attrs \<Rightarrow> bool" where
  "attrs_ok as \<longleftrightarrow> list_all (\<lambda>(n, v). 0x3D \<notin> set n \<and> 0x27 \<notin> set v) as"

fun el_ok :: "element \<Rightarrow> bool" where
  "el_ok (Shape n as) \<longleftrightarrow> n \<noteq> [] \<and> set n \<inter> {0x20, 0x2F, 0x3E} = {} \<and> attrs_ok as"
| "el_ok (Text as inner) \<longleftrightarrow> 0x3C \<notin> set inner \<and> attrs_ok as"

lemma span_at: "\<forall>c\<in>set xs. P c \<Longrightarrow> \<not> P y \<Longrightarrow> takeWhile P (xs @ y # ys) = xs \<and> dropWhile P (xs @ y # ys) = y # ys"
  by (induction xs) simp_all

lemma read_draw_attrs:
  "attrs_ok as \<Longrightarrow> length as \<le> k \<Longrightarrow> s = [] \<or> hd s \<noteq> 0x20 \<Longrightarrow> read_attrs k (draw_attrs as @ s) = (as, s)"
proof (induction as arbitrary: k)
  case Nil
  then show ?case by (cases k) auto
next
  case (Cons a as)
  obtain n v where a: "a = (n, v)" by fastforce
  obtain j where k: "k = Suc j" "length as \<le> j" using Cons.prems(2) by (cases k) auto
  have ok: "0x3D \<notin> set n" "0x27 \<notin> set v" "attrs_ok as" using Cons.prems(1) by (auto simp: a attrs_ok_def)
  let ?r = "0x27 # v @ 0x27 # draw_attrs as @ s"
  have "takeWhile (\<lambda>c. c \<noteq> 0x3D) (n @ 0x3D # ?r) = n \<and> dropWhile (\<lambda>c. c \<noteq> 0x3D) (n @ 0x3D # ?r) = 0x3D # ?r"
    using ok(1) by (intro span_at) auto
  moreover have "takeWhile (\<lambda>c. c \<noteq> 0x27) (v @ 0x27 # draw_attrs as @ s) = v \<and>
      dropWhile (\<lambda>c. c \<noteq> 0x27) (v @ 0x27 # draw_attrs as @ s) = 0x27 # draw_attrs as @ s"
    using ok(2) by (intro span_at) auto
  ultimately show ?case using Cons.IH [OF ok(3) k(2) Cons.prems(3)] by (simp add: a k(1) numeral_2_eq_2)
qed

lemma length_draw_attrs: "length as \<le> length (draw_attrs as)"
  by (induction as rule: draw_attrs.induct) auto

lemma draw_attrs_stop: "\<exists>c t. draw_attrs as @ x # s = c # t \<and> (c = 0x20 \<or> c = x)"
  by (cases as) auto

lemma read_draw:
  assumes "el_ok e" and "length (draw e) \<le> k"
  shows "read_element k (draw e @ s) = Some (e, s)"
proof (cases e)
  case (Shape n as)
  let ?rest = "draw_attrs as @ 0x2F # 0x3E # s"
  obtain c t where c: "?rest = c # t" "c = 0x20 \<or> c = 0x2F" using draw_attrs_stop by blast
  have "takeWhile (\<lambda>c. c \<noteq> 0x20 \<and> c \<noteq> 0x2F \<and> c \<noteq> 0x3E) (n @ c # t) = n \<and>
      dropWhile (\<lambda>c. c \<noteq> 0x20 \<and> c \<noteq> 0x2F \<and> c \<noteq> 0x3E) (n @ c # t) = c # t"
    using assms(1) c(2) Shape by (intro span_at) auto
  moreover have "read_attrs k ?rest = (as, 0x2F # 0x3E # s)"
    using assms length_draw_attrs [of as] Shape by (intro read_draw_attrs) auto
  ultimately show ?thesis
    using assms(1) Shape c(1) by (simp add: read_element_def)
next
  case (Text as inner)
  let ?rest = "draw_attrs as @ 0x3E # inner @ chars_of ''</text>'' @ s"
  obtain c t where c: "?rest = c # t" "c = 0x20 \<or> c = 0x3E" using draw_attrs_stop by blast
  have "takeWhile (\<lambda>c. c \<noteq> 0x20 \<and> c \<noteq> 0x2F \<and> c \<noteq> 0x3E) (chars_of ''text'' @ c # t) = chars_of ''text'' \<and>
      dropWhile (\<lambda>c. c \<noteq> 0x20 \<and> c \<noteq> 0x2F \<and> c \<noteq> 0x3E) (chars_of ''text'' @ c # t) = c # t"
    using c(2) by (intro span_at) (auto simp: chars_of_def)
  moreover have "read_attrs k ?rest = (as, 0x3E # inner @ chars_of ''</text>'' @ s)"
    using assms length_draw_attrs [of as] Text by (intro read_draw_attrs) auto
  moreover have "takeWhile (\<lambda>c. c \<noteq> 0x3C) (inner @ 0x3C # u) = inner \<and> dropWhile (\<lambda>c. c \<noteq> 0x3C) (inner @ 0x3C # u) = 0x3C # u" for u
    using assms(1) Text by (intro span_at) auto
  ultimately show ?thesis
    using c(1) by (simp add: Text read_element_def chars_of_def numeral_eq_Suc)
qed

lemma read_drawn:
  assumes "list_all el_ok es" and "length es < k"
  shows "read_elements k (concat (map draw es) @ chars_of ''</svg>'') = Some es"
  using assms
proof (induction es arbitrary: k)
  case Nil
  then show ?case by (cases k) auto
next
  case (Cons e es)
  obtain j where k: "k = Suc j" using Cons.prems(2) by (cases k) auto
  let ?t = "concat (map draw es) @ chars_of ''</svg>''"
  have "draw e @ ?t \<noteq> chars_of ''</svg>''"
    using Cons.prems(1) by (cases e) (auto simp: chars_of_def neq_Nil_conv)
  moreover have "read_element (length (draw e @ ?t)) (draw e @ ?t) = Some (e, ?t)"
    using Cons.prems(1) by (intro read_draw) auto
  ultimately show ?case using Cons k by simp
qed

section \<open>All elements can be read\<close>

lemma set_decimal: "c \<in> set (decimal n) \<Longrightarrow> is_digit c"
  using decimal_props [of n] by (simp add: list_all_iff)

lemma set_fixed: "c \<in> set (fixed n x) \<Longrightarrow> is_digit c \<or> c = 0x2D \<or> c = 0x2E"
  using frac_digits_props set_decimal
  by (fastforce simp: fixed_def show_scaled_def list_all_iff split: if_splits)

lemma no_quote [simp]: "0x27 \<notin> set (decimal n)" "0x27 \<notin> set (show1 c)"
proof -
  show "0x27 \<notin> set (decimal n)" using set_decimal [of "0x27" n] by (auto simp: is_digit_def)
  show "0x27 \<notin> set (show1 c)" using set_fixed by (cases c) (fastforce simp: is_digit_def chars_of_def)+
qed

lemma no_quote_spaced: "\<forall>s\<in>set ss. c \<notin> set s \<Longrightarrow> c \<noteq> 0x20 \<Longrightarrow> c \<notin> set (spaced ss)"
  by (induction ss rule: spaced.induct) auto

lemma line_el_ok: "0x27 \<notin> set x1 \<Longrightarrow> 0x27 \<notin> set y1 \<Longrightarrow> 0x27 \<notin> set x2 \<Longrightarrow> 0x27 \<notin> set y2 \<Longrightarrow>
    0x27 \<notin> set (chars_of col) \<Longrightarrow> 0x27 \<notin> set (chars_of w) \<Longrightarrow> el_ok (line_el x1 y1 x2 y2 col w)"
  by (simp add: line_el_def attrs_ok_def chars_of_def)

lemma title_ok: "el_ok svg_title"
  by (simp add: svg_title_def attrs_ok_def chars_of_def)

lemma enumerate_item: "(i, x) \<in> set (enumerate n xs) \<Longrightarrow> x \<in> set xs"
  unfolding enumerate_eq_zip by (rule set_zip_rightD)

lemma grid_ok: "list_all el_ok (y_grid lg rnd gmax)" "list_all el_ok (x_grid lg rnd)"
proof -
  have "el_ok (Text [attr ''x'' (num n), attr ''y'' (show1 c), lit ''fill'' ''#a6adc8'', lit ''font-size'' ''10'',
      lit ''text-anchor'' ''end'', lit ''dominant-baseline'' ''middle''] lbl)" if "0x3C \<notin> set lbl" for n c lbl
    using that by (simp add: attrs_ok_def chars_of_def)
  moreover have "0x3C \<notin> set lbl" if "(i, ns, lbl) \<in> set (enumerate 0 y_labels)" for i ns lbl
    using enumerate_item [OF that] by (auto simp: y_labels_def chars_of_def)
  ultimately show "list_all el_ok (y_grid lg rnd gmax)"
    by (auto simp: y_grid_def list_all_iff Let_def chars_of_def attrs_ok_def intro!: line_el_ok)
  have "el_ok (Text [attr ''x'' (show1 c), attr ''y'' (num n), lit ''fill'' ''#a6adc8'', lit ''font-size'' ''10'',
      lit ''text-anchor'' ''middle''] lbl)" if "0x3C \<notin> set lbl" for n c lbl
    using that by (simp add: attrs_ok_def chars_of_def)
  moreover have "0x3C \<notin> set lbl" if "(i, p, lbl) \<in> set (enumerate 0 x_labels)" for i p lbl
    using enumerate_item [OF that] by (auto simp: x_labels_def chars_of_def)
  ultimately show "list_all el_ok (x_grid lg rnd)"
    by (auto simp: x_grid_def list_all_iff Let_def chars_of_def attrs_ok_def intro!: line_el_ok)
qed

lemma axes_ok: "list_all el_ok svg_axes" "list_all el_ok axis_labels"
  by (auto simp: svg_axes_def axis_labels_def attrs_ok_def chars_of_def intro!: line_el_ok)

lemma cut_bytes_prefix: "cut_bytes n s = Inr t \<Longrightarrow> prefix t s \<and> byte_len t = n"
proof (induction n s arbitrary: t rule: cut_bytes.induct)
  case (2 n c cs)
  show ?case
  proof (cases "n = 0")
    case False
    with 2(2) obtain u where u: "utf8_len c \<le> n" "cut_bytes (n - utf8_len c) cs = Inr u" "t = c # u"
      by (auto simp: and_then_Inr_iff split: if_splits)
    from 2(1) [OF False u(1,2)] u show ?thesis by (simp add: byte_len_def)
  qed (use 2(2) in \<open>simp add: byte_len_def\<close>)
qed (simp add: byte_len_def split: if_splits)

lemma legend_prefix: "legend_label s = Inr t \<Longrightarrow> prefix t s"
  using cut_bytes_prefix by (auto simp: legend_label_def split: if_splits)

lemma series_ok:
  assumes "series lg rnd gmax i r = Inr es" and "0x3C \<notin> set (chars_of (lat_label r))"
  shows "list_all el_ok es"
proof -
  let ?color = "SVG_COLORS ! (i mod length SVG_COLORS)"
  have "i mod 3 < 3" by simp
  then have "i mod 3 = 0 \<or> i mod 3 = 1 \<or> i mod 3 = 2" by linarith
  then have color: "0x27 \<notin> set (chars_of ?color)" by (auto simp: SVG_COLORS_def chars_of_def)
  obtain lbl where lbl: "legend_label (chars_of (lat_label r)) = Inr lbl"
    using assms(1) by (auto simp: series_def Let_def and_then_Inr_iff)
  then have "0x3C \<notin> set lbl" using legend_prefix assms(2) set_mono_prefix by blast
  moreover have "0x27 \<notin> set (spaced (map (\<lambda>(x, y). x @ 0x2C # y) (map (\<lambda>(x, y). (show1 x, show1 y)) ps)))" for ps
    by (rule no_quote_spaced) auto
  moreover have "el_ok (Shape (chars_of ''circle'') [attr ''cx'' (show1 x), attr ''cy'' (show1 y), lit ''r'' ''3.5'', lit ''fill'' ?color])" for x y
    using color by (simp add: attrs_ok_def chars_of_def)
  ultimately show ?thesis
    using assms(1) color unfolding series_def Let_def lbl
    by (auto simp: list_all_iff attrs_ok_def chars_of_def)
qed

lemma collect_all_Inr_iff:
  "collect_all rs = Inr xs \<longleftrightarrow> list_all2 (\<lambda>r x. r = Inr x) rs xs"
proof (induction rs arbitrary: xs)
  case (Cons r rs)
  then show ?case by (cases xs) (auto simp: and_then_Inr_iff)
qed auto

lemma svg_elements_Inr:
  assumes "svg_elements lg rnd rs = Inr es"
  obtains ss where "list_all2 (\<lambda>p x. series (calls_of lg 2) rnd (gmax_of rs) (fst p) (snd p) = Inr x) (enumerate 0 rs) ss"
    "es = svg_title # y_grid (calls_of lg 0) rnd (gmax_of rs) @ x_grid (calls_of lg 1) rnd @ svg_axes @ concat ss @ axis_labels"
proof -
  from assms obtain ss where ss: "collect_all (map (\<lambda>(i, r). series (calls_of lg 2) rnd (gmax_of rs) i r) (enumerate 0 rs)) = Inr ss"
    "es = svg_title # y_grid (calls_of lg 0) rnd (gmax_of rs) @ x_grid (calls_of lg 1) rnd @ svg_axes @ concat ss @ axis_labels"
    by (auto simp: svg_elements_def Let_def and_then_Inr_iff)
  from ss(1) have "list_all2 (\<lambda>p x. series (calls_of lg 2) rnd (gmax_of rs) (fst p) (snd p) = Inr x) (enumerate 0 rs) ss"
    by (simp add: collect_all_Inr_iff list_all2_map1 case_prod_beta)
  then show ?thesis using that ss(2) by blast
qed

lemma svg_elements_ok:
  assumes "svg_elements lg rnd rs = Inr es" and "\<forall>r\<in>set rs. 0x3C \<notin> set (chars_of (lat_label r))"
  shows "list_all el_ok es"
proof -
  from assms(1) obtain ss where ss: "list_all2 (\<lambda>p x. series (calls_of lg 2) rnd (gmax_of rs) (fst p) (snd p) = Inr x) (enumerate 0 rs) ss"
    "es = svg_title # y_grid (calls_of lg 0) rnd (gmax_of rs) @ x_grid (calls_of lg 1) rnd @ svg_axes @ concat ss @ axis_labels"
    by (rule svg_elements_Inr)
  have "list_all el_ok x" if x: "x \<in> set ss" for x
  proof -
    obtain k where k: "k < length ss" "x = ss ! k" using x by (metis in_set_conv_nth)
    then have "k < length rs" "series (calls_of lg 2) rnd (gmax_of rs) k (rs ! k) = Inr x"
      using ss(1) by (auto simp: list_all2_conv_all_nth nth_enumerate_eq split: prod.splits)
    then show ?thesis using series_ok assms(2) by (metis nth_mem)
  qed
  then have "list_all el_ok (concat ss)" by (auto simp: list_all_iff)
  then show ?thesis using title_ok grid_ok axes_ok by (simp add: ss(2))
qed

fun el_name :: "element \<Rightarrow> chars" where
  "el_name (Shape n as) = n"
| "el_name (Text as inner) = chars_of ''text''"

lemma series_names:
  assumes "series lg rnd gmax i r = Inr es"
  shows "map el_name es = chars_of ''polyline'' # replicate 6 (chars_of ''circle'') @ [chars_of ''rect'', chars_of ''text'']"
proof -
  have pts: "map el_name (map (\<lambda>(x, y). Shape (chars_of ''circle'') [attr ''cx'' x, attr ''cy'' y, lit ''r'' ''3.5'', lit ''fill'' c])
      (map (\<lambda>(x, y). (show1 x, show1 y)) (series_points l rnd gmax p))) = replicate 6 (chars_of ''circle'')" for l c p
    by (simp add: series_points_def numeral_eq_Suc)
  note pts = pts [unfolded map_map]
  obtain lbl where lbl: "legend_label (chars_of (lat_label r)) = Inr lbl"
    using assms by (auto simp: series_def Let_def and_then_Inr_iff)
  show ?thesis using assms unfolding series_def Let_def lbl by (auto simp: pts)
qed

lemma other_names:
  "chars_of ''polyline'' \<notin> el_name ` set (svg_title # y_grid lg rnd gmax @ x_grid lg' rnd @ svg_axes @ axis_labels)"
  by (auto simp: svg_title_def y_grid_def x_grid_def svg_axes_def axis_labels_def line_el_def chars_of_def Let_def split: if_splits)

abbreviation curves :: "element list \<Rightarrow> element list" where
  "curves \<equiv> filter (\<lambda>e. el_name e = chars_of ''polyline'')"

lemma series_curves: "series lg rnd gmax i r = Inr es \<Longrightarrow> length (curves es) = 1"
proof -
  assume "series lg rnd gmax i r = Inr es"
  then have "length (filter (\<lambda>n. n = chars_of ''polyline'') (map el_name es)) = 1"
    by (simp add: series_names chars_of_def)
  then show ?thesis by (simp add: filter_map comp_def)
qed

lemma svg_curves:
  assumes "svg_elements lg rnd rs = Inr es"
  shows "length (curves es) = length rs"
proof -
  from assms obtain ss where ss: "list_all2 (\<lambda>p x. series (calls_of lg 2) rnd (gmax_of rs) (fst p) (snd p) = Inr x) (enumerate 0 rs) ss"
    "es = svg_title # y_grid (calls_of lg 0) rnd (gmax_of rs) @ x_grid (calls_of lg 1) rnd @ svg_axes @ concat ss @ axis_labels"
    by (rule svg_elements_Inr)
  have none: "curves (svg_title # y_grid (calls_of lg 0) rnd (gmax_of rs) @ x_grid (calls_of lg 1) rnd @ svg_axes @ axis_labels) = []"
    unfolding filter_empty_conv using other_names [of "calls_of lg 0" rnd "gmax_of rs" "calls_of lg 1"] by (metis imageI)
  have "\<forall>x\<in>set ss. length (curves x) = 1"
    using ss(1) series_curves by (fastforce simp: list_all2_conv_all_nth in_set_conv_nth split: prod.splits)
  then have "length (curves (concat ss)) = length ss" by (induction ss) simp_all
  moreover have "length ss = length rs" using list_all2_lengthD [OF ss(1)] by simp
  ultimately show ?thesis using none by (simp add: ss(2) split: if_splits)
qed

section \<open>When the legend can be drawn\<close>

lemma utf8_len_pos: "0 < utf8_len c"
  by (simp add: utf8_len_def)

lemma cut_bytes_Inr_iff: "(\<exists>t. cut_bytes n s = Inr t) \<longleftrightarrow> (\<exists>k. byte_len (take k s) = n)"
proof (induction n s rule: cut_bytes.induct)
  case (1 n)
  then show ?case by (simp add: byte_len_def)
next
  case (2 n c cs)
  show ?case
  proof (cases "n = 0")
    case True
    then show ?thesis by (auto intro: exI [of _ 0] simp: byte_len_def)
  next
    case False
    have "(\<exists>k. byte_len (take k (c # cs)) = n) \<longleftrightarrow> (\<exists>k. utf8_len c + byte_len (take k cs) = n)"
    proof
      assume "\<exists>k. byte_len (take k (c # cs)) = n"
      then obtain k where "byte_len (take k (c # cs)) = n" ..
      then show "\<exists>k. utf8_len c + byte_len (take k cs) = n" using False by (cases k) (auto simp: byte_len_def)
    next
      assume "\<exists>k. utf8_len c + byte_len (take k cs) = n"
      then obtain k where "utf8_len c + byte_len (take k cs) = n" ..
      then show "\<exists>k. byte_len (take k (c # cs)) = n" by (intro exI [of _ "Suc k"]) (simp add: byte_len_def)
    qed
    moreover have "(\<exists>k. utf8_len c + byte_len (take k cs) = n) \<longleftrightarrow>
        utf8_len c \<le> n \<and> (\<exists>k. byte_len (take k cs) = n - utf8_len c)"
      by (metis diff_add_inverse le_add1 le_add_diff_inverse)
    ultimately show ?thesis using False 2 by (auto simp: and_then_Inr_iff)
  qed
qed

text \<open>A label fits, or it can be cut between two characters after 22 bytes.\<close>

definition label_fits :: "chars \<Rightarrow> bool" where
  "label_fits s \<longleftrightarrow> byte_len s \<le> 22 \<or> (\<exists>k. byte_len (take k s) = 22)"

lemma series_Inr_iff: "(\<exists>es. series lg rnd gmax i r = Inr es) \<longleftrightarrow> label_fits (chars_of (lat_label r))"
  using cut_bytes_Inr_iff [of 22 "chars_of (lat_label r)"]
  by (auto simp: series_def Let_def and_then_Inr_iff legend_label_def label_fits_def not_less)

lemma svg_elements_Inr_iff:
  "(\<exists>es. svg_elements lg rnd rs = Inr es) \<longleftrightarrow> (\<forall>r\<in>set rs. label_fits (chars_of (lat_label r)))"
proof -
  have "(\<exists>es. svg_elements lg rnd rs = Inr es) \<longleftrightarrow>
      (\<exists>ss. list_all2 (\<lambda>p x. series (calls_of lg 2) rnd (gmax_of rs) (fst p) (snd p) = Inr x) (enumerate 0 rs) ss)"
    by (simp add: svg_elements_def Let_def and_then_Inr_iff collect_all_Inr_iff list_all2_map1 case_prod_beta)
  also have "\<dots> \<longleftrightarrow> (\<forall>k<length rs. \<exists>x. series (calls_of lg 2) rnd (gmax_of rs) k (rs ! k) = Inr x)"
  proof
    assume "\<exists>ss. list_all2 (\<lambda>p x. series (calls_of lg 2) rnd (gmax_of rs) (fst p) (snd p) = Inr x) (enumerate 0 rs) ss"
    then show "\<forall>k<length rs. \<exists>x. series (calls_of lg 2) rnd (gmax_of rs) k (rs ! k) = Inr x"
      by (auto simp: list_all2_conv_all_nth nth_enumerate_eq)
  next
    assume "\<forall>k<length rs. \<exists>x. series (calls_of lg 2) rnd (gmax_of rs) k (rs ! k) = Inr x"
    then have "\<forall>k<length rs. series (calls_of lg 2) rnd (gmax_of rs) k (rs ! k) = Inr (projr (series (calls_of lg 2) rnd (gmax_of rs) k (rs ! k)))"
      by (metis sum.sel(2))
    then show "\<exists>ss. list_all2 (\<lambda>p x. series (calls_of lg 2) rnd (gmax_of rs) (fst p) (snd p) = Inr x) (enumerate 0 rs) ss"
      by (intro exI [of _ "map (\<lambda>k. projr (series (calls_of lg 2) rnd (gmax_of rs) k (rs ! k))) [0..<length rs]"])
        (simp add: list_all2_conv_all_nth nth_enumerate_eq)
  qed
  also have "\<dots> \<longleftrightarrow> (\<forall>r\<in>set rs. label_fits (chars_of (lat_label r)))"
    by (simp add: series_Inr_iff all_set_conv_all_nth)
  finally show ?thesis .
qed

section \<open>The whole drawing\<close>

lemma svg_read_back:
  assumes "render_latency_svg lg rnd rs = Inr s" and "\<forall>r\<in>set rs. 0x3C \<notin> set (chars_of (lat_label r))"
  shows "\<exists>es. svg_elements lg rnd rs = Inr es \<and> read_svg s = Some es \<and> length (curves es) = length rs"
proof -
  from assms(1) obtain es where es: "svg_elements lg rnd rs = Inr es" "s = svg_open @ concat (map draw es) @ chars_of ''</svg>''"
    by (auto simp: render_latency_svg_def and_then_Inr_iff)
  have "length es \<le> length (concat (map draw es))"
  proof (induction es)
    case (Cons e es)
    then show ?case by (cases e) simp_all
  qed simp
  then have "length es < length s" by (simp add: es(2) chars_of_def)
  then have "read_svg s = Some es"
    using read_drawn [OF svg_elements_ok [OF es(1) assms(2)], of "length s"] by (simp add: read_svg_def es(2))
  then show ?thesis using es(1) svg_curves by blast
qed

lemma render_Inr_iff:
  "(\<exists>s. render_latency_svg lg rnd rs = Inr s) \<longleftrightarrow> (\<forall>r\<in>set rs. label_fits (chars_of (lat_label r)))"
  using svg_elements_Inr_iff [of lg rnd rs] by (auto simp: render_latency_svg_def and_then_Inr_iff)

text \<open>The test of the drawing.\<close>

definition svg_dummy :: lat_result where
  "svg_dummy = \<lparr>lat_label = ''test'', lat_rate_hz = 1, lat_msg_count = 1, lat_drop_count = 0, lat_pinned = False,
     lat_latency = \<lparr>min_ns = 100, mean_ns = Fin 500, p50_ns = 300, p95_ns = 800, p99_ns = 1000, p99_9_ns = 2000,
       max_ns = 5000\<rparr>, hdr_base64 = []\<rparr>"

definition svg_contains_key_elements :: "log10 \<Rightarrow> (rat \<Rightarrow> rat) \<Rightarrow> bool" where
  "svg_contains_key_elements lg rnd =
     (case render_latency_svg lg rnd [svg_dummy] of
        Inl e \<Rightarrow> False
      | Inr svg \<Rightarrow> text_contains svg (chars_of ''<svg'') \<and> text_contains svg (chars_of ''polyline'') \<and>
          text_contains svg (chars_of ''p99''))"

lemma text_contains_iff: "text_contains s pat \<longleftrightarrow> (\<exists>a b. s = a @ pat @ b)"
proof
  assume "text_contains s pat"
  then obtain u where "suffix u s" "prefix pat u" by (auto simp: text_contains_def list_ex_iff)
  then show "\<exists>a b. s = a @ pat @ b" by (metis suffix_def prefix_def)
next
  assume "\<exists>a b. s = a @ pat @ b"
  then obtain a b where "s = a @ pat @ b" by blast
  then have "pat @ b \<in> set (suffixes s)" "prefix pat (pat @ b)" by (auto simp: suffix_def)
  then show "text_contains s pat" unfolding text_contains_def list_ex_iff by blast
qed

lemma contains_drawn: "e \<in> set es \<Longrightarrow> text_contains (draw e) pat \<Longrightarrow> text_contains (pre @ concat (map draw es) @ post) pat"
proof -
  assume "e \<in> set es" "text_contains (draw e) pat"
  then obtain us vs a b where "es = us @ e # vs" "draw e = a @ pat @ b"
    by (metis split_list text_contains_iff)
  then have "pre @ concat (map draw es) @ post = (pre @ concat (map draw us) @ a) @ pat @ (b @ concat (map draw vs) @ post)"
    by simp
  then show ?thesis unfolding text_contains_iff by blast
qed

lemma svg_test_passes: "svg_contains_key_elements lg rnd"
proof -
  have "label_fits (chars_of (lat_label svg_dummy))"
    by (simp add: svg_dummy_def label_fits_def byte_len_def utf8_len_def chars_of_def)
  then obtain s where s: "render_latency_svg lg rnd [svg_dummy] = Inr s"
    using render_Inr_iff [of lg rnd "[svg_dummy]"] by auto
  then obtain es where es: "svg_elements lg rnd [svg_dummy] = Inr es" "s = svg_open @ concat (map draw es) @ chars_of ''</svg>''"
    by (auto simp: render_latency_svg_def and_then_Inr_iff)
  have "text_contains s (chars_of ''<svg'')"
    unfolding text_contains_iff es(2) svg_open_def by (metis append_Nil append_assoc)
  moreover have "text_contains s (chars_of ''polyline'')"
  proof -
    have "curves es \<noteq> []" using svg_curves [OF es(1)] by auto
    then obtain e where e: "e \<in> set es" "el_name e = chars_of ''polyline''" by (auto simp: filter_empty_conv)
    have "text_contains (draw e) (chars_of ''polyline'')"
    proof (cases e)
      case (Shape n as)
      with e(2) have "draw e = [0x3C] @ chars_of ''polyline'' @ (draw_attrs as @ [0x2F, 0x3E])" by simp
      then show ?thesis unfolding text_contains_iff by blast
    next
      case (Text as inner)
      with e(2) show ?thesis by (simp add: chars_of_def)
    qed
    with e(1) show ?thesis unfolding es(2) by (rule contains_drawn)
  qed
  moreover have "text_contains s (chars_of ''p99'')"
  proof -
    obtain ss where "es = svg_title # y_grid (calls_of lg 0) rnd (gmax_of [svg_dummy]) @ x_grid (calls_of lg 1) rnd @ svg_axes @ concat ss @ axis_labels"
      using es(1) by (rule svg_elements_Inr)
    moreover obtain as where e: "Text as (chars_of ''p99'') \<in> set (x_grid (calls_of lg 1) rnd)"
      unfolding x_grid_def x_labels_def Let_def by fastforce
    ultimately have "Text as (chars_of ''p99'') \<in> set es" by simp
    moreover have "text_contains (draw (Text as (chars_of ''p99''))) (chars_of ''p99'')"
      unfolding text_contains_iff
      by (rule exI [of _ "0x3C # chars_of ''text'' @ draw_attrs as @ [0x3E]"], rule exI [of _ "chars_of ''</text>''"]) simp
    ultimately show ?thesis unfolding es(2) by (rule contains_drawn)
  qed
  ultimately show ?thesis by (simp add: svg_contains_key_elements_def s)
qed

section \<open>Properties of the text\<close>

text \<open>
  C30: The benchmark draws what it reports: whatever its trials have recorded, the labels of its rows
  can be cut, so the drawing does not panic, and reading its text gives back the elements it was
  made of, each with its attributes, among them one curve for each of the three rows.
\<close>

theorem bench_drawing_reads_back:
  "\<exists>lat thr s es. bench_main rnd64 ops h_of bus_end spsc_end bus_ns spsc_ns = Inr (lat, thr) \<and>
     render_latency_svg lg rnd lat = Inr s \<and> svg_elements lg rnd lat = Inr es \<and> read_svg s = Some es \<and>
     length (filter (\<lambda>e. el_name e = chars_of ''polyline'') es) = 3"
proof -
  obtain lat thr where main: "bench_main rnd64 ops h_of bus_end spsc_end bus_ns spsc_ns = Inr (lat, thr)"
    and rows: "map (\<lambda>r. (lat_label r, lat_pinned r)) lat =
       [(''crossbeam-Bus'', False), (''spsc-ring-buffer'', False), (''spsc-ring-buffer'', True)]"
    using bench_main_rows [of rnd64 ops h_of bus_end spsc_end bus_ns spsc_ns] by (elim exE conjE) (rule that)
  have "map lat_label lat = map fst (map (\<lambda>r. (lat_label r, lat_pinned r)) lat)" by simp
  then have labels: "map lat_label lat = [''crossbeam-Bus'', ''spsc-ring-buffer'', ''spsc-ring-buffer'']"
    unfolding rows by simp
  then have len: "length lat = 3" by (metis length_map list.size(3,4) numeral_3_eq_3 One_nat_def add.right_neutral add_Suc_right)
  have "lat_label ` set lat \<subseteq> {''crossbeam-Bus'', ''spsc-ring-buffer''}"
    unfolding set_map [symmetric] labels by simp
  moreover have "label_fits (chars_of l) \<and> 0x3C \<notin> set (chars_of l)" if "l \<in> {''crossbeam-Bus'', ''spsc-ring-buffer''}" for l
    using that by (auto simp: label_fits_def byte_len_def utf8_len_def chars_of_def)
  ultimately have fits: "\<forall>r\<in>set lat. label_fits (chars_of (lat_label r)) \<and> 0x3C \<notin> set (chars_of (lat_label r))"
    by blast
  then obtain s where "render_latency_svg lg rnd lat = Inr s" using render_Inr_iff by blast
  then show ?thesis using svg_read_back [of lg rnd lat s] fits main len by auto
qed

text \<open>
  Drawing panics exactly when a label of more than 22 bytes has no character boundary at byte 22.
\<close>

lemma svg_label_panics:
  "(\<exists>s. render_latency_svg lg rnd rs = Inr s) \<longleftrightarrow>
     \<not> (\<exists>r\<in>set rs. 22 < byte_len (chars_of (lat_label r)) \<and> (\<nexists>k. byte_len (take k (chars_of (lat_label r))) = 22))"
  using render_Inr_iff [of lg rnd rs] by (auto simp: label_fits_def not_less)

lemma svg_label_panics_example:
  "\<nexists>s. render_latency_svg lg rnd [svg_dummy\<lparr>lat_label := replicate 21 (CHR ''a'') @ [CHR 0xB5]\<rparr>] = Inr s"
proof -
  let ?l = "chars_of (replicate 21 (CHR ''a'') @ [CHR 0xB5])"
  have l: "?l = replicate 21 0x61 @ [0xB5]" by (simp add: chars_of_def)
  have "byte_len ?l = 23" unfolding l by (simp add: byte_len_def utf8_len_def sum_list_replicate)
  moreover have "byte_len (take k ?l) \<noteq> 22" for k
    unfolding l by (cases "k \<le> 21") (auto simp: byte_len_def utf8_len_def sum_list_replicate min_def not_le dest!: less_imp_Suc_add)
  ultimately show ?thesis using svg_label_panics [of lg rnd "[svg_dummy\<lparr>lat_label := replicate 21 (CHR ''a'') @ [CHR 0xB5]\<rparr>]"] by auto
qed

end
