(* ===== verification/Svg_Points.thy ===== *)
theory Svg_Points
  imports Svg_Read Complex_Main
begin

text \<open>
  Where the drawing of theory \<open>Svg\<close> puts its points: near the exact place on the two logarithmic
  scales, as near as the rounding and the calls of \<open>f64::log10\<close> are to the exact results.
\<close>

section \<open>What is relied on\<close>

text \<open>
  Rounding to nearest keeps the order, is exact on whole numbers up to \<open>2 ^ 53\<close>, and otherwise close.
  Of \<open>log10\<close> nothing is relied on but that each call is within \<open>e\<close> of the logarithm: two calls may differ,
  and the order of their results may be wrong.
\<close>

definition rounding_ok :: "(rat \<Rightarrow> rat) \<Rightarrow> bool" where
  "rounding_ok rnd \<longleftrightarrow>
     (\<forall>x y. x \<le> y \<longrightarrow> rnd x \<le> rnd y) \<and>
     (\<forall>n. \<bar>n\<bar> \<le> 2 ^ 53 \<longrightarrow> rnd (of_int n) = of_int n) \<and>
     (\<forall>x. \<bar>real_of_rat x\<bar> \<le> 2 ^ 64 \<longrightarrow>
        \<bar>real_of_rat (rnd x) - real_of_rat x\<bar> \<le> \<bar>real_of_rat x\<bar> / 2 ^ 52 + 1 / 10 ^ 300)"

definition log_within :: "real \<Rightarrow> log10 \<Rightarrow> bool" where
  "log_within e lg \<longleftrightarrow>
     (\<forall>c x. 1 / 10 ^ 6 \<le> x \<and> x \<le> 2 ^ 65 \<longrightarrow> \<bar>real_of_rat (lg c x) - log 10 (real_of_rat x)\<bar> \<le> e)"

lemma rounding_laws:
  assumes "rounding_ok rnd"
  shows rnd_mono: "x \<le> y \<Longrightarrow> rnd x \<le> rnd y"
    and rnd_int: "\<bar>n\<bar> \<le> 2 ^ 53 \<Longrightarrow> rnd (of_int n) = of_int n"
    and rnd_close: "\<bar>real_of_rat x\<bar> \<le> 2 ^ 64 \<Longrightarrow>
      \<bar>real_of_rat (rnd x) - real_of_rat x\<bar> \<le> \<bar>real_of_rat x\<bar> / 2 ^ 52 + 1 / 10 ^ 300"
  using assms unfolding rounding_ok_def by blast+

lemma rnd_nat: "rounding_ok rnd \<Longrightarrow> n \<le> 2 ^ 53 \<Longrightarrow> rnd (of_nat n) = of_nat n"
  using rnd_int [of rnd "int n"] by simp

lemma rnd_const: "rounding_ok rnd \<Longrightarrow> rnd 0 = 0" "rounding_ok rnd \<Longrightarrow> rnd 1 = 1"
  using rnd_int [of rnd 0] rnd_int [of rnd 1] by simp_all

lemma rnd_near:
  assumes "rounding_ok rnd" "\<bar>real_of_rat x\<bar> \<le> 10 ^ 4"
  shows "\<bar>real_of_rat (rnd x) - real_of_rat x\<bar> \<le> 1 / 10 ^ 11"
proof -
  have "\<bar>real_of_rat (rnd x) - real_of_rat x\<bar> \<le> \<bar>real_of_rat x\<bar> / 2 ^ 52 + 1 / 10 ^ 300"
    using assms(2) by (intro rnd_close [OF assms(1)]) simp
  also have "\<dots> \<le> 10 ^ 4 / 2 ^ 52 + 1 / 10 ^ 300" using assms(2) by (intro add_right_mono divide_right_mono) simp_all
  also have "\<dots> \<le> 1 / 10 ^ 11" by simp
  finally show ?thesis .
qed

lemma rnd_near_1:
  assumes "rounding_ok rnd" "\<bar>real_of_rat x\<bar> \<le> 2"
  shows "\<bar>real_of_rat (rnd x) - real_of_rat x\<bar> \<le> 1 / 10 ^ 15"
proof -
  have "\<bar>real_of_rat (rnd x) - real_of_rat x\<bar> \<le> \<bar>real_of_rat x\<bar> / 2 ^ 52 + 1 / 10 ^ 300"
    using assms(2) by (intro rnd_close [OF assms(1)]) simp
  also have "\<dots> \<le> 2 / 2 ^ 52 + 1 / 10 ^ 300" using assms(2) by (intro add_right_mono divide_right_mono) simp_all
  also have "\<dots> \<le> 1 / 10 ^ 15" by simp
  finally show ?thesis .
qed

lemma log_near: "log_within e lg \<Longrightarrow> 1 / 10 ^ 6 \<le> x \<Longrightarrow> x \<le> 2 ^ 65 \<Longrightarrow>
    \<bar>real_of_rat (lg c x) - log 10 (real_of_rat x)\<bar> \<le> e"
  by (simp add: log_within_def)

lemma log_within_calls: "log_within e lg \<Longrightarrow> log_within e (calls_of lg k)"
  by (simp add: log_within_def calls_of_def)

lemma log_within_nonneg: "log_within e lg \<Longrightarrow> 0 \<le> e"
proof -
  assume "log_within e lg"
  then have "\<bar>real_of_rat (lg [] 1) - log 10 (real_of_rat 1)\<bar> \<le> e" by (rule log_near) simp_all
  then show "0 \<le> e" by (rule order_trans [OF abs_ge_zero])
qed

section \<open>Errors\<close>

text \<open>A relative error of an argument is an error of its logarithm; errors of a quotient of two lengths.\<close>

lemma ln_10: "1 \<le> ln (10 :: real)" "ln (10 :: real) \<le> 9"
proof -
  have "exp (1 :: real) \<le> 10" using exp_le by simp
  then have "ln (exp 1) \<le> ln (10 :: real)" by (subst ln_le_cancel_iff) simp_all
  then show "1 \<le> ln (10 :: real)" by simp
  show "ln (10 :: real) \<le> 9" using ln_le_minus_one [of "10 :: real"] by simp
qed

lemma log_perturbed:
  fixes a b d :: real
  assumes "0 < a" "\<bar>b - a\<bar> \<le> d * a" "d \<le> 1 / 2"
  shows "\<bar>log 10 b - log 10 a\<bar> \<le> 2 * d"
proof -
  define z where "z = (b - a) / a"
  have z: "\<bar>z\<bar> \<le> d" using assms(1,2) by (simp add: z_def abs_divide divide_le_eq)
  have b: "b = a * (1 + z)" using assms(1) by (simp add: z_def field_simps)
  have pos: "0 < 1 + z" using z assms(3) by linarith
  have "\<bar>ln (1 + z) - z\<bar> \<le> 2 * z\<^sup>2" using z assms(3) by (intro abs_ln_one_plus_x_minus_x_bound) linarith
  moreover have "2 * z\<^sup>2 \<le> \<bar>z\<bar>"
  proof -
    have "\<bar>z\<bar> * \<bar>z\<bar> \<le> 1 / 2 * \<bar>z\<bar>" using z assms(3) by (intro mult_right_mono) simp_all
    then show ?thesis by (simp add: power2_eq_square)
  qed
  ultimately have "\<bar>ln (1 + z)\<bar> \<le> 2 * \<bar>z\<bar>" by linarith
  then have ln: "\<bar>ln (1 + z)\<bar> \<le> 2 * d" using z by linarith
  have "log 10 b - log 10 a = ln (1 + z) / ln 10"
    using assms(1) pos by (simp add: b log_def ln_mult add_divide_distrib)
  then have "\<bar>log 10 b - log 10 a\<bar> = \<bar>ln (1 + z)\<bar> / ln 10" using ln_10(1) by simp
  also have "\<dots> \<le> \<bar>ln (1 + z)\<bar>" using ln_10(1) by (simp add: divide_le_eq mult_le_cancel_left1)
  finally show ?thesis using ln by linarith
qed

lemma quotient_error:
  fixes a b n d e :: real
  assumes "0 < b" "0 \<le> a" "a \<le> b" "\<bar>n - a\<bar> \<le> e" "\<bar>d - b\<bar> \<le> e" "e \<le> b / 2"
  shows "0 < d" "\<bar>n / d - a / b\<bar> \<le> 4 * e / b"
proof -
  have d: "b / 2 \<le> d" using assms(5,6) by linarith
  then show pos: "0 < d" using assms(1) by linarith
  have "n / d - a / b = ((n - a) * b - a * (d - b)) / (d * b)" using pos assms(1) by (simp add: field_simps)
  then have "\<bar>n / d - a / b\<bar> = \<bar>(n - a) * b - a * (d - b)\<bar> / (d * b)" using pos assms(1) by (simp add: abs_mult)
  also have "\<dots> \<le> (e * b + b * e) / (d * b)"
  proof (rule divide_right_mono)
    have "\<bar>(n - a) * b\<bar> \<le> e * b" using assms(1,4) by (simp add: abs_mult)
    moreover have "\<bar>a * (d - b)\<bar> \<le> b * e" unfolding abs_mult using assms(2,3,5) by (intro mult_mono) simp_all
    ultimately show "\<bar>(n - a) * b - a * (d - b)\<bar> \<le> e * b + b * e" by linarith
  qed (use pos assms(1) in simp)
  also have "\<dots> = 2 * e / d" using assms(1) by (simp add: field_simps)
  also have "\<dots> \<le> 2 * e / (b / 2)" using d assms(1,4) by (intro divide_left_mono) (auto intro: mult_pos_pos pos)
  finally show "\<bar>n / d - a / b\<bar> \<le> 4 * e / b" by simp
qed

section \<open>A scale\<close>

text \<open>The value at \<open>t\<close> on a scale.\<close>

definition at_t :: "(rat \<Rightarrow> rat) \<Rightarrow> nat \<Rightarrow> nat \<Rightarrow> rat \<Rightarrow> rat" where
  "at_t rnd start extent t = rnd (of_nat start + rnd (rnd (1 - t) * of_nat extent))"

lemma along_at_t: "along rnd (of_nat start) (of_nat extent) (Num t) = Num (at_t rnd start extent t)"
  by (simp add: at_t_def)

lemma at_t_antimono:
  assumes "rounding_ok rnd" "t \<le> t'"
  shows "at_t rnd start extent t' \<le> at_t rnd start extent t"
proof -
  have "rnd (1 - t') \<le> rnd (1 - t)" using assms(2) by (intro rnd_mono [OF assms(1)]) simp
  then have "rnd (rnd (1 - t') * of_nat extent) \<le> rnd (rnd (1 - t) * of_nat extent)"
    by (intro rnd_mono [OF assms(1)] mult_right_mono) (simp_all add: assms(2))
  then have "of_nat start + rnd (rnd (1 - t') * of_nat extent) \<le> of_nat start + rnd (rnd (1 - t) * of_nat extent)" by simp
  then show ?thesis unfolding at_t_def by (rule rnd_mono [OF assms(1)])
qed

lemma at_t_ends:
  assumes "rounding_ok rnd" "start + extent \<le> 2 ^ 53"
  shows "at_t rnd start extent 0 = of_nat (start + extent)" "at_t rnd start extent 1 = of_nat start"
proof -
  have "rnd (of_nat extent) = of_nat extent" "rnd (of_nat start) = of_nat start"
    "rnd (of_nat (start + extent)) = of_nat (start + extent)"
    using rnd_nat [OF assms(1)] assms(2) by (auto simp del: of_nat_add)
  then show "at_t rnd start extent 0 = of_nat (start + extent)" "at_t rnd start extent 1 = of_nat start"
    using rnd_const [OF assms(1)] by (simp_all add: at_t_def)
qed

lemma at_t_near:
  assumes "rounding_ok rnd" "\<bar>real_of_rat t - u\<bar> \<le> d" "d \<le> 1" "0 \<le> u" "u \<le> 1" "start \<le> 1000" "extent \<le> 1000"
  shows "\<bar>real_of_rat (at_t rnd start extent t) - (real start + real extent * (1 - u))\<bar> \<le> real extent * d + 1 / 10 ^ 7"
proof -
  let ?r = real_of_rat
  define a where "a = rnd (1 - t)"
  define b where "b = rnd (a * of_nat extent)"
  have t: "-1 \<le> ?r t" "?r t \<le> 2" using assms(2-5) by linarith+
  have d1: "?r (1 - t) = 1 - ?r t" by (simp add: of_rat_diff)
  have "\<bar>?r (1 - t)\<bar> \<le> 10 ^ 4" unfolding d1 using t by simp
  from rnd_near [OF assms(1) this] have a: "\<bar>?r a - (1 - ?r t)\<bar> \<le> 1 / 10 ^ 11" unfolding d1 a_def .
  define x where "x = real extent"
  have x: "0 \<le> x" "x \<le> 1000" using assms(7) by (simp_all add: x_def)
  have ax: "?r (a * of_nat extent) = ?r a * x" by (simp add: of_rat_mult x_def)
  have "1 / 10 ^ 11 \<le> (1 :: real)" by simp
  then have "\<bar>?r a\<bar> \<le> 3" using a t by linarith
  then have "\<bar>?r a * x\<bar> \<le> 3 * 1000" unfolding abs_mult using x by (intro mult_mono) simp_all
  then have "\<bar>?r (a * of_nat extent)\<bar> \<le> 10 ^ 4" unfolding ax by simp
  from rnd_near [OF assms(1) this] have b: "\<bar>?r b - ?r a * x\<bar> \<le> 1 / 10 ^ 11" unfolding b_def ax .
  then have b3: "\<bar>?r b\<bar> \<le> 3001" using \<open>\<bar>?r a * x\<bar> \<le> 3 * 1000\<close> \<open>1 / 10 ^ 11 \<le> (1 :: real)\<close> by linarith
  have sb: "?r (of_nat start + b) = real start + ?r b" by (simp add: of_rat_add)
  have "0 \<le> real start" "real start \<le> 1000" "(10 :: real) ^ 4 = 10000" using assms(6) by simp_all
  then have "\<bar>?r (of_nat start + b)\<bar> \<le> 10 ^ 4" unfolding sb using b3 by linarith
  from rnd_near [OF assms(1) this] have c: "\<bar>?r (at_t rnd start extent t) - (real start + ?r b)\<bar> \<le> 1 / 10 ^ 11"
    unfolding at_t_def a_def [symmetric] b_def [symmetric] sb [symmetric] .
  have "\<bar>?r a - (1 - u)\<bar> \<le> d + 1 / 10 ^ 11" using a assms(2) by linarith
  then have "\<bar>(?r a - (1 - u)) * x\<bar> \<le> (d + 1 / 10 ^ 11) * x" unfolding abs_mult using x by (intro mult_mono) simp_all
  moreover have "(?r a - (1 - u)) * x = ?r a * x - x * (1 - u)" by (simp add: algebra_simps)
  moreover have "(d + 1 / 10 ^ 11) * x = x * d + x / 10 ^ 11" by (simp add: algebra_simps)
  moreover have "x / 10 ^ 11 \<le> 1 / 10 ^ 8" using x by simp
  ultimately have "\<bar>?r a * x - x * (1 - u)\<bar> \<le> x * d + 1 / 10 ^ 8" by linarith
  then have "\<bar>?r (at_t rnd start extent t) - (real start + x * (1 - u))\<bar> \<le> x * d + 1 / 10 ^ 8 + 1 / 10 ^ 11 + 1 / 10 ^ 11"
    using b c by linarith
  moreover have "1 / 10 ^ 8 + 1 / 10 ^ 11 + 1 / 10 ^ 11 \<le> (1 / 10 ^ 7 :: real)" by simp
  ultimately show ?thesis unfolding x_def [symmetric] by linarith
qed

text \<open>The quotient of two lengths as the code computes it.\<close>

lemma s_div_near:
  assumes "rounding_ok rnd" "0 < b" "0 \<le> a" "a \<le> b" "b \<le> 100"
    and "\<bar>real_of_rat n - a\<bar> \<le> e" "\<bar>real_of_rat d - b\<bar> \<le> e" "e + 1 / 10 ^ 11 \<le> b / 2" "4 * (e + 1 / 10 ^ 11) / b \<le> 1"
  shows "\<exists>t. s_div rnd (rnd n) (rnd d) = Num t \<and> \<bar>real_of_rat t - a / b\<bar> \<le> 4 * (e + 1 / 10 ^ 11) / b + 1 / 10 ^ 11"
proof -
  let ?r = real_of_rat
  define h :: real where "h = 1 / 10 ^ 11"
  have h: "0 < h" "h \<le> 1" "(10 :: real) ^ 4 = 10000" by (simp_all add: h_def)
  note near = rnd_near [OF assms(1), folded h_def]
  note lim = assms(8,9) [folded h_def]
  have "e \<le> 50" using assms(5) lim(1) h by linarith
  then have "\<bar>?r n\<bar> \<le> 10 ^ 4" "\<bar>?r d\<bar> \<le> 10 ^ 4" unfolding h(3) using assms(2-7) by linarith+
  from this [THEN near] have nd: "\<bar>?r (rnd n) - a\<bar> \<le> e + h" "\<bar>?r (rnd d) - b\<bar> \<le> e + h"
    using assms(6,7) by linarith+
  note q = quotient_error [OF assms(2-4) nd lim(1)]
  have "rnd d \<noteq> 0" using q(1) by auto
  then have "s_div rnd (rnd n) (rnd d) = Num (rnd (rnd n / rnd d))" by simp
  moreover have "\<bar>?r (rnd (rnd n / rnd d)) - a / b\<bar> \<le> 4 * (e + h) / b + h"
  proof -
    have "0 \<le> a / b" "a / b \<le> 1" using assms(2-4) by simp_all
    then have "\<bar>?r (rnd n) / ?r (rnd d)\<bar> \<le> 10 ^ 4" unfolding h(3) using q(2) lim(2) by linarith
    then have "\<bar>?r (rnd (rnd n / rnd d)) - ?r (rnd n) / ?r (rnd d)\<bar> \<le> h" using near [of "rnd n / rnd d"] by (simp only: of_rat_divide)
    then show ?thesis using q(2) by linarith
  qed
  ultimately show ?thesis unfolding h_def by blast
qed

section \<open>The vertical scale\<close>

abbreviation up :: "(rat \<Rightarrow> rat) \<Rightarrow> u64 \<Rightarrow> rat" where
  "up rnd ns \<equiv> max (rnd (of_nat (unat ns))) 1"

abbreviation log_ns :: "u64 \<Rightarrow> real" where
  "log_ns ns \<equiv> log 10 (real (unat ns))"

text \<open>The scale starts at 1.5, between the logarithms of 31 and 32, at some distance from both.\<close>

lemma log_31_32: "log 10 31 \<le> 299 / (200 :: real)" "301 / 200 \<le> log 10 (32 :: real)"
proof -
  have pow: "log 10 ((x :: real) ^ 200) = 200 * log 10 x" if "0 < x" for x
    using log_nat_power [of x 10 200] that by simp
  have "log 10 ((31 :: real) ^ 200) \<le> log 10 (10 ^ 299)" by (rule log_mono) simp_all
  then show "log 10 31 \<le> 299 / (200 :: real)" unfolding pow [OF zero_less_numeral] by (simp only: log_pow_cancel)
  have "log 10 (10 ^ 301) \<le> log 10 ((32 :: real) ^ 200)" by (rule log_mono) simp_all
  then show "301 / 200 \<le> log 10 (32 :: real)" unfolding pow [OF zero_less_numeral] by (simp only: log_pow_cancel)
qed

lemma log_nat_bounds:
  "32 \<le> n \<Longrightarrow> 301 / 200 \<le> log 10 (real n)" "1 \<le> n \<Longrightarrow> n \<le> 31 \<Longrightarrow> log 10 (real n) \<le> 299 / 200"
  "1 \<le> n \<Longrightarrow> n \<le> m \<Longrightarrow> log 10 (real n) \<le> log 10 (real m)" "1 \<le> n \<Longrightarrow> n < 2 ^ 64 \<Longrightarrow> log 10 (real n) \<le> 20"
proof -
  have mono: "log 10 x \<le> log 10 y" if "0 < x" "x \<le> y" for x y :: real
    using that by (intro log_mono) simp_all
  show "301 / 200 \<le> log 10 (real n)" if "32 \<le> n"
  proof -
    have "log 10 32 \<le> log 10 (real n)" using that by (intro mono) simp_all
    with log_31_32(2) show ?thesis by (rule order_trans)
  qed
  show "log 10 (real n) \<le> 299 / 200" if "1 \<le> n" "n \<le> 31"
  proof -
    have "log 10 (real n) \<le> log 10 31" using that by (intro mono) simp_all
    then show ?thesis using log_31_32(1) by (rule order_trans)
  qed
  show "log 10 (real n) \<le> log 10 (real m)" if "1 \<le> n" "n \<le> m" using mono that by simp
  show "log 10 (real n) \<le> 20" if "1 \<le> n" "n < 2 ^ 64"
  proof -
    have "real n \<le> real (2 ^ 64)" using that(2) by (simp only: of_nat_le_iff)
    also have "\<dots> \<le> 10 ^ 20" by simp
    finally have "log 10 (real n) \<le> log 10 (10 ^ 20)" using that(1) by (intro mono) simp_all
    then show ?thesis by (simp only: log_pow_cancel)
  qed
qed

lemma log_ns_bounds:
  "32 \<le> ns \<Longrightarrow> 301 / 200 \<le> log_ns ns" "1 \<le> ns \<Longrightarrow> ns \<le> 31 \<Longrightarrow> log_ns ns \<le> 299 / 200"
  "1 \<le> ns \<Longrightarrow> ns \<le> ms \<Longrightarrow> log_ns ns \<le> log_ns ms" "1 \<le> ns \<Longrightarrow> log_ns ns \<le> 20"
  using log_nat_bounds [of "unat ns"] unat64_less [of ns]
  by (simp_all add: word_le_nat_alt del: of_nat_unat)

lemma up_log:
  assumes "rounding_ok rnd" "log_within e lg" "1 \<le> ns"
  shows "\<bar>real_of_rat (lg c (up rnd ns) - 3 / 2) - (log_ns ns - 3 / 2)\<bar> \<le> e + 1 / 10 ^ 12"
proof -
  let ?r = real_of_rat and ?n = "of_nat (unat ns) :: rat"
  have n: "1 \<le> unat ns" using assms(3) by (simp add: word_le_nat_alt)
  then have "1 \<le> ?n" by (simp only: one_of_nat_le_iff)
  then have one: "1 \<le> rnd ?n" using rnd_mono [OF assms(1), of 1 ?n] unfolding rnd_const(2) [OF assms(1)] by blast
  then have up: "up rnd ns = rnd ?n" by (rule max.absorb1)
  have rn: "?r ?n = real (unat ns)" by (rule of_rat_of_nat_eq)
  have "unat ns \<le> 2 ^ 64" using unat64_less [of ns] by simp
  then have "real (unat ns) \<le> real (2 ^ 64)" unfolding of_nat_le_iff .
  then have n64: "real (unat ns) \<le> 2 ^ 64" by simp
  then have "\<bar>?r ?n\<bar> \<le> 2 ^ 64" unfolding rn by (simp del: of_nat_unat)
  from rnd_close [OF assms(1) this] have "\<bar>?r (rnd ?n) - real (unat ns)\<bar> \<le> real (unat ns) / 2 ^ 52 + 1 / 10 ^ 300"
    unfolding rn abs_of_nat .
  also have "\<dots> \<le> real (unat ns) / 2 ^ 52 + real (unat ns) / 10 ^ 300" using n by (intro add_left_mono divide_right_mono) (simp_all del: of_nat_unat)
  also have "\<dots> = (1 / 2 ^ 52 + 1 / 10 ^ 300) * real (unat ns)" by (simp only: distrib_right times_divide_eq_left mult_1)
  also have "\<dots> \<le> (1 / 10 ^ 15) * real (unat ns)" by (intro mult_right_mono) (simp_all del: of_nat_unat)
  finally have near: "\<bar>?r (rnd ?n) - real (unat ns)\<bar> \<le> (1 / 10 ^ 15) * real (unat ns)" .
  have "\<bar>log 10 (?r (rnd ?n)) - log_ns ns\<bar> \<le> 2 * (1 / 10 ^ 15)"
    by (rule log_perturbed [OF _ near]) (use n in \<open>simp_all del: of_nat_unat\<close>)
  moreover have "2 * (1 / 10 ^ 15) \<le> (1 / 10 ^ 12 :: real)" by simp
  moreover have "\<bar>?r (lg c (rnd ?n)) - log 10 (?r (rnd ?n))\<bar> \<le> e"
  proof (rule log_near [OF assms(2)])
    show "1 / 10 ^ 6 \<le> rnd ?n" using one by simp
    have "?n \<le> of_nat (2 ^ 64)" unfolding of_nat_le_iff using \<open>unat ns \<le> 2 ^ 64\<close> .
    have "(1 / 10 ^ 15) * real (unat ns) \<le> 1 * real (unat ns)" by (intro mult_right_mono) (simp_all del: of_nat_unat)
    then have "?r (rnd ?n) \<le> 2 ^ 64 + 2 ^ 64" using near n64 by linarith
    also have "\<dots> = ?r (2 ^ 65)" by (simp add: of_rat_power)
    finally show "rnd ?n \<le> 2 ^ 65" by (simp only: of_rat_less_eq)
  qed
  moreover have "?r (lg c (up rnd ns) - 3 / 2) = ?r (lg c (rnd ?n)) - 3 / 2" unfolding up by (simp add: of_rat_diff of_rat_divide)
  ultimately show ?thesis by linarith
qed

text \<open>Where a latency belongs: the logarithm 1.5 at the bottom, that of the longest latency at the top.\<close>

definition exact_y :: "u64 \<Rightarrow> u64 \<Rightarrow> real" where
  "exact_y most ns = 44 + 372 * (1 - (log_ns ns - 3 / 2) / (log_ns most - 3 / 2))"

text \<open>How near a point is, in pixels, when the logarithms are within \<open>e\<close>.\<close>

abbreviation off :: "real \<Rightarrow> real" where
  "off e \<equiv> 10 ^ 6 * e + 1 / 10 ^ 4"

lemma lat_y_near:
  assumes "rounding_ok rnd" "log_within e lg" "e \<le> 1 / 10 ^ 6" "32 \<le> ns" "ns \<le> most"
  shows "\<exists>y. lat_y lg rnd ns most = Num y \<and> \<bar>real_of_rat y - exact_y most ns\<bar> \<le> off e"
proof -
  let ?a = "log_ns ns - 3 / 2" and ?b = "log_ns most - 3 / 2"
  have ns: "1 \<le> ns" "1 \<le> most" "32 \<le> most" using assms(4,5) by (simp_all add: word_le_nat_alt)
  have b: "1 / 200 \<le> ?b" "?b \<le> 100" using log_ns_bounds(1) [OF ns(3)] log_ns_bounds(4) [OF ns(2)] by linarith+
  have a: "0 \<le> ?a" "?a \<le> ?b" using log_ns_bounds(1) [OF assms(4)] log_ns_bounds(3) [OF ns(1) assms(5)] by linarith+
  define h :: real where "h = e + 1 / 10 ^ 12"
  have e0: "0 \<le> e" by (rule log_within_nonneg [OF assms(2)])
  have h: "0 \<le> h" "h + 1 / 10 ^ 11 \<le> 1 / 10 ^ 5" using e0 assms(3) by (simp_all add: h_def)
  have q: "4 * (h + 1 / 10 ^ 11) / ?b \<le> 4 * (h + 1 / 10 ^ 11) / (1 / 200)"
    using b(1) h(1) by (intro divide_left_mono mult_nonneg_nonneg add_nonneg_nonneg) auto
  have q': "4 * (h + 1 / 10 ^ 11) / (1 / 200) = 800 * (h + 1 / 10 ^ 11)" by simp
  have "\<exists>t. s_div rnd (rnd (lg [1] (up rnd ns) - 3 / 2)) (rnd (lg [0] (up rnd most) - 3 / 2)) = Num t \<and>
      \<bar>real_of_rat t - ?a / ?b\<bar> \<le> 4 * (h + 1 / 10 ^ 11) / ?b + 1 / 10 ^ 11"
  proof (rule s_div_near [OF assms(1) _ a b(2)])
    show "0 < ?b" using b(1) by linarith
    show "\<bar>real_of_rat (lg [1] (up rnd ns) - 3 / 2) - ?a\<bar> \<le> h" unfolding h_def by (rule up_log [OF assms(1,2) ns(1)])
    show "\<bar>real_of_rat (lg [0] (up rnd most) - 3 / 2) - ?b\<bar> \<le> h" unfolding h_def by (rule up_log [OF assms(1,2) ns(2)])
    show "h + 1 / 10 ^ 11 \<le> ?b / 2" using b(1) h(2) by simp
    have "800 * (h + 1 / 10 ^ 11) \<le> 800 * (1 / 10 ^ 5)" using h(2) by (intro mult_left_mono) simp_all
    then show "4 * (h + 1 / 10 ^ 11) / ?b \<le> 1" using q unfolding q' by simp
  qed
  then obtain t where t: "s_div rnd (rnd (lg [1] (up rnd ns) - 3 / 2)) (rnd (lg [0] (up rnd most) - 3 / 2)) = Num t"
      "\<bar>real_of_rat t - ?a / ?b\<bar> \<le> 800 * (h + 1 / 10 ^ 11) + 1 / 10 ^ 11"
    using q unfolding q' by fastforce
  have "\<bar>real_of_rat (at_t rnd 44 372 t) - (real 44 + real 372 * (1 - ?a / ?b))\<bar>
      \<le> real 372 * (800 * (h + 1 / 10 ^ 11) + 1 / 10 ^ 11) + 1 / 10 ^ 7"
  proof (rule at_t_near [OF assms(1) t(2)])
    show "800 * (h + 1 / 10 ^ 11) + 1 / 10 ^ 11 \<le> 1" using h(2) by simp
    show "0 \<le> ?a / ?b" using a b(1) by (intro divide_nonneg_nonneg) linarith+
    show "?a / ?b \<le> 1" using a b(1) by simp
  qed simp_all
  also have "\<dots> \<le> off e" using e0 by (simp add: h_def)
  finally have "\<bar>real_of_rat (at_t rnd 44 372 t) - exact_y most ns\<bar> \<le> off e" by (simp add: exact_y_def)
  moreover have "lat_y lg rnd ns most = Num (at_t rnd 44 372 t)"
    unfolding lat_y_def Let_def t(1) along_at_t by (simp add: svg_sizes)
  ultimately show ?thesis by blast
qed

lemma exact_y_in_frame:
  assumes "32 \<le> ns" "ns \<le> most"
  shows "44 \<le> exact_y most ns" "exact_y most ns \<le> 416" "exact_y most most = 44"
proof -
  let ?a = "log_ns ns - 3 / 2" and ?b = "log_ns most - 3 / 2"
  have ns: "1 \<le> ns" "32 \<le> most" using assms by (simp_all add: word_le_nat_alt)
  have a: "0 \<le> ?a" "?a \<le> ?b" "0 < ?b"
    using log_ns_bounds(1) [OF assms(1)] log_ns_bounds(1) [OF ns(2)] log_ns_bounds(3) [OF ns(1) assms(2)] by linarith+
  define q where "q = ?a / ?b"
  have q: "0 \<le> q" "q \<le> 1" using a by (simp_all add: q_def)
  have "exact_y most ns = 44 + 372 * (1 - q)" by (simp only: exact_y_def q_def)
  with q show "44 \<le> exact_y most ns" "exact_y most ns \<le> 416" by simp_all
  show "exact_y most most = 44" using a(3) by (simp add: exact_y_def)
qed

section \<open>The horizontal scale\<close>

text \<open>Where a percentile belongs: all at the left edge, one in ten thousand missing at the right.\<close>

definition exact_x :: "rat \<Rightarrow> real" where
  "exact_x q = 88 + 602 * (- log 10 (1 - real_of_rat q) / 4)"

lemma inv_log:
  assumes "rounding_ok rnd" "log_within e lg" "0 \<le> p" "p \<le> 9999 / 10000"
  shows "\<bar>real_of_rat (lg c (rnd (1 - rnd p))) - log 10 (1 - real_of_rat p)\<bar> \<le> e + 1 / 10 ^ 9"
    "rnd (1 / 100000) \<le> rnd (1 - rnd p)"
proof -
  let ?r = real_of_rat
  have "?r p \<le> ?r (9999 / 10000)" using assms(4) by (simp only: of_rat_less_eq)
  then have p: "0 \<le> ?r p" "?r p \<le> 9999 / 10000" using assms(3) by (simp_all add: of_rat_divide)
  define h :: real where "h = 1 / 10 ^ 15"
  have h: "0 \<le> h" "h \<le> 1" "h \<le> 1 / 10 ^ 6" "h + h \<le> (1 / 10 ^ 10) * (1 / 10 ^ 4)" by (simp_all add: h_def)
  have "\<bar>?r p\<bar> \<le> 2" using p by linarith
  from rnd_near_1 [OF assms(1) this] have rp: "\<bar>?r (rnd p) - ?r p\<bar> \<le> h" unfolding h_def .
  have d: "?r (1 - rnd p) = 1 - ?r (rnd p)" by (simp add: of_rat_diff)
  have "\<bar>?r (1 - rnd p)\<bar> \<le> 2" unfolding d using p rp h(2) by linarith
  from rnd_near_1 [OF assms(1) this] have "\<bar>?r (rnd (1 - rnd p)) - (1 - ?r (rnd p))\<bar> \<le> h" unfolding h_def d .
  then have near: "\<bar>?r (rnd (1 - rnd p)) - (1 - ?r p)\<bar> \<le> h + h" using rp by linarith
  have "1 / 10 ^ 4 \<le> 1 - ?r p" using p(2) by simp
  then have "(1 / 10 ^ 10) * (1 / 10 ^ 4) \<le> (1 / 10 ^ 10) * (1 - ?r p)" by (rule mult_left_mono) simp
  then have "\<bar>?r (rnd (1 - rnd p)) - (1 - ?r p)\<bar> \<le> (1 / 10 ^ 10) * (1 - ?r p)" using near h(4) by linarith
  then have "\<bar>log 10 (?r (rnd (1 - rnd p))) - log 10 (1 - ?r p)\<bar> \<le> 2 * (1 / 10 ^ 10)"
    by (rule log_perturbed [rotated]) (simp, use p(2) in linarith)
  moreover have "2 * (1 / 10 ^ 10) \<le> (1 / 10 ^ 9 :: real)" by simp
  moreover have "\<bar>?r (lg c (rnd (1 - rnd p))) - log 10 (?r (rnd (1 - rnd p)))\<bar> \<le> e"
  proof (rule log_near [OF assms(2)])
    have "1 / 10 ^ 6 \<le> ?r (rnd (1 - rnd p))" using near h(3) p(2) by simp
    then have "?r (1 / 10 ^ 6) \<le> ?r (rnd (1 - rnd p))" by (simp add: of_rat_divide)
    then show "1 / 10 ^ 6 \<le> rnd (1 - rnd p)" by (simp only: of_rat_less_eq)
    have "?r (rnd (1 - rnd p)) \<le> 3" using near h(2) p(1) by linarith
    then have "?r (rnd (1 - rnd p)) \<le> ?r (2 ^ 65)" by simp
    then show "rnd (1 - rnd p) \<le> 2 ^ 65" by (simp only: of_rat_less_eq)
  qed
  ultimately show "\<bar>?r (lg c (rnd (1 - rnd p))) - log 10 (1 - ?r p)\<bar> \<le> e + 1 / 10 ^ 9" by linarith
  have "?r (1 / 100000) \<le> ?r (1 - rnd p)" unfolding d using rp h(3) p(2) by (simp add: of_rat_divide)
  then have "1 / 100000 \<le> 1 - rnd p" by (simp only: of_rat_less_eq)
  then show "rnd (1 / 100000) \<le> rnd (1 - rnd p)" by (rule rnd_mono [OF assms(1)])
qed

lemma log_inv_bounds:
  fixes x :: real
  assumes "0 \<le> x" "x \<le> 9999 / 10000"
  shows "- 4 \<le> log 10 (1 - x)" "log 10 (1 - x) \<le> 0" "log 10 (1 - 9999 / 10000) = (- 4 :: real)"
proof -
  have "log 10 (1 / 10 ^ 4) = (- 4 :: real)" by (simp only: log_divide log_pow_cancel) simp
  moreover have "1 - 9999 / 10000 = (1 / 10 ^ 4 :: real)" by simp
  ultimately show four: "log 10 (1 - 9999 / 10000) = (- 4 :: real)" by simp
  have "log 10 (1 - 9999 / 10000) \<le> log 10 (1 - x)" using assms by (intro log_mono) simp_all
  then show "- 4 \<le> log 10 (1 - x)" using four by linarith
  have "log 10 (1 - x) \<le> log 10 1" using assms by (intro log_mono) simp_all
  then show "log 10 (1 - x) \<le> 0" by simp
qed

lemma lengths_near:
  fixes a b l h :: real
  assumes "\<bar>a - l\<bar> \<le> h" "\<bar>b + 4\<bar> \<le> h"
  shows "\<bar>a - b - (l + 4)\<bar> \<le> 2 * h" "\<bar>0 - b - 4\<bar> \<le> 2 * h"
  using assms by linarith+

lemma pct_x_near:
  assumes "rounding_ok rnd" "log_within e lg" "e \<le> 1 / 10 ^ 6" "0 \<le> p" "p \<le> 9999 / 10000"
  shows "\<exists>x. pct_x lg rnd (rnd p) = Num x \<and> \<bar>real_of_rat x - exact_x p\<bar> \<le> off e"
proof -
  let ?r = real_of_rat
  let ?l = "log 10 (1 - ?r p)" and ?n = "lg [1] (rnd (1 - rnd p))" and ?m = "lg [0] (rnd (1 - rnd (9999 / 10000)))"
  have "?r p \<le> ?r (9999 / 10000)" using assms(5) by (simp only: of_rat_less_eq)
  then have p: "0 \<le> ?r p" "?r p \<le> 9999 / 10000" using assms(4) by (simp_all add: of_rat_divide)
  note l = log_inv_bounds [OF p]
  define h :: real where "h = 2 * (e + 1 / 10 ^ 9)"
  have e0: "0 \<le> e" by (rule log_within_nonneg [OF assms(2)])
  have h: "0 \<le> h" "h + 1 / 10 ^ 11 \<le> 1 / 10 ^ 5" using e0 assms(3) by (simp_all add: h_def)
  have n: "\<bar>?r ?n - ?l\<bar> \<le> e + 1 / 10 ^ 9" by (rule inv_log(1) [OF assms(1,2,4,5)])
  have r9: "?r (9999 / 10000) = 9999 / 10000" by (simp add: of_rat_divide)
  have "0 \<le> (9999 / 10000 :: rat)" by simp
  from inv_log(1) [OF assms(1,2) this order_refl, of "[0]"] have "\<bar>?r ?m - - 4\<bar> \<le> e + 1 / 10 ^ 9"
    unfolding r9 l(3) .
  then have m: "\<bar>?r ?m + 4\<bar> \<le> e + 1 / 10 ^ 9" by (simp only: diff_minus_eq_add)
  have "\<exists>t. s_div rnd (rnd (?n - ?m)) (rnd (0 - ?m)) = Num t \<and>
      \<bar>?r t - (?l + 4) / 4\<bar> \<le> 4 * (h + 1 / 10 ^ 11) / 4 + 1 / 10 ^ 11"
  proof (rule s_div_near [OF assms(1)])
    show "0 \<le> ?l + 4" "?l + 4 \<le> 4" using l by linarith+
    show "\<bar>?r (?n - ?m) - (?l + 4)\<bar> \<le> h" unfolding of_rat_diff h_def by (rule lengths_near(1) [OF n m])
    show "\<bar>?r (0 - ?m) - 4\<bar> \<le> h" unfolding of_rat_diff of_rat_0 h_def by (rule lengths_near(2) [OF n m])
    show "h + 1 / 10 ^ 11 \<le> 4 / 2" "4 * (h + 1 / 10 ^ 11) / 4 \<le> 1" using h(2) by simp_all
  qed simp_all
  then obtain t where t: "s_div rnd (rnd (?n - ?m)) (rnd (0 - ?m)) = Num t"
      "\<bar>?r t - (?l + 4) / 4\<bar> \<le> 4 * (h + 1 / 10 ^ 11) / 4 + 1 / 10 ^ 11" by blast
  have four: "4 * (h + 1 / 10 ^ 11) / 4 = h + 1 / 10 ^ 11" by simp
  have "\<bar>?r (at_t rnd 88 602 t) - (real 88 + real 602 * (1 - (?l + 4) / 4))\<bar>
      \<le> real 602 * (4 * (h + 1 / 10 ^ 11) / 4 + 1 / 10 ^ 11) + 1 / 10 ^ 7"
  proof (rule at_t_near [OF assms(1) t(2)])
    show "4 * (h + 1 / 10 ^ 11) / 4 + 1 / 10 ^ 11 \<le> 1" unfolding four using h(2) by simp
    show "0 \<le> (?l + 4) / 4" "(?l + 4) / 4 \<le> 1" using l by simp_all
  qed simp_all
  also have "\<dots> \<le> off e" unfolding four using e0 by (simp add: h_def)
  also have "real 88 + real 602 * (1 - (?l + 4) / 4) = exact_x p" by (simp add: exact_x_def field_simps)
  finally have "\<bar>?r (at_t rnd 88 602 t) - exact_x p\<bar> \<le> off e" .
  moreover have "max (rnd (1 - rnd p)) (rnd (1 / 100000)) = rnd (1 - rnd p)"
    by (rule max.absorb1) (rule inv_log(2) [OF assms(1,2,4,5)])
  then have "pct_x lg rnd (rnd p) = Num (at_t rnd 88 602 t)"
    unfolding pct_x_def Let_def by (simp only: t(1) along_at_t) (simp add: svg_sizes)
  ultimately show ?thesis by blast
qed

lemma exact_x_in_frame:
  assumes "0 \<le> p" "p \<le> 9999 / 10000"
  shows "88 \<le> exact_x p" "exact_x p \<le> 690" "exact_x 0 = 88" "exact_x (9999 / 10000) = 690"
proof -
  have "real_of_rat p \<le> real_of_rat (9999 / 10000)" using assms(2) by (simp only: of_rat_less_eq)
  then have p: "0 \<le> real_of_rat p" "real_of_rat p \<le> 9999 / 10000" using assms(1) by (simp_all add: of_rat_divide)
  note l = log_inv_bounds [OF p]
  show "88 \<le> exact_x p" "exact_x p \<le> 690" using l(1,2) by (simp_all add: exact_x_def)
  show "exact_x 0 = 88" by (simp add: exact_x_def)
  have r9: "real_of_rat (9999 / 10000) = 9999 / 10000" by (simp add: of_rat_divide)
  show "exact_x (9999 / 10000) = 690" unfolding exact_x_def r9 l(3) by simp
qed

section \<open>Outside the frame\<close>

text \<open>
  The vertical scale starts at the logarithm 1.5, between 31 and 32 nanoseconds, but latencies are cut
  off at one: shorter ones are drawn at the axis or below it.
\<close>

lemma up_sign:
  assumes "rounding_ok rnd" "log_within e lg" "e \<le> 1 / 10 ^ 6" "1 \<le> ns"
  shows "32 \<le> ns \<Longrightarrow> 0 < rnd (lg c (up rnd ns) - 3 / 2)" "ns \<le> 31 \<Longrightarrow> rnd (lg c (up rnd ns) - 3 / 2) < 0"
proof -
  let ?d = "lg c (up rnd ns) - 3 / 2"
  have near: "\<bar>real_of_rat ?d - (log_ns ns - 3 / 2)\<bar> \<le> e + 1 / 10 ^ 12" by (rule up_log [OF assms(1,2,4)])
  have small: "e + 1 / 10 ^ 12 + 1 / 10 ^ 11 \<le> 1 / 1000" using assms(3) by simp
  have "0 \<le> log_ns ns" using assms(4) log_nat_bounds(3) [of 1 "unat ns"] by (simp add: word_le_nat_alt del: of_nat_unat)
  moreover have "(10 :: real) ^ 4 = 10000" "0 \<le> (1 / 10 ^ 11 :: real)" by simp_all
  ultimately have "\<bar>real_of_rat ?d\<bar> \<le> 10 ^ 4" using near small log_ns_bounds(4) [OF assms(4)] by linarith
  note rd = rnd_near [OF assms(1) this]
  show "0 < rnd ?d" if "32 \<le> ns"
  proof -
    have "0 < real_of_rat (rnd ?d)" using rd near small log_ns_bounds(1) [OF that] by linarith
    then show ?thesis by (simp only: zero_less_of_rat_iff)
  qed
  show "rnd ?d < 0" if "ns \<le> 31"
  proof -
    have "real_of_rat (rnd ?d) < 0" using rd near small log_ns_bounds(2) [OF assms(4) that] by linarith
    then show ?thesis by (simp only: of_rat_less_0_iff)
  qed
qed

lemma lat_y_at_t:
  assumes "rnd (lg [0] (up rnd most) - 3 / 2) \<noteq> 0"
  shows "lat_y lg rnd ns most =
    Num (at_t rnd 44 372 (rnd (rnd (lg [1] (up rnd ns) - 3 / 2) / rnd (lg [0] (up rnd most) - 3 / 2))))"
proof -
  have "s_div rnd a (rnd (lg [0] (up rnd most) - 3 / 2)) = Num (rnd (a / rnd (lg [0] (up rnd most) - 3 / 2)))" for a
    using assms by simp
  then show ?thesis unfolding lat_y_def Let_def by (simp only: along_at_t) (simp add: svg_sizes)
qed

lemma below_the_axis:
  assumes "rounding_ok rnd" "log_within e lg" "e \<le> 1 / 10 ^ 6" "1 \<le> ns" "ns \<le> 31" "32 \<le> most"
  shows "\<exists>y. lat_y lg rnd ns most = Num y \<and> 416 \<le> y"
proof -
  have "1 \<le> most" using assms(6) by (simp add: word_le_nat_alt)
  note b = up_sign(1) [OF assms(1-3) this assms(6), of "[0]"]
  have "rnd (lg [1] (up rnd ns) - 3 / 2) / rnd (lg [0] (up rnd most) - 3 / 2) \<le> 0"
    using b up_sign(2) [OF assms(1-5), of "[1]"] by (simp add: divide_nonpos_pos)
  then have "rnd (rnd (lg [1] (up rnd ns) - 3 / 2) / rnd (lg [0] (up rnd most) - 3 / 2)) \<le> 0"
    using rnd_mono [OF assms(1)] rnd_const(1) [OF assms(1)] by metis
  from at_t_antimono [OF assms(1) this, of 44 372] show ?thesis
    using lat_y_at_t [of rnd lg most ns] b at_t_ends(1) [OF assms(1), of 44 372] by simp
qed

text \<open>When even the longest latency is that short the scale is upside down: shorter ones are above it.\<close>

lemma upside_down:
  assumes "rounding_ok rnd" "log_within e lg" "e \<le> 1 / 10 ^ 6" "1 \<le> ns" "2 * unat ns \<le> unat most" "most \<le> 31"
  shows "\<exists>y. lat_y lg rnd ns most = Num y \<and> y \<le> 44"
proof -
  have most: "1 \<le> most" "1 \<le> unat ns" using assms(4,5) by (simp_all add: word_le_nat_alt)
  note b = up_sign(2) [OF assms(1-3) most(1) assms(6), of "[0]"]
  have "log 10 (2 * real (unat ns)) \<le> log_ns most"
    using most(2) assms(5) by (intro log_mono) (simp_all del: of_nat_unat flip: of_nat_mult)
  moreover have "log 10 (2 * real (unat ns)) = log 10 2 + log_ns ns"
    using most(2) by (intro log_mult_pos) (simp_all del: of_nat_unat)
  moreover have "1 / 10 \<le> log 10 (2 :: real)"
  proof -
    have "log 10 10 \<le> log 10 ((2 :: real) ^ 4)" by (rule log_mono) simp_all
    also have "\<dots> = 4 * log 10 2" using log_nat_power [of 2 10 4] by simp
    finally show ?thesis by simp
  qed
  moreover have "e + 1 / 10 ^ 12 \<le> 1 / 1000" using assms(3) by simp
  ultimately have "real_of_rat (lg [1] (up rnd ns) - 3 / 2) \<le> real_of_rat (lg [0] (up rnd most) - 3 / 2)"
    using up_log [OF assms(1,2,4), of "[1]"] up_log [OF assms(1,2) most(1), of "[0]"] by linarith
  then have "lg [1] (up rnd ns) - 3 / 2 \<le> lg [0] (up rnd most) - 3 / 2" by (simp only: of_rat_less_eq)
  then have "rnd (lg [1] (up rnd ns) - 3 / 2) \<le> rnd (lg [0] (up rnd most) - 3 / 2)" by (rule rnd_mono [OF assms(1)])
  then have "1 \<le> rnd (lg [1] (up rnd ns) - 3 / 2) / rnd (lg [0] (up rnd most) - 3 / 2)" using b by (simp add: le_divide_eq)
  then have "1 \<le> rnd (rnd (lg [1] (up rnd ns) - 3 / 2) / rnd (lg [0] (up rnd most) - 3 / 2))"
    using rnd_mono [OF assms(1)] rnd_const(2) [OF assms(1)] by metis
  from at_t_antimono [OF assms(1) this, of 44 372] show ?thesis
    using lat_y_at_t [of rnd lg most ns] b at_t_ends(2) [OF assms(1), of 44 372] by simp
qed

section \<open>An example\<close>

text \<open>Exact results, but for the logarithms, which are cut to ten decimals, upwards in some calls.\<close>

definition ex_log :: log10 where
  "ex_log c x = of_int (if even (sum_list c) then \<lfloor>log 10 (real_of_rat x) * 10 ^ 10\<rfloor> else \<lceil>log 10 (real_of_rat x) * 10 ^ 10\<rceil>) / 10 ^ 10"

lemma ex_log_within: "log_within (1 / 10 ^ 10) ex_log"
proof -
  have "\<bar>real_of_rat (ex_log c x) - l\<bar> \<le> 1 / 10 ^ 10" if "l = log 10 (real_of_rat x)" for c x l
  proof -
    define k where "k = (if even (sum_list c) then \<lfloor>l * 10 ^ 10\<rfloor> else \<lceil>l * 10 ^ 10\<rceil>)"
    have "real_of_rat (ex_log c x) = of_int k / 10 ^ 10"
      by (simp add: ex_log_def k_def that of_rat_divide of_rat_power)
    then have "real_of_rat (ex_log c x) - l = (of_int k - l * 10 ^ 10) / 10 ^ 10" by (simp add: field_simps)
    moreover have "\<bar>z / 10 ^ 10\<bar> \<le> 1 / 10 ^ 10" if "\<bar>z\<bar> \<le> 1" for z :: real
      using that by simp
    moreover have "\<bar>of_int k - l * 10 ^ 10\<bar> \<le> 1" unfolding k_def by (auto simp: abs_le_iff) linarith+
    ultimately show ?thesis by (simp only:)
  qed
  then show ?thesis by (simp add: log_within_def)
qed

lemma ex_rounding_ok: "rounding_ok (\<lambda>x. x)"
  by (simp add: rounding_ok_def)

section \<open>Properties of the points\<close>

lemma abs_near:
  fixes a b d :: real
  shows "a \<le> b + d \<Longrightarrow> b \<le> a + d \<Longrightarrow> \<bar>a - b\<bar> \<le> d"
  by linarith

lemma printed_near:
  assumes "\<bar>real_of_rat x - u\<bar> \<le> d" "d \<le> 2" "2 \<le> u"
  shows "\<bar>real_of_rat (read_decimal (show1 (Num x))) - u\<bar> \<le> d + 1 / 20"
proof -
  have "0 \<le> real_of_rat x" using assms by linarith
  then have "0 \<le> x" by (simp only: zero_le_of_rat_iff)
  from read_fixed_close [OF this, of 1] have "\<bar>read_decimal (fixed 1 x) - x\<bar> \<le> 1 / 20" by simp
  then have "read_decimal (fixed 1 x) \<le> x + 1 / 20" "x \<le> read_decimal (fixed 1 x) + 1 / 20" by linarith+
  then have "real_of_rat (read_decimal (fixed 1 x)) \<le> real_of_rat (x + 1 / 20)"
    "real_of_rat x \<le> real_of_rat (read_decimal (fixed 1 x) + 1 / 20)" by (simp_all only: of_rat_less_eq)
  then have "\<bar>real_of_rat (read_decimal (fixed 1 x)) - real_of_rat x\<bar> \<le> 1 / 20"
    by (intro abs_near) (simp_all add: of_rat_add of_rat_divide)
  then show ?thesis using assms(1) unfolding show1.simps by linarith
qed

lemma enumerate_all2: "(\<And>i x. x \<in> set xs \<Longrightarrow> R (f (i, x)) x) \<Longrightarrow> list_all2 R (map f (enumerate n xs)) xs"
  by (simp add: list_all2_conv_all_nth nth_enumerate_eq)

lemma point_near:
  assumes "rounding_ok rnd" "log_within e lg" "e \<le> 1 / 10 ^ 6" "0 \<le> q" "q \<le> 9999 / 10000" "32 \<le> ns" "ns \<le> most"
  shows "\<exists>x y. (pct_x (calls_of lg 0) rnd (rnd q), lat_y (calls_of lg 1) rnd ns most) = (Num x, Num y) \<and>
    \<bar>real_of_rat x - exact_x q\<bar> \<le> off e \<and> \<bar>real_of_rat y - exact_y most ns\<bar> \<le> off e \<and>
    \<bar>real_of_rat (read_decimal (show1 (Num x))) - exact_x q\<bar> \<le> off e + 1 / 20 \<and>
    \<bar>real_of_rat (read_decimal (show1 (Num y))) - exact_y most ns\<bar> \<le> off e + 1 / 20"
proof -
  obtain x where x: "pct_x (calls_of lg 0) rnd (rnd q) = Num x" "\<bar>real_of_rat x - exact_x q\<bar> \<le> off e"
    using pct_x_near [OF assms(1) log_within_calls [OF assms(2)] assms(3-5)] by blast
  obtain y where y: "lat_y (calls_of lg 1) rnd ns most = Num y" "\<bar>real_of_rat y - exact_y most ns\<bar> \<le> off e"
    using lat_y_near [OF assms(1) log_within_calls [OF assms(2)] assms(3,6,7)] by blast
  have off: "off e \<le> 2" using assms(3) by simp
  have "2 \<le> exact_x q" "2 \<le> exact_y most ns"
    using exact_x_in_frame(1) [OF assms(4,5)] exact_y_in_frame(1) [OF assms(6,7)] by linarith+
  then show ?thesis using x y printed_near [OF x(2) off] printed_near [OF y(2) off] by blast
qed

text \<open>
  C31: Where the six points of a curve are drawn, with latencies between 32 nanoseconds and the longest of all
  results: each is a number of pixels, and both as computed and as printed with one decimal it is near the
  exact place, which is linear in the logarithm of the part of the messages that is slower (from the left
  edge at 88 for all to the right edge at 690 for one in ten thousand) and in the logarithm of the latency
  (from the bottom at 416 for 1.5 to the top at 44 for the longest).  Rust does not say how precise
  \<open>log10\<close> is, and two calls may differ.  So this is stated for any bound \<open>e\<close>, up to a millionth, such
  that every call, each with its own error, is within \<open>e\<close> of the logarithm: the points are then within
  \<open>10 ^ 6 * e + 1 / 10 ^ 4\<close> pixels of their places, and printing adds at most half a tenth.  Arithmetic
  rounds to nearest.
\<close>

theorem svg_points_near:
  assumes "rounding_ok rnd" and "e \<le> 1 / 10 ^ 6"
    and "\<forall>c x. 1 / 10 ^ 6 \<le> x \<and> x \<le> 2 ^ 65 \<longrightarrow> \<bar>real_of_rat (lg c x) - log 10 (real_of_rat x)\<bar> \<le> e"
    and "32 \<le> min_ns p" and "sorted [min_ns p, p50_ns p, p95_ns p, p99_ns p, p99_9_ns p, max_ns p, gmax]"
  shows "list_all2 (\<lambda>(cx, cy) (q, ns).
      let X = 88 + 602 * (- log 10 (1 - real_of_rat q) / 4);
          Y = 44 + 372 * (1 - (log 10 (real (unat ns)) - 3 / 2) / (log 10 (real (unat gmax)) - 3 / 2));
          d = 10 ^ 6 * e + 1 / 10 ^ 4 in
      (\<exists>x y. cx = Num x \<and> cy = Num y \<and> \<bar>real_of_rat x - X\<bar> \<le> d \<and> \<bar>real_of_rat y - Y\<bar> \<le> d) \<and>
      \<bar>real_of_rat (read_decimal (show1 cx)) - X\<bar> \<le> d + 1 / 20 \<and> \<bar>real_of_rat (read_decimal (show1 cy)) - Y\<bar> \<le> d + 1 / 20 \<and>
      88 \<le> X \<and> X \<le> 690 \<and> 44 \<le> Y \<and> Y \<le> 416)
    (series_points lg rnd gmax p)
    [(0, min_ns p), (1 / 2, p50_ns p), (95 / 100, p95_ns p), (99 / 100, p99_ns p), (999 / 1000, p99_9_ns p),
     (9999 / 10000, max_ns p)]"
proof -
  have lw: "log_within e lg" using assms(3) by (simp only: log_within_def)
  have "list_all2 (\<lambda>(cx, cy) (q, ns).
      (\<exists>x y. cx = Num x \<and> cy = Num y \<and> \<bar>real_of_rat x - exact_x q\<bar> \<le> off e \<and> \<bar>real_of_rat y - exact_y gmax ns\<bar> \<le> off e) \<and>
      \<bar>real_of_rat (read_decimal (show1 cx)) - exact_x q\<bar> \<le> off e + 1 / 20 \<and>
      \<bar>real_of_rat (read_decimal (show1 cy)) - exact_y gmax ns\<bar> \<le> off e + 1 / 20 \<and>
      88 \<le> exact_x q \<and> exact_x q \<le> 690 \<and> 44 \<le> exact_y gmax ns \<and> exact_y gmax ns \<le> 416)
    (series_points lg rnd gmax p)
    [(0, min_ns p), (1 / 2, p50_ns p), (95 / 100, p95_ns p), (99 / 100, p99_ns p), (999 / 1000, p99_9_ns p),
     (9999 / 10000, max_ns p)]" (is "list_all2 ?near _ ?pts")
  proof -
    have "?near (pct_x (calls_of (calls_of lg i) 0) rnd (rnd q), lat_y (calls_of (calls_of lg i) 1) rnd ns gmax) (q, ns)"
      if qn: "(q, ns) \<in> set ?pts" for i q ns
    proof -
      have b: "0 \<le> q" "q \<le> 9999 / 10000" "32 \<le> ns" "ns \<le> gmax" using qn assms(4,5) by auto
      show ?thesis
        using point_near [OF assms(1) log_within_calls [OF lw, of i] assms(2) b] exact_x_in_frame(1,2) [OF b(1,2)]
          exact_y_in_frame(1,2) [OF b(3,4)] by auto
    qed
    then show ?thesis unfolding series_points_def by (intro enumerate_all2) (simp only: split_paired_all prod.case)
  qed
  then show ?thesis unfolding exact_x_def exact_y_def Let_def .
qed

theorem svg_points_near_witness:
  "\<exists>x y. series_points ex_log (\<lambda>x. x) 5000 (lat_latency ex_lat_row) ! 5 = (Num x, Num y) \<and>
     \<bar>real_of_rat y - 44\<bar> \<le> 1 / 1000"
proof -
  have e: "1 / 10 ^ 10 \<le> (1 / 10 ^ 6 :: real)" by simp
  let ?p = "lat_latency ex_lat_row"
  have "32 \<le> min_ns ?p" "sorted [min_ns ?p, p50_ns ?p, p95_ns ?p, p99_ns ?p, p99_9_ns ?p, max_ns ?p, 5000]"
    by (simp_all add: ex_lat_row_def)
  note main = svg_points_near [OF ex_rounding_ok e ex_log_within [unfolded log_within_def] this]
  have m: "max_ns ?p = 5000" by (simp add: ex_lat_row_def)
  have "log 10 32 \<le> log 10 (5000 :: real)" by (rule log_mono) simp_all
  then have l: "3 / 2 < log 10 (5000 :: real)" using log_31_32(2) by linarith
  then have q: "log 10 5000 * 2 \<noteq> (3 :: real)" by linarith
  have "372 * log 10 5000 - 558 = 372 * (log 10 5000 - 3 / 2 :: real)" by simp
  then have q': "(372 * log 10 5000 - 558) / (log 10 5000 - 3 / 2) = (372 :: real)"
    using l by (simp only: nonzero_divide_eq_eq)
  obtain x y where p: "series_points ex_log (\<lambda>x. x) 5000 ?p ! 5 = (Num x, Num y)"
    and y: "\<bar>real_of_rat y - 44\<bar> \<le> 10 ^ 6 * (1 / 10 ^ 10) + 1 / 10 ^ 4"
    using list_all2_nthD2 [OF main, of 5] unfolding m by (auto simp: Let_def q q' split: prod.splits)
  from y have "\<bar>real_of_rat y - 44\<bar> \<le> 1 / 1000" by (rule order_trans) simp
  with p show ?thesis by blast
qed

end
