(* ===== verification/Programs.thy ===== *)
theory Programs
  imports Console Environment
begin

text \<open>
  The two verification programs from their configuration to their console: \<open>main\<close> of
  \<open>tail_bench.rs\<close> and \<open>main\<close> of \<open>persist_verify.rs\<close>, put together from the variables and files they
  read, the runs, and what they print.  The exported report is the list of rows.
\<close>

section \<open>Telling lines apart\<close>

text \<open>A literal is compared at one place only, so the rest of a line is not looked at.\<close>

lemma length_literal [simp]: "length (chars_of s) = length s"
  by (simp add: chars_of_def)

lemma nth_literal: "i < length s \<Longrightarrow> chars_of s ! i = of_char (s ! i)"
    "i < length s \<Longrightarrow> (chars_of s @ t) ! i = of_char (s ! i)"
  by (simp_all add: chars_of_def nth_append)

lemma prefix_nth: "prefix p l \<Longrightarrow> i < length p \<Longrightarrow> l ! i = p ! i"
  by (auto simp: prefix_def nth_append)

section \<open>\<open>tail_bench\<close>\<close>

definition tail_program ::
    "'h hist_ops \<Rightarrow> (wait_strategy \<Rightarrow> u64 \<Rightarrow> nat \<Rightarrow> 'h) \<Rightarrow> names \<Rightarrow> names \<Rightarrow> chars \<Rightarrow> chars \<Rightarrow> nat
      \<Rightarrow> panic + (chars list \<times> rate_result list)" where
  "tail_program ops outcome files vars os_name arch_name cores =
     (let rates_var = vars ''CADENCE_RATES'';
          env = env_block files vars os_name arch_name cores in
      and_then (tail_bench ops outcome rates_var (vars ''CADENCE_TRIALS'')) (\<lambda>rs.
        let n = length (rates_of rates_var) in
        Inr (tail_stdout env (take n rs) (drop n rs), rs)))"

text \<open>The lines of the rates, and what a line says at its end.\<close>

definition is_rate_line :: "chars \<Rightarrow> bool" where
  "is_rate_line l = prefix (chars_of ''  rate='') l"

definition says_pass :: "chars \<Rightarrow> bool" where
  "says_pass l = suffix (chars_of ''PASS <1'' @ [0xB5] @ chars_of ''s stable'') l"

lemma rate_lines [simp]: "is_rate_line (rate_line r)"
  by (simp add: is_rate_line_def rate_line_def)

lemma says_pass_line: "says_pass (rate_line r) \<longleftrightarrow> passes_sub_us r"
proof (cases "passes_sub_us r")
  case True
  then show ?thesis by (simp add: says_pass_def rate_line_def suffix_def)
next
  case False
  then have "last (rate_line r) = 0x2014" by (simp add: rate_line_verdict)
  moreover have "last l = 0x65" if "says_pass l" for l
    using that by (auto simp: says_pass_def suffix_def chars_of_def)
  ultimately show ?thesis using False by fastforce
qed

lemma not_rate_line: "l ! 2 \<noteq> 0x72 \<Longrightarrow> \<not> is_rate_line l"
  unfolding is_rate_line_def by (auto dest: prefix_nth [where i = 2] simp: nth_literal)

lemma not_rate_blank: "\<not> is_rate_line []"
  by (simp add: is_rate_line_def chars_of_def)

lemma tail_lines: "filter is_rate_line (tail_stdout env spin yield) = map rate_line (spin @ yield)"
proof -
  have "filter is_rate_line (map rate_line rs) = map rate_line rs" for rs
    by (rule filter_True) simp
  then show ?thesis by (simp add: tail_stdout_def not_rate_line not_rate_blank nth_literal)
qed

section \<open>\<open>persist_verify\<close>\<close>

definition verify_program ::
    "rounding \<Rightarrow> platform \<Rightarrow> (string \<Rightarrow> nat \<Rightarrow> durability \<Rightarrow> nat \<Rightarrow> f64) \<Rightarrow> names \<Rightarrow> names \<Rightarrow> chars \<Rightarrow> chars
      \<Rightarrow> (panic + (chars list \<times> cell list)) option" where
  "verify_program rnd P secs files vars os_name arch_name =
     (let msgs_var = vars ''CADENCE_MSGS''; trials_var = vars ''CADENCE_TRIALS'';
          env = verify_env files vars os_name arch_name in
      and_run (verify_main rnd P secs msgs_var trials_var) (\<lambda>(rows, ok).
        Some (Inr (verify_stdout env (unat (number_of DEFAULT_MSGS msgs_var)) (unat (number_of VERIFY_TRIALS trials_var))
          (rows, ok), rows))))"

definition is_cell_line :: "chars \<Rightarrow> bool" where
  "is_cell_line l \<longleftrightarrow> (\<exists>k\<in>set writer_kinds. prefix (chars_of (''  '' @ k)) l)"

lemma not_cell_line: "l ! 2 \<noteq> 0x73 \<Longrightarrow> l ! 2 \<noteq> 0x69 \<Longrightarrow> \<not> is_cell_line l"
  unfolding is_cell_line_def writer_kinds_def by (auto dest: prefix_nth [where i = 2] simp: nth_literal)

lemma not_cell_blank: "\<not> is_cell_line []"
  by (simp add: is_cell_line_def writer_kinds_def chars_of_def)

lemma cell_lines: "cell_writer r \<in> set writer_kinds \<Longrightarrow> is_cell_line (cell_line r)"
  unfolding is_cell_line_def by (rule bexI) (simp_all add: cell_line_def pad_right_def chars_of_def)

lemma warnings_apart:
  "filter is_cell_line (verify_warnings env) = []" "l \<in> set (verify_warnings env) \<Longrightarrow> l ! 0 = 0x20"
  by (auto simp: verify_warnings_def not_cell_line nth_literal)

lemma cell_line_first: "cell_line r ! 0 = 0x20"
  by (simp add: cell_line_def nth_literal)

lemma verdict_not_cell: "\<not> is_cell_line (verdict_line v)"
  by (rule not_cell_line) (simp_all add: verdict_line_def nth_literal)

text \<open>The line of the verdict.\<close>

definition is_claim_line :: "chars \<Rightarrow> bool" where
  "is_claim_line l = prefix (chars_of ''Claim D'') l"

lemma not_claim_line: "l ! 0 \<noteq> 0x43 \<Longrightarrow> \<not> is_claim_line l" "l ! 1 \<noteq> 0x6C \<Longrightarrow> \<not> is_claim_line l"
  using prefix_nth [of "chars_of ''Claim D''" l 0] prefix_nth [of "chars_of ''Claim D''" l 1]
  by (auto simp: is_claim_line_def nth_literal)

lemma claim_lines: "is_claim_line (verdict_line v)" "\<not> is_claim_line []" "\<not> is_claim_line (cell_line r)"
    "filter is_claim_line (map cell_line rs) = []" "filter is_claim_line (verify_warnings env) = []"
  using not_claim_line(1) cell_line_first warnings_apart(2)
  by (auto simp: verdict_line_def is_claim_line_def chars_of_def filter_empty_conv)

text \<open>The console shows the cells of the report in its order, and the verdict.\<close>

lemma verify_lines:
  assumes "map cell_durability rows = replicate n (durability_label SyncEnd) @ replicate m (durability_label SyncPerBatch)"
    and kinds: "\<forall>r\<in>set rows. cell_writer r \<in> set writer_kinds"
  shows "filter is_cell_line (verify_stdout env msgs ntrials (rows, ok)) = map cell_line rows"
    and "filter is_claim_line (verify_stdout env msgs ntrials (rows, ok)) = [verdict_line ok]"
proof -
  have cells: "filter is_cell_line (map cell_line rs) = map cell_line rs" if "set rs \<subseteq> set rows" for rs
    using kinds that by (intro filter_True) (auto intro: cell_lines)
  have "map cell_line rows = map cell_line (take n rows) @ map cell_line (drop n rows)"
    unfolding map_append [symmetric] append_take_drop_id ..
  then show "filter is_cell_line (verify_stdout env msgs ntrials (rows, ok)) = map cell_line rows"
    using cells [OF set_take_subset] cells [OF set_drop_subset] warnings_apart(1)
    unfolding verify_stdout_def prod.case verify_shows_cells [OF assms(1)]
    by (simp add: verdict_not_cell not_cell_line not_cell_blank nth_literal
        del: append_take_drop_id)
  show "filter is_claim_line (verify_stdout env msgs ntrials (rows, ok)) = [verdict_line ok]"
    unfolding verify_stdout_def prod.case verify_shows_cells [OF assms(1)]
    by (simp add: claim_lines not_claim_line nth_literal del: append_take_drop_id)
qed

section \<open>Properties\<close>

text \<open>
  C28: The whole run of \<open>tail_bench\<close> as configured by the environment.  Its report has one row per
  configured rate with the spinning consumer and then one per rate with the yielding consumer, in
  the order given; the console shows one line for each row, in the order of the report and whatever
  the system is called, and the line says that the rate passes exactly when the percentiles in the
  row pass.  When a configured rate is zero, which the variable accepts, and the number of trials is
  not zero, the run panics with a division by zero before anything is exported; with no trials it
  returns with its rows whatever the rates.
\<close>

theorem tail_program_console:
  assumes "adds ops merge" and "rates = rates_of (vars ''CADENCE_RATES'')"
    and "n = number_of DEFAULT_TRIALS (vars ''CADENCE_TRIALS'')"
  shows "if 0 \<in> set rates \<and> n \<noteq> 0
    then tail_program ops outcome files vars os_name arch_name cores = Inl AssertFailed
    else \<exists>console rs. tail_program ops outcome files vars os_name arch_name cores = Inr (console, rs) \<and>
      map (\<lambda>r. (wait_label r, rate_hz r)) rs = map (Pair ''busy-spin'') rates @ map (Pair ''yield'') rates \<and>
      filter is_rate_line console = map rate_line rs \<and>
      (\<forall>r\<in>set rs. pinned r \<and> trials r = unat n \<and> says_pass (rate_line r) = passes (p99_per_trial r))"
  using tail_bench_rows [OF assms(1), of "vars ''CADENCE_RATES''" "vars ''CADENCE_TRIALS''" outcome]
  by (auto simp: tail_program_def Let_def tail_lines says_pass_line assms(2,3) split: if_splits)

theorem tail_program_console_witness:
  "\<exists>console rs. tail_program exact_hist (\<lambda>w r i. [if w = BusySpin then 700 else 1300]) (\<lambda>f. None) (\<lambda>v. None)
      (chars_of ''linux'') (chars_of ''x86_64'') 8 = Inr (console, rs) \<and> length rs = 6 \<and>
     filter is_rate_line console = map rate_line rs"
proof -
  have rates: "rates_of None = [10000, 100000, 1000000]" by (simp add: rates_of_def DEFAULT_RATES_def)
  have "\<not> (0 \<in> set (rates_of None) \<and> number_of DEFAULT_TRIALS None \<noteq> 0)" by (simp add: rates)
  then obtain console rs where run: "tail_program exact_hist (\<lambda>w r i. [if w = BusySpin then 700 else 1300]) (\<lambda>f. None) (\<lambda>v. None)
      (chars_of ''linux'') (chars_of ''x86_64'') 8 = Inr (console, rs)" "filter is_rate_line console = map rate_line rs"
      "map (\<lambda>r. (wait_label r, rate_hz r)) rs = map (Pair ''busy-spin'') (rates_of None) @ map (Pair ''yield'') (rates_of None)"
    using tail_program_console [OF exact_hist_ok(1) refl refl, of "\<lambda>v. None" "\<lambda>w r i. [if w = BusySpin then 700 else 1300]"
        "\<lambda>f. None" "chars_of ''linux''" "chars_of ''x86_64''" 8] by auto
  have "length rs = length (map (Pair ''busy-spin'') (rates_of None) @ map (Pair ''yield'') (rates_of None))"
    using run(3) by (metis length_map)
  also have "\<dots> = 6" by (simp add: rates)
  finally show ?thesis using run by blast
qed

text \<open>
  C26: The whole run of \<open>persist_verify\<close> as configured, on a platform without failures, with rounding that
  keeps the order, durations above zero, and messages and batches that fit the kernel's offsets: it ends
  without a panic, its report has one row per durability, batch size and writer in that order, the console
  shows one line for each row, in the order of the report, and exactly one line on the claim, which is read
  off the rows: after its title it says PASS when, in a group of at least 64 messages per batch and of either
  durability, the row of the fixed-buffer writer has a median at least one and a half times that of
  the standard writer's row, which is above zero, and otherwise that the claim is not met.
\<close>

theorem verify_program_console:
  assumes "platform_ok P" and "rounds rnd" and "\<forall>k b d. positive (secs k b d)"
    and "64 * (unat (number_of DEFAULT_MSGS (vars ''CADENCE_MSGS'')) + 4096) < 2 ^ 63"
  shows "\<exists>console rows. verify_program rnd P secs files vars os_name arch_name = Some (Inr (console, rows)) \<and>
    map (\<lambda>r. (cell_key r, cell_writer r)) rows =
      concat (map (\<lambda>(d, b). map (Pair (durability_label d, b)) writer_kinds) all_groups) \<and>
    filter is_cell_line console = map cell_line rows \<and>
    filter (\<lambda>l. prefix (chars_of ''Claim D'') l) console =
      [chars_of ''Claim D (WriteFixed '' @ [0x2265] @ chars_of ''1.5'' @ [0xD7] @ chars_of '' std at batch'' @ [0x2265] @ chars_of ''64): '' @
       (if \<exists>f\<in>set rows. \<exists>s\<in>set rows. cell_writer f = ''io_uring-WriteFixed'' \<and> cell_writer s = ''std-BufWriter'' \<and>
             cell_key f = cell_key s \<and> 64 \<le> batch_size f \<and> f_gt (mb_s_median s) (Fin 0) \<and>
             f_ge (f_div rnd (mb_s_median f) (mb_s_median s)) (Fin (3 / 2))
        then chars_of ''PASS (see ratio_vs_std)''
        else chars_of ''NOT met on this run '' @ [0x2014] @ chars_of '' report honestly per BENCHMARKING.md '' @ [0xA7] @ chars_of ''8'')]"
proof -
  obtain rows where run: "verify_main rnd P secs (vars ''CADENCE_MSGS'') (vars ''CADENCE_TRIALS'') = Some (Inr (rows, claim_d rnd rows))"
    and keys: "map (\<lambda>r. (cell_key r, cell_writer r)) rows =
      concat (map (\<lambda>(d, b). map (Pair (durability_label d, b)) writer_kinds) all_groups)"
    using persist_verify_verdict [OF assms] unfolding verify_main_def by blast
  have "map cell_durability rows = map (\<lambda>(k, w). fst k) (map (\<lambda>r. (cell_key r, cell_writer r)) rows)"
    by (simp add: cell_key_def comp_def)
  also have "\<dots> = replicate 15 (durability_label SyncEnd) @ replicate 15 (durability_label SyncPerBatch)"
    unfolding keys by (simp add: all_groups_def BATCH_SIZES_def writer_kinds_def numeral_eq_Suc)
  finally have durs: "map cell_durability rows =
    replicate 15 (durability_label SyncEnd) @ replicate 15 (durability_label SyncPerBatch)" .
  have "cell_writer ` set rows = snd ` set (map (\<lambda>r. (cell_key r, cell_writer r)) rows)" by (simp add: image_image)
  then have "cell_writer ` set rows \<subseteq> set writer_kinds" unfolding keys by auto
  then have "\<forall>r\<in>set rows. cell_writer r \<in> set writer_kinds" by blast
  note lines = verify_lines [OF durs this]
  let ?env = "verify_env files vars os_name arch_name"
  let ?console = "verify_stdout ?env (unat (number_of DEFAULT_MSGS (vars ''CADENCE_MSGS'')))
    (unat (number_of VERIFY_TRIALS (vars ''CADENCE_TRIALS''))) (rows, claim_d rnd rows)"
  have "verify_program rnd P secs files vars os_name arch_name = Some (Inr (?console, rows))"
    by (simp only: verify_program_def Let_def run and_run_simps prod.case)
  moreover note keys lines(1) lines(2) [unfolded verdict_line_def claim_d_def is_claim_line_def]
  ultimately show ?thesis unfolding claim_d_def by (intro exI conjI)
qed

theorem verify_program_console_witness:
  "\<exists>console rows. verify_program Fin ex_platform (\<lambda>k b d i. Fin 1) (\<lambda>f. None) (\<lambda>v. None) (chars_of ''linux'') (chars_of ''x86_64'') =
       Some (Inr (console, rows)) \<and> length (filter is_cell_line console) = 30 \<and>
     length (filter (\<lambda>l. prefix (chars_of ''Claim D'') l) console) = 1"
proof -
  have secs: "\<forall>k b d. positive ((\<lambda>k b d i. Fin 1) (k :: string) (b :: nat) (d :: durability))" by (simp add: positive_def)
  have size: "64 * (unat (number_of DEFAULT_MSGS ((\<lambda>v. None) ''CADENCE_MSGS'')) + 4096) < 2 ^ 63"
    by (simp add: number_of_def DEFAULT_MSGS_def)
  note main = verify_program_console [where vars = "\<lambda>v. None", OF ex_platform_ok rounds_exact secs size]
  obtain console rows where run:
      "verify_program Fin ex_platform (\<lambda>k b d i. Fin 1) (\<lambda>f. None) (\<lambda>v. None) (chars_of ''linux'') (chars_of ''x86_64'') =
         Some (Inr (console, rows))"
      "map (\<lambda>r. (cell_key r, cell_writer r)) rows =
         concat (map (\<lambda>(d, b). map (Pair (durability_label d, b)) writer_kinds) all_groups)"
      "filter is_cell_line console = map cell_line rows" "length (filter (\<lambda>l. prefix (chars_of ''Claim D'') l) console) = 1"
    using main [of "\<lambda>f. None" "chars_of ''linux''" "chars_of ''x86_64''"]
    by (elim exE conjE) (rule that, assumption+, simp only: list.size(3,4) One_nat_def add_0)
  have "length rows = length (map (\<lambda>r. (cell_key r, cell_writer r)) rows)" by simp
  also have "\<dots> = 30"
    unfolding run(2) by (simp add: all_groups_def BATCH_SIZES_def writer_kinds_def)
  finally have "length (filter is_cell_line console) = 30" unfolding run(3) by simp
  then show ?thesis using run(1,4) by (intro exI conjI)
qed

end
