(* ===== verification/Spec2Isabelle.thy ===== *)
theory Spec2Isabelle
  imports Cli Spsc_Threads Bus_Concurrent Persist Base64 Repo_Tests Thread_Test Svg_Points Programs
begin

text \<open>
  A verification of Cadence, a publish/subscribe message bus with a lock-free ring buffer, log
  writers over standard I/O and io_uring, and the benchmarks that measure them.

  \<^bold>\<open>The program.\<close>  \<open>message-core\<close> is the 64-byte message that everything else moves.  \<open>bus\<close> offers
  two ways of moving it: \<open>Bus\<close> routes a message by its topic to bounded crossbeam channels, one
  per subscription, and drops it where a channel is full; \<open>spsc\<close> is a ring buffer for one
  producer and one consumer thread, which share two atomic cursors and nothing else.  \<open>persist\<close>
  appends messages to a log file through one of three writers with a common trait: \<open>StdWriter\<close>
  (buffered writes), \<open>UringWriter\<close> (a submission per chunk of records) and \<open>UringFixedWriter\<close>
  (one write per chunk from a registered buffer).  \<open>bench\<close> times the ring, the bus and the
  writers and exports the results; \<open>cli\<close> is a demonstration of one message over the bus.

  \<^bold>\<open>Theories and sources\<close> (all under \<open>src/crates\<close>).

  \<^item> \<open>Prelude\<close>: machine types, panics, slices with their range checks, byte orders, powers of two,
    and the lemmas on lists and words that the components share.
  \<^item> \<open>Utf8\<close>, \<open>Message\<close>: \<open>message-core/src/lib.rs\<close>.  Validity of UTF-8; \<open>Message::new\<close>, \<open>topic_str\<close>,
    \<open>payload_bytes\<close>, \<open>to_bytes\<close>, \<open>from_bytes\<close>.  The record format is a bijection between well-formed
    messages and lists of 64 bytes.
  \<^item> \<open>Fifo\<close>: the abstract bounded queue and the locale of a queue that implements it.  \<open>Ring\<close>:
    \<open>bus/src/spsc.rs\<close> as one thread sees it, with 64-bit cursors that wrap; it interprets the
    locale, so that any sequence of calls answers as the abstract queue does, and its \<open>Drop\<close>
    releases what is left.
  \<^item> \<open>Atomics\<close>, \<open>Spsc_Threads\<close>: the same file with two threads, one step per memory access, over a
    memory in which a load may return any value not older than what the thread has seen, with
    release and acquire as the code has them.  Absence of data races, delivery, refinement of the
    abstract queue, possible completion, and teardown are invariants of its reachable states.
  \<^item> \<open>Channel\<close>, \<open>Bus\<close>: \<open>bus/src/lib.rs\<close>.  \<open>Channel\<close> is the contract of a bounded channel as a
    locale, interpreted on a channel made of the ring.  \<open>Bus\<close> has every operation; histories of
    calls in any order (\<open>bus_reach\<close>) carry its invariants.
  \<^item> \<open>Bus_Threads\<close>, \<open>Bus_Sections\<close>, \<open>Bus_Serial\<close>, \<open>Bus_Concurrent\<close>: the same file with any number of
    threads, one step per access to the lock, the table of subscriptions, the drop counter and a
    channel.  \<open>Bus_Sections\<close> runs one call alone and shows that every call can finish; \<open>Bus_Serial\<close>
    moves the steps of receivers past those of an offer, so that every run amounts to a history of
    whole operations; \<open>Bus_Concurrent\<close> has the safety, delivery and counting properties.
  \<^item> \<open>Log_File\<close>, \<open>Message_Writer\<close>: files as byte lists with a durable part, and the contract of the
    trait \<open>MessageWriter\<close> as a locale.  \<open>Std_Writer\<close>, \<open>Uring\<close>, \<open>Uring_Writer\<close>, \<open>Uring_Fixed\<close>,
    \<open>Persist\<close>: \<open>persist/src/lib.rs\<close>, each writer with the buffers, queues and offsets of the code;
    \<open>Persist\<close> interprets the trait for each of them and compares them.
  \<^item> \<open>Writer_Bench\<close>, \<open>Float64\<close>, \<open>Cells\<close>, \<open>Bench_Mains\<close>: \<open>bench/src/persist_verify.rs\<close> and
    \<open>bench/src/persist_bench.rs\<close>, from the measuring loop, proved for every writer of the trait, up
    to the tables the two programs export and the verdict.
  \<^item> \<open>Tail_Stats\<close>, \<open>Latency_Trial\<close>, \<open>Config\<close>, \<open>Environment\<close>, \<open>Rate_Run\<close>: \<open>bench/src/tail_bench.rs\<close>, from
    the two threads of a trial to the rows of the sweep.
  \<^item> \<open>Bus_Trial\<close>, \<open>Throughput\<close>, \<open>Base64\<close>, \<open>Bench_Report\<close>: \<open>bench/src/main.rs\<close>: trials over the bus and
    over the ring, and the report made of their end states.
  \<^item> \<open>Format\<close>, \<open>Console\<close>, \<open>Programs\<close>: what the four benchmark programs print, the formatting of numbers
    it rests on, and \<open>tail_bench\<close> and \<open>persist_verify\<close> as whole programs, from the environment to the
    console.  \<open>Svg\<close>, \<open>Svg_Read\<close>, \<open>Svg_Points\<close>: \<open>render_latency_svg\<close> of \<open>bench/src/main.rs\<close>; a reader that
    takes its text apart again, and how far the points are from their exact places on the two scales.
  \<^item> \<open>Cli\<close>: \<open>cli/src/main.rs\<close>.  \<open>Repo_Tests\<close>, \<open>Thread_Test\<close>: the unit tests of the crates, run on the
    model.

  \<^bold>\<open>How the code is rendered.\<close>  Structs are records, enums datatypes, integers words of their width.
  Panics, faults of memory access and I/O errors are the left side of a sum; an operation that
  panics in the source has a branch that does.  Mutable state is passed and returned.  The pairs
  of threads are inductive step relations, whose interleavings are arbitrary.  Loops over data are
  structural recursion; the loops that wait or retry are \<open>partial_function\<close>s into \<open>option\<close>, where
  \<open>None\<close> is a run without end, so no fuel is used anywhere, and that such a loop returns is a
  statement of its own.

  \<^bold>\<open>Parameters and what is relied on.\<close>  The crossbeam channel: the locale \<open>channel\<close>.  The order in
  which the hash map of subscriptions is iterated: any enumeration of its keys.  The clock: any
  values.  System calls: for \<open>write\<close> any reply, where progress is claimed at least a byte each time;
  for io_uring a kernel that completes each submitted write exactly once, in any order, with any
  result, unless a theorem asks for full writes.  The hdrhistogram crate: its operations, with
  addition of histograms of equal bounds succeeding.  Rounding of floating-point results: a
  monotone function that makes no NaN; in \<open>Svg_Points\<close> also exact on whole numbers up to \<open>2 ^ 53\<close>
  and otherwise close, as rounding to nearest is (\<open>rounding_ok\<close>).  Rust leaves the precision of
  \<open>f64::log10\<close> open and lets it differ between calls, so \<open>lg\<close> has the call as an argument, and the place of
  a point is stated for any bound on the error of the calls, up to a millionth, in proportion to it.
  In \<open>Tail_Stats\<close> the comparison of \<open>iqr\<close> with a quarter
  of the median is made on integers, which is exact below \<open>2 ^ 53\<close>.

  \<^bold>\<open>Choices.\<close>  Buffer addresses are left out of io_uring operations, which carry the bytes they
  point to; what happens to queued operations whose buffers are freed is stated as such
  (\<open>uring_refused_submission\<close>).  The relaxed flag \<open>done\<close> of the benchmarks is read and written in
  steps of its own.  Counters of the benchmarks that count messages one by one are natural
  numbers; all other arithmetic wraps at its width, as in release builds.  In \<open>Bus\<close> an operation is one step; that
  this is how threads see it is the statement \<open>bus_runs_are_histories\<close>.  Nothing under the lock panics,
  so it is never poisoned.  Time stamps are taken before the lock, so they may be out of the order
  of delivery (\<open>stamps_out_of_order\<close>).  A program's console is that of a run without a panic.

  \<^bold>\<open>Not modelled.\<close>  The JSON text, which \<open>serde_json\<close> makes, and the calls that write the reports to
  files; pinning of threads, which has no effect on values; the values of elapsed time, which are
  parameters; fields that are constant strings on Linux; the branches for other platforms; the
  layout assertions on \<open>Message\<close> and the padding of cursors.

  \<^bold>\<open>What could follow.\<close>  The writers' io_uring operations with the addresses of their buffers; what a
  program has printed when it panics.
\<close>

end
